(* ===== verification/Prelude.thy ===== *)
theory Prelude
  imports Main "HOL-Library.Word"
begin

unbundle bit_operations_syntax

text \<open>
  Shared vocabulary of the development.

  \<^item> Type names for the machine types of the sources: \<open>size_t\<close> and \<open>uintptr_t\<close> are 64-bit
    words (so that the wrap-around of the counters is part of the model), flag fields have
    their width, and the signed results of system calls and completions are \<open>int\<close>.
  \<^item> \<open>fault\<close>: the ways in which the C++ code leaves the normal path without a value. A
    definition of the model returns \<open>Inl fault\<close> exactly where the source would dereference
    a null or dangling pointer, fail an assertion, throw or terminate.
  \<^item> The \<open>errno\<close> values the sources compare with.
  \<^item> Generic lemmas on power-of-two masks and on circular index arithmetic over a list, used by
    every component that indexes modulo a size.
\<close>

section \<open>Types\<close>

type_synonym size_t = "64 word"
type_synonym addr = "64 word"
type_synonym u32 = "32 word"
type_synonym u16 = "16 word"
type_synonym u8 = "8 word"
type_synonym tid = nat

text \<open>Null pointer of the address type.\<close>

abbreviation null :: addr where
  "null \<equiv> 0"

datatype fault =
    Null_deref
  | Dangling
  | Assertion_failed
  | Terminated
  | Thrown int

type_synonym 'a result = "fault + 'a"

definition ENOMEM :: int where "ENOMEM = 12"
definition ETIME :: int where "ETIME = 62"
definition ETIMEDOUT :: int where "ETIMEDOUT = 110"
definition ECANCELED :: int where "ECANCELED = 125"

lemmas errno_defs = ENOMEM_def ETIME_def ETIMEDOUT_def ECANCELED_def

named_theorems ring_simps "circular index arithmetic"
named_theorems invariant_defs "component invariants, for unfolding together"

section \<open>Sequencing of results\<close>

text \<open>The early exit of the sources: a fault skips the rest.\<close>

fun and_then :: "'a result \<Rightarrow> ('a \<Rightarrow> 'b result) \<Rightarrow> 'b result" where
  "and_then (Inl e) f = Inl e"
| "and_then (Inr x) f = f x"

lemma and_then_Inr_iff [simp]:
  "and_then r f = Inr y \<longleftrightarrow> (\<exists>x. r = Inr x \<and> f x = Inr y)"
  by (cases r) auto

lemma and_then_assoc: "and_then (and_then r f) g = and_then r (\<lambda>x. and_then (f x) g)"
  by (cases r) auto

section \<open>Power-of-two masks\<close>

lemma nat_and_pred_zero_power:
  assumes "0 < n" "and n (n - 1) = (0::nat)"
  shows "\<exists>k. n = 2 ^ k"
  using assms
proof (induction n rule: less_induct)
  case (less n)
  show ?case
  proof (cases "even n")
    case True
    then obtain m where m: "n = 2 * m" by blast
    with less.prems have "0 < m" by simp
    then obtain m' where m': "m = Suc m'" by (cases m) auto
    have "and n (n - 1) = 2 * and m (m - 1)"
      by (subst and_nat_rec) (simp add: m m')
    with less.prems have "and m (m - 1) = 0" by simp
    with less.IH [of m] \<open>0 < m\<close> m obtain k where "m = 2 ^ k" by auto
    then have "n = 2 ^ Suc k" using m by simp
    then show ?thesis by blast
  next
    case False
    then obtain m where m: "n = 2 * m + 1" by (auto elim: oddE)
    have "and n (n - 1) = 2 * m"
      by (subst and_nat_rec) (simp add: m)
    with less.prems m have "n = 2 ^ 0" by simp
    then show ?thesis by blast
  qed
qed

lemma word_and_pred_zero_power:
  assumes "0 < (w :: 'a::len word)" "w AND (w - 1) = 0"
  shows "\<exists>k. unat w = 2 ^ k"
proof (rule nat_and_pred_zero_power)
  show pos: "0 < unat w" using assms(1) by (simp add: word_less_nat_alt)
  have "unat (w - 1) = unat w - 1"
    using assms(1) by (simp add: unat_minus_one word_neq_0_conv)
  moreover have "unat (w AND (w - 1)) = and (unat w) (unat (w - 1))"
    by (simp add: unsigned_and_eq)
  ultimately show "and (unat w) (unat w - 1) = 0" using assms(2) by simp
qed

lemma nat_and_pred_power: "and n (2 ^ k - 1) = n mod (2 ^ k :: nat)"
proof -
  have "and n (mask k) = n mod (2 ^ k :: nat)"
    by (simp flip: take_bit_eq_mask add: take_bit_eq_mod)
  then show ?thesis by (simp add: mask_eq_exp_minus_1)
qed

text \<open>Masking with \<open>SIZE - 1\<close> is reduction modulo \<open>SIZE\<close>.\<close>

lemma unat_and_pred_size:
  assumes "0 < (s :: 'a::len word)" "s AND (s - 1) = 0"
  shows "unat (x AND (s - 1)) = unat x mod unat s"
proof -
  obtain k where k: "unat s = 2 ^ k"
    using word_and_pred_zero_power [OF assms] by blast
  have "unat (s - 1) = unat s - 1"
    using assms(1) by (simp add: unat_minus_one word_neq_0_conv)
  then show ?thesis
    by (simp only: unsigned_and_eq k nat_and_pred_power)
qed

text \<open>Widening a 32-bit count to \<open>size_t\<close>, and counts that fit.\<close>

lemma unat_ucast_size [simp]: "unat (ucast (w :: u32) :: size_t) = unat w"
proof -
  have "unat w < 2 ^ 32" using unsigned_less [of w] by simp
  then show ?thesis by (simp add: unsigned_ucast_eq take_bit_nat_eq_self_iff)
qed

lemma unat_count: "n < 2 ^ LENGTH('a :: len) \<Longrightarrow> unat (of_nat n :: 'a word) = n"
  by (simp add: unat_of_nat take_bit_nat_eq_self_iff)

section \<open>Circular lists\<close>

text \<open>
  \<open>ring_count N i p\<close> is the number of slots from the read position \<open>p\<close> up to the write
  position \<open>i\<close> of a ring of \<open>N\<close> slots; \<open>ring_list\<close> reads them out in order.
\<close>

definition ring_count :: "nat \<Rightarrow> nat \<Rightarrow> nat \<Rightarrow> nat" where
  "ring_count N i p = (if p \<le> i then i - p else i + N - p)"

definition ring_list :: "nat \<Rightarrow> 'a list \<Rightarrow> nat \<Rightarrow> nat \<Rightarrow> 'a list" where
  "ring_list N buf i p = map (\<lambda>j. buf ! ((p + j) mod N)) [0..<ring_count N i p]"

lemma length_ring_list [simp]: "length (ring_list N buf i p) = ring_count N i p"
  by (simp add: ring_list_def)

lemma Suc_mod_ring: "i < N \<Longrightarrow> Suc i mod N = (if Suc i = N then 0 else Suc i)"
  by auto

lemma ring_count_less: "i < N \<Longrightarrow> p < N \<Longrightarrow> ring_count N i p < N"
  by (auto simp: ring_count_def)

lemma ring_count_zero [ring_simps]: "i < N \<Longrightarrow> p < N \<Longrightarrow> ring_count N i p = 0 \<longleftrightarrow> i = p"
  by (auto simp: ring_count_def)

lemma ring_count_Suc_in [ring_simps]:
  "i < N \<Longrightarrow> p < N \<Longrightarrow> Suc i mod N \<noteq> p \<Longrightarrow>
   ring_count N (Suc i mod N) p = Suc (ring_count N i p)"
  by (auto simp: ring_count_def Suc_mod_ring)

lemma ring_count_Suc_out:
  "i < N \<Longrightarrow> p < N \<Longrightarrow> i \<noteq> p \<Longrightarrow>
   ring_count N i p = Suc (ring_count N i (Suc p mod N))"
  by (auto simp: ring_count_def Suc_mod_ring)

lemma ring_count_full [ring_simps]:
  "i < N \<Longrightarrow> p < N \<Longrightarrow> Suc i mod N = p \<longleftrightarrow> ring_count N i p = N - 1"
  by (auto simp: ring_count_def Suc_mod_ring)

text \<open>The slots that are read out never include the write position.\<close>

lemma ring_slot_neq:
  assumes "i < N" "p < N" "j < ring_count N i p"
  shows "(p + j) mod N \<noteq> i"
proof (cases "p + j < N")
  case True
  with assms show ?thesis by (auto simp: ring_count_def split: if_splits)
next
  case False
  with assms have "p + j - N < N" by (auto simp: ring_count_def split: if_splits)
  with False have "(p + j) mod N = p + j - N" by (simp add: le_mod_geq)
  with assms False show ?thesis by (auto simp: ring_count_def split: if_splits)
qed

lemma ring_slot_last: "i < N \<Longrightarrow> p < N \<Longrightarrow> (p + ring_count N i p) mod N = i"
  by (auto simp: ring_count_def)

lemma ring_list_empty [ring_simps]: "i < N \<Longrightarrow> p < N \<Longrightarrow> ring_list N buf i p = [] \<longleftrightarrow> i = p"
  by (simp add: ring_list_def ring_count_zero)

text \<open>Writing the slot at the write position does not change what is read out.\<close>

lemma ring_list_write [ring_simps]:
  assumes "i < N" "p < N" "length buf = N"
  shows "ring_list N (buf[i := e]) i p = ring_list N buf i p"
proof -
  have "(buf[i := e]) ! ((p + j) mod N) = buf ! ((p + j) mod N)"
    if "j < ring_count N i p" for j
    using ring_slot_neq [OF assms(1,2) that] by simp
  then show ?thesis by (simp add: ring_list_def)
qed

lemma ring_list_advance_in [ring_simps]:
  assumes "i < N" "p < N" "Suc i mod N \<noteq> p"
  shows "ring_list N buf (Suc i mod N) p = ring_list N buf i p @ [buf ! i]"
  using assms by (simp add: ring_list_def ring_count_Suc_in ring_slot_last)

lemma ring_list_advance_out:
  assumes "i < N" "p < N" "i \<noteq> p"
  shows "ring_list N buf i p = buf ! p # ring_list N buf i (Suc p mod N)"
proof -
  have "(p + Suc j) mod N = (Suc p mod N + j) mod N" for j
    by (simp add: mod_add_left_eq)
  then show ?thesis
    using assms
    by (simp add: ring_list_def ring_count_Suc_out [OF assms] upt_conv_Cons map_Suc_upt
        del: upt_Suc flip: map_Suc_upt)
qed

end
