(* ===== verification/Fifo.thy ===== *)
theory Fifo
  imports Prelude
begin

text \<open>
  The fixed-size FIFO of \<open>include/utils.h\<close> (\<open>struct Fifo\<close>), which carries coroutine handles
  from one event loop to another.

  \<open>push\<close> and \<open>pop\<close> are modelled here as calls that run without interference, and implement a
  queue of capacity \<open>SIZE - 1\<close>. The theory \<open>FifoSpsc\<close> models them at the grain of their atomic
  loads and stores, with a producer and a consumer thread interleaving.
\<close>

section \<open>The data structure and its operations\<close>

text \<open>
  \<open>std::array<T, SIZE> _buffer\<close> and the two atomic indices. \<open>SIZE\<close> is a template parameter
  and an argument of every operation.
\<close>

record 'a fifo =
  fifo_buffer :: "'a list"
  fifo_in :: size_t
  fifo_out :: size_t

text \<open>The condition of the \<open>static_assert\<close> in the constructor.\<close>

definition fifo_static_assert :: "size_t \<Rightarrow> bool" where
  "fifo_static_assert SIZE \<longleftrightarrow> 1 < SIZE \<and> (SIZE AND (SIZE - 1)) = 0"

definition fifo_mask :: "size_t \<Rightarrow> size_t" where
  "fifo_mask SIZE = SIZE - 1"

text \<open>A fresh object: the array of default values and both indices zero.\<close>

definition fifo_new :: "size_t \<Rightarrow> 'a \<Rightarrow> 'a fifo" where
  "fifo_new SIZE dflt =
     \<lparr>fifo_buffer = replicate (unat SIZE) dflt, fifo_in = 0, fifo_out = 0\<rparr>"

definition fifo_push :: "size_t \<Rightarrow> 'a \<Rightarrow> 'a fifo \<Rightarrow> bool \<times> 'a fifo" where
  "fifo_push SIZE e f =
     (let i = fifo_in f; next_in = (i + 1) AND fifo_mask SIZE
      in if next_in = fifo_out f then (False, f)
         else (True, f\<lparr>fifo_buffer := (fifo_buffer f)[unat i := e], fifo_in := next_in\<rparr>))"

text \<open>\<open>pop\<close> writes its reference argument \<open>opt\<close> only when there is an element.\<close>

definition fifo_pop :: "size_t \<Rightarrow> 'a \<Rightarrow> 'a fifo \<Rightarrow> 'a \<times> 'a fifo" where
  "fifo_pop SIZE opt f =
     (let i = fifo_in f; p = fifo_out f
      in if i = p then (opt, f)
         else (fifo_buffer f ! unat p, f\<lparr>fifo_out := (p + 1) AND fifo_mask SIZE\<rparr>))"

section \<open>Abstraction to a bounded queue\<close>

definition fifo_invar :: "size_t \<Rightarrow> 'a fifo \<Rightarrow> bool" where
  "fifo_invar SIZE f \<longleftrightarrow> fifo_static_assert SIZE \<and> length (fifo_buffer f) = unat SIZE
     \<and> fifo_in f < SIZE \<and> fifo_out f < SIZE"

definition fifo_list :: "size_t \<Rightarrow> 'a fifo \<Rightarrow> 'a list" where
  "fifo_list SIZE f =
     ring_list (unat SIZE) (fifo_buffer f) (unat (fifo_in f)) (unat (fifo_out f))"

text \<open>The interface: a queue of bounded capacity, with a \<open>pop\<close> that leaves its argument alone
  when the queue is empty.\<close>

locale bounded_queue =
  fixes contents :: "'q \<Rightarrow> 'a list"
    and capacity :: nat
    and invar :: "'q \<Rightarrow> bool"
    and enq :: "'a \<Rightarrow> 'q \<Rightarrow> bool \<times> 'q"
    and deq :: "'a \<Rightarrow> 'q \<Rightarrow> 'a \<times> 'q"
  assumes enq_full: "invar q \<Longrightarrow> length (contents q) = capacity \<Longrightarrow> enq x q = (False, q)"
    and enq_room: "invar q \<Longrightarrow> length (contents q) < capacity \<Longrightarrow>
          \<exists>q'. enq x q = (True, q') \<and> invar q' \<and> contents q' = contents q @ [x]"
    and deq_empty: "invar q \<Longrightarrow> contents q = [] \<Longrightarrow> deq d q = (d, q)"
    and deq_nonempty: "invar q \<Longrightarrow> contents q = x # xs \<Longrightarrow>
          \<exists>q'. deq d q = (x, q') \<and> invar q' \<and> contents q' = xs"
    and within_capacity: "invar q \<Longrightarrow> length (contents q) \<le> capacity"
begin

lemma enq_cases:
  assumes "invar q"
  obtains "enq x q = (False, q)" "length (contents q) = capacity"
  | q' where "enq x q = (True, q')" "invar q'" "contents q' = contents q @ [x]"
      "length (contents q) < capacity"
  using enq_full [OF assms] enq_room [OF assms] within_capacity [OF assms]
  by (metis le_neq_implies_less)

lemma deq_cases:
  assumes "invar q"
  obtains "deq d q = (d, q)" "contents q = []"
  | x q' where "deq d q = (x, q')" "invar q'" "contents q = x # contents q'"
  using deq_empty [OF assms] deq_nonempty [OF assms] by (metis neq_Nil_conv)

lemma enq_invar: "invar q \<Longrightarrow> enq x q = (b, q') \<Longrightarrow> invar q'"
  by (metis enq_cases prod.inject)

lemma deq_invar: "invar q \<Longrightarrow> deq d q = (x, q') \<Longrightarrow> invar q'"
  by (metis deq_cases prod.inject)

text \<open>A \<open>deq\<close> after an accepted \<open>enq\<close> on an empty queue returns the element.\<close>

lemma enq_deq:
  assumes "invar q" "contents q = []" "enq x q = (True, q')"
  shows "fst (deq d q') = x"
proof -
  have q': "invar q'" "contents q' = [x]"
    using enq_cases [OF assms(1), of x] assms(2,3)
    by (metis Pair_inject append_Nil)+
  then show ?thesis using deq_nonempty [OF q'(1), of x "[]" d] by auto
qed

end

section \<open>The operations implement the interface\<close>

lemma fifo_static_assertD:
  assumes "fifo_static_assert SIZE"
  shows "1 < unat SIZE" and "unat (x AND fifo_mask SIZE) = unat x mod unat SIZE"
proof -
  have "0 < SIZE" using assms by (simp add: fifo_static_assert_def word_less_nat_alt)
  with assms show "unat (x AND fifo_mask SIZE) = unat x mod unat SIZE"
    unfolding fifo_static_assert_def fifo_mask_def by (blast intro: unat_and_pred_size)
  show "1 < unat SIZE"
    using assms by (simp add: fifo_static_assert_def word_less_nat_alt)
qed

text \<open>The successor index, as the code computes it, is the successor modulo \<open>SIZE\<close>.\<close>

lemma fifo_next_index:
  assumes "fifo_static_assert SIZE" "i < SIZE"
  shows "unat ((i + 1) AND fifo_mask SIZE) = Suc (unat i) mod unat SIZE"
    and "(i + 1) AND fifo_mask SIZE < SIZE"
proof -
  have "unat SIZE < 2 ^ 64"
    by (rule order_less_le_trans [OF unsigned_less]) simp
  then have "unat i + 1 < 2 ^ 64"
    using assms(2) by (simp add: word_less_nat_alt)
  then have "unat (i + 1) = Suc (unat i)"
    by (simp add: unat_add_lem [THEN iffD1])
  then show eq: "unat ((i + 1) AND fifo_mask SIZE) = Suc (unat i) mod unat SIZE"
    by (simp add: fifo_static_assertD(2) [OF assms(1)])
  show "(i + 1) AND fifo_mask SIZE < SIZE"
    using fifo_static_assertD(1) [OF assms(1)] by (simp add: word_less_nat_alt eq)
qed

lemma fifo_next_index_eq_iff:
  assumes "fifo_static_assert SIZE" "i < SIZE"
  shows "(i + 1) AND fifo_mask SIZE = p \<longleftrightarrow> Suc (unat i) mod unat SIZE = unat p"
  using fifo_next_index(1) [OF assms] by (metis word_unat_eq_iff)

lemma fifo_index_bounds: "i < SIZE \<Longrightarrow> unat i < unat SIZE"
  by (simp add: word_less_nat_alt)

lemma fifo_new_invar: "fifo_static_assert SIZE \<Longrightarrow> fifo_invar SIZE (fifo_new SIZE d)"
  using fifo_static_assertD(1) [of SIZE]
  by (simp add: fifo_invar_def fifo_new_def word_less_nat_alt)

lemma fifo_new_list: "fifo_list SIZE (fifo_new SIZE d) = []"
  by (simp add: fifo_list_def fifo_new_def ring_list_def ring_count_def)

lemma fifo_push_full:
  assumes "fifo_invar SIZE f" "length (fifo_list SIZE f) = unat SIZE - 1"
  shows "fifo_push SIZE e f = (False, f)"
  using assms
  by (simp add: fifo_push_def fifo_invar_def fifo_list_def fifo_next_index_eq_iff
      fifo_index_bounds ring_count_full Let_def)

lemma fifo_push_room:
  assumes inv: "fifo_invar SIZE f" and room: "length (fifo_list SIZE f) < unat SIZE - 1"
  shows "\<exists>f'. fifo_push SIZE e f = (True, f') \<and> fifo_invar SIZE f'
    \<and> fifo_list SIZE f' = fifo_list SIZE f @ [e]"
proof -
  have sa: "fifo_static_assert SIZE" and i: "fifo_in f < SIZE" and p: "fifo_out f < SIZE"
    and len: "length (fifo_buffer f) = unat SIZE"
    using inv by (simp_all add: fifo_invar_def)
  note b = fifo_index_bounds [OF i] fifo_index_bounds [OF p]
  let ?f' = "f\<lparr>fifo_buffer := (fifo_buffer f)[unat (fifo_in f) := e],
    fifo_in := (fifo_in f + 1) AND fifo_mask SIZE\<rparr>"
  have ne: "Suc (unat (fifo_in f)) mod unat SIZE \<noteq> unat (fifo_out f)"
    using room by (simp add: fifo_list_def ring_count_full [OF b])
  have "fifo_push SIZE e f = (True, ?f')"
    using ne by (simp add: fifo_push_def fifo_next_index_eq_iff [OF sa i] Let_def)
  moreover have "fifo_invar SIZE ?f'"
    using inv fifo_next_index(2) [OF sa i] by (simp add: fifo_invar_def)
  moreover have "fifo_list SIZE ?f' = fifo_list SIZE f @ [e]"
    using b len ne
    by (simp add: fifo_list_def fifo_next_index(1) [OF sa i] ring_list_advance_in ring_list_write)
  ultimately show ?thesis by blast
qed

lemma fifo_pop_empty:
  "fifo_invar SIZE f \<Longrightarrow> fifo_list SIZE f = [] \<Longrightarrow> fifo_pop SIZE d f = (d, f)"
  by (simp add: fifo_pop_def fifo_invar_def fifo_list_def fifo_index_bounds ring_list_empty
      word_unat_eq_iff Let_def)

lemma fifo_pop_nonempty:
  assumes inv: "fifo_invar SIZE f" and list: "fifo_list SIZE f = x # xs"
  shows "\<exists>f'. fifo_pop SIZE d f = (x, f') \<and> fifo_invar SIZE f' \<and> fifo_list SIZE f' = xs"
proof -
  have sa: "fifo_static_assert SIZE" and i: "fifo_in f < SIZE" and p: "fifo_out f < SIZE"
    using inv by (simp_all add: fifo_invar_def)
  note b = fifo_index_bounds [OF i] fifo_index_bounds [OF p]
  let ?f' = "f\<lparr>fifo_out := (fifo_out f + 1) AND fifo_mask SIZE\<rparr>"
  have ne: "unat (fifo_in f) \<noteq> unat (fifo_out f)"
    using list ring_list_empty [OF b, of "fifo_buffer f"] by (auto simp: fifo_list_def)
  have "x = fifo_buffer f ! unat (fifo_out f)" "fifo_list SIZE ?f' = xs"
    using list ring_list_advance_out [OF b ne, of "fifo_buffer f"]
    by (simp_all add: fifo_list_def fifo_next_index(1) [OF sa p])
  moreover have "fifo_invar SIZE ?f'"
    using inv fifo_next_index(2) [OF sa p] by (simp add: fifo_invar_def)
  ultimately show ?thesis using ne by (auto simp: fifo_pop_def Let_def)
qed

lemma fifo_list_capacity: "fifo_invar SIZE f \<Longrightarrow> length (fifo_list SIZE f) \<le> unat SIZE - 1"
  using ring_count_less [of "unat (fifo_in f)" "unat SIZE" "unat (fifo_out f)"]
  by (simp add: fifo_invar_def fifo_list_def fifo_index_bounds)

text \<open>
  The instance the event loop uses: \<open>Fifo<std::coroutine_handle<>, 64>\<close>. The laws hold for every
  size that passes the \<open>static_assert\<close>, and are proved above for all of them.
\<close>

interpretation switch_queue: bounded_queue "fifo_list 64" 63 "fifo_invar 64"
    "fifo_push 64" "fifo_pop 64"
proof unfold_locales
  fix q :: "'a fifo" and x :: 'a and d :: 'a and xs :: "'a list"
  assume inv: "fifo_invar 64 q"
  show "length (fifo_list 64 q) = 63 \<Longrightarrow> fifo_push 64 x q = (False, q)"
    using fifo_push_full [OF inv] by simp
  show "length (fifo_list 64 q) < 63 \<Longrightarrow> \<exists>q'. fifo_push 64 x q = (True, q')
      \<and> fifo_invar 64 q' \<and> fifo_list 64 q' = fifo_list 64 q @ [x]"
    using fifo_push_room [OF inv] by simp
  show "fifo_list 64 q = [] \<Longrightarrow> fifo_pop 64 d q = (d, q)"
    by (rule fifo_pop_empty [OF inv])
  show "fifo_list 64 q = x # xs \<Longrightarrow>
      \<exists>q'. fifo_pop 64 d q = (x, q') \<and> fifo_invar 64 q' \<and> fifo_list 64 q' = xs"
    by (rule fifo_pop_nonempty [OF inv])
  show "length (fifo_list 64 q) \<le> 63"
    using fifo_list_capacity [OF inv] by simp
qed

section \<open>Properties\<close>

text \<open>The specification: a queue of capacity \<open>cap\<close> as a list.\<close>

definition bq_push :: "nat \<Rightarrow> 'a \<Rightarrow> 'a list \<Rightarrow> bool \<times> 'a list" where
  "bq_push cap e xs = (if length xs < cap then (True, xs @ [e]) else (False, xs))"

definition bq_pop :: "'a \<Rightarrow> 'a list \<Rightarrow> 'a \<times> 'a list" where
  "bq_pop d xs = (case xs of [] \<Rightarrow> (d, []) | x # ys \<Rightarrow> (x, ys))"

lemma fifo_push_refines:
  assumes "fifo_invar SIZE f"
  shows "map_prod id (fifo_list SIZE) (fifo_push SIZE e f)
           = bq_push (unat SIZE - 1) e (fifo_list SIZE f)
       \<and> fifo_invar SIZE (snd (fifo_push SIZE e f))"
proof (cases "length (fifo_list SIZE f) < unat SIZE - 1")
  case True
  with fifo_push_room [OF assms True, of e] show ?thesis by (auto simp: bq_push_def)
next
  case False
  then have "length (fifo_list SIZE f) = unat SIZE - 1"
    using fifo_list_capacity [OF assms] by simp
  with fifo_push_full [OF assms this, of e] assms show ?thesis by (simp add: bq_push_def)
qed

lemma fifo_pop_refines:
  assumes "fifo_invar SIZE f"
  shows "map_prod id (fifo_list SIZE) (fifo_pop SIZE d f) = bq_pop d (fifo_list SIZE f)
       \<and> fifo_invar SIZE (snd (fifo_pop SIZE d f))"
proof (cases "fifo_list SIZE f")
  case Nil
  with fifo_pop_empty [OF assms Nil, of d] assms show ?thesis by (simp add: bq_pop_def)
next
  case (Cons x xs)
  with fifo_pop_nonempty [OF assms Cons, of d] show ?thesis by (auto simp: bq_pop_def)
qed

text \<open>
  C13. For every size that passes the \<open>static_assert\<close>, \<open>push\<close> and \<open>pop\<close> refine the operations of a
  queue of capacity \<open>SIZE - 1\<close>: \<open>push\<close> returns true and appends exactly when there is room, and
  otherwise changes nothing; \<open>pop\<close> writes the oldest element to its argument, or leaves the
  argument alone when the queue is empty; both keep the invariant.
\<close>

theorem fifo_refines_bounded_queue:
  assumes "fifo_invar SIZE f"
  shows "map_prod id (fifo_list SIZE) (fifo_push SIZE e f)
           = bq_push (unat SIZE - 1) e (fifo_list SIZE f)
       \<and> map_prod id (fifo_list SIZE) (fifo_pop SIZE d f) = bq_pop d (fifo_list SIZE f)
       \<and> fifo_invar SIZE (snd (fifo_push SIZE e f))
       \<and> fifo_invar SIZE (snd (fifo_pop SIZE d f))"
  using fifo_push_refines [OF assms] fifo_pop_refines [OF assms] by blast

text \<open>A ring of four slots that has wrapped around, holding three elements: it is full.\<close>

theorem fifo_refines_bounded_queue_witness:
  "let f = \<lparr>fifo_buffer = [30, 0, 10, 20 :: int], fifo_in = 1, fifo_out = 2\<rparr>
   in fifo_invar 4 f \<and> fifo_list 4 f = [10, 20, 30] \<and> fst (fifo_push 4 40 f) = False
      \<and> fifo_list 4 (snd (fifo_pop 4 (0 :: int) f)) = [20, 30]"
proof -
  define f where "f = \<lparr>fifo_buffer = [30, 0, 10, 20 :: int], fifo_in = 1, fifo_out = 2\<rparr>"
  have inv: "fifo_invar 4 f" by (simp add: f_def fifo_invar_def fifo_static_assert_def)
  have list: "fifo_list 4 f = [10, 20, 30]"
    by (simp add: f_def fifo_list_def ring_list_def ring_count_def upt_rec)
  have "fst (map_prod id (fifo_list 4) (fifo_push 4 40 f)) = False"
    and "snd (map_prod id (fifo_list 4) (fifo_pop 4 0 f)) = [20, 30]"
    using fifo_refines_bounded_queue [OF inv, of 40 0] list by (simp_all add: bq_push_def bq_pop_def)
  then show ?thesis using inv list unfolding f_def [symmetric] Let_def by simp
qed

end
