(* ===== verification/FifoSpsc.thy ===== *)
theory FifoSpsc
  imports Fifo
begin

text \<open>
  \<open>Fifo::push\<close> and \<open>Fifo::pop\<close> (\<open>include/utils.h\<close>) at the grain of their atomic accesses: one
  producer thread and one consumer thread ("Only one thread may call push(). Only one thread
  may call pop()."), whose steps interleave freely. The interleaving is sequentially consistent;
  the acquire loads and release stores of the code are what makes this view sound for a single
  producer and a single consumer.

  The ghost fields \<open>pushed\<close> and \<open>popped\<close> record the elements of the calls that took effect.
  The invariant says that what was popped, followed by what the ring holds, is what was pushed:
  nothing is lost, duplicated or reordered, whatever the interleaving.
\<close>

section \<open>Program counters\<close>

text \<open>The producer inside \<open>push(elem)\<close>: after the load of \<open>_in\<close>, after the check against
  \<open>_out\<close>, after the write of the slot.\<close>

datatype 'a push_pc =
    P_idle
  | P_loaded 'a size_t
  | P_checked 'a size_t size_t
  | P_written 'a size_t size_t

text \<open>The consumer inside \<open>pop(opt)\<close>: after the load of \<open>_in\<close>, after the load of \<open>_out\<close>, after
  the read of the slot.\<close>

datatype 'a pop_pc =
    C_idle
  | C_loaded_in size_t
  | C_loaded_out size_t size_t
  | C_read 'a size_t

record 'a spsc =
  ring :: "'a fifo"
  push_pc :: "'a push_pc"
  pop_pc :: "'a pop_pc"
  pushed :: "'a list"
  popped :: "'a list"

definition spsc_init :: "size_t \<Rightarrow> 'a \<Rightarrow> 'a spsc" where
  "spsc_init SIZE d = \<lparr>ring = fifo_new SIZE d, push_pc = P_idle, pop_pc = C_idle,
     pushed = [], popped = []\<rparr>"

text \<open>The queue a state stands for.\<close>

definition spsc_abs :: "size_t \<Rightarrow> 'a spsc \<Rightarrow> 'a list" where
  "spsc_abs SIZE s = fifo_list SIZE (ring s)"

section \<open>Steps\<close>

inductive spsc_step :: "size_t \<Rightarrow> 'a spsc \<Rightarrow> 'a spsc \<Rightarrow> bool" for SIZE where
  push_load_in:
    "push_pc s = P_idle \<Longrightarrow>
     spsc_step SIZE s (s\<lparr>push_pc := P_loaded e (fifo_in (ring s))\<rparr>)"
| push_full:
    "push_pc s = P_loaded e i \<Longrightarrow> (i + 1) AND fifo_mask SIZE = fifo_out (ring s) \<Longrightarrow>
     spsc_step SIZE s (s\<lparr>push_pc := P_idle\<rparr>)"
| push_check:
    "push_pc s = P_loaded e i \<Longrightarrow> n = (i + 1) AND fifo_mask SIZE \<Longrightarrow> n \<noteq> fifo_out (ring s) \<Longrightarrow>
     spsc_step SIZE s (s\<lparr>push_pc := P_checked e i n\<rparr>)"
| push_write:
    "push_pc s = P_checked e i n \<Longrightarrow>
     spsc_step SIZE s (s\<lparr>push_pc := P_written e i n,
       ring := (ring s)\<lparr>fifo_buffer := (fifo_buffer (ring s))[unat i := e]\<rparr>\<rparr>)"
| push_store:
    "push_pc s = P_written e i n \<Longrightarrow>
     spsc_step SIZE s (s\<lparr>push_pc := P_idle, ring := (ring s)\<lparr>fifo_in := n\<rparr>,
       pushed := pushed s @ [e]\<rparr>)"
| pop_load_in:
    "pop_pc s = C_idle \<Longrightarrow>
     spsc_step SIZE s (s\<lparr>pop_pc := C_loaded_in (fifo_in (ring s))\<rparr>)"
| pop_load_out:
    "pop_pc s = C_loaded_in i \<Longrightarrow>
     spsc_step SIZE s (s\<lparr>pop_pc := C_loaded_out i (fifo_out (ring s))\<rparr>)"
| pop_empty:
    "pop_pc s = C_loaded_out i p \<Longrightarrow> i = p \<Longrightarrow>
     spsc_step SIZE s (s\<lparr>pop_pc := C_idle\<rparr>)"
| pop_read:
    "pop_pc s = C_loaded_out i p \<Longrightarrow> i \<noteq> p \<Longrightarrow>
     spsc_step SIZE s (s\<lparr>pop_pc := C_read (fifo_buffer (ring s) ! unat p) p\<rparr>)"
| pop_store:
    "pop_pc s = C_read v p \<Longrightarrow>
     spsc_step SIZE s (s\<lparr>pop_pc := C_idle,
       ring := (ring s)\<lparr>fifo_out := (p + 1) AND fifo_mask SIZE\<rparr>,
       popped := popped s @ [v]\<rparr>)"

inductive spsc_reachable :: "size_t \<Rightarrow> 'a \<Rightarrow> 'a spsc \<Rightarrow> bool" for SIZE d where
  spsc_start: "spsc_reachable SIZE d (spsc_init SIZE d)"
| spsc_next: "spsc_reachable SIZE d s \<Longrightarrow> spsc_step SIZE s t \<Longrightarrow> spsc_reachable SIZE d t"

inductive_cases spsc_stepE: "spsc_step SIZE s t"

section \<open>Invariant\<close>

definition push_pc_ok :: "size_t \<Rightarrow> 'a spsc \<Rightarrow> bool" where
  "push_pc_ok SIZE s = (let f = ring s; next_in = (fifo_in f + 1) AND fifo_mask SIZE in
     case push_pc s of
       P_idle \<Rightarrow> True
     | P_loaded e i \<Rightarrow> i = fifo_in f
     | P_checked e i n \<Rightarrow> i = fifo_in f \<and> n = next_in \<and> n \<noteq> fifo_out f
     | P_written e i n \<Rightarrow> i = fifo_in f \<and> n = next_in \<and> n \<noteq> fifo_out f
         \<and> fifo_buffer f ! unat i = e)"

text \<open>The consumer's copy of \<open>_in\<close> may be old; it never runs past the producer.\<close>

definition seen_in_ok :: "size_t \<Rightarrow> 'a fifo \<Rightarrow> size_t \<Rightarrow> bool" where
  "seen_in_ok SIZE f i \<longleftrightarrow> i < SIZE \<and>
     ring_count (unat SIZE) (unat i) (unat (fifo_out f))
       \<le> ring_count (unat SIZE) (unat (fifo_in f)) (unat (fifo_out f))"

definition pop_pc_ok :: "size_t \<Rightarrow> 'a spsc \<Rightarrow> bool" where
  "pop_pc_ok SIZE s = (let f = ring s in
     case pop_pc s of
       C_idle \<Rightarrow> True
     | C_loaded_in i \<Rightarrow> seen_in_ok SIZE f i
     | C_loaded_out i p \<Rightarrow> seen_in_ok SIZE f i \<and> p = fifo_out f
     | C_read v p \<Rightarrow> p = fifo_out f \<and> fifo_in f \<noteq> p \<and> v = fifo_buffer f ! unat p)"

definition spsc_inv :: "size_t \<Rightarrow> 'a spsc \<Rightarrow> bool" where
  "spsc_inv SIZE s \<longleftrightarrow> fifo_invar SIZE (ring s) \<and> push_pc_ok SIZE s \<and> pop_pc_ok SIZE s
     \<and> popped s @ fifo_list SIZE (ring s) = pushed s"

lemmas spsc_defs = spsc_inv_def push_pc_ok_def pop_pc_ok_def seen_in_ok_def
lemmas spsc_pc_splits = push_pc.splits pop_pc.splits

lemma spsc_inv_init: "fifo_static_assert SIZE \<Longrightarrow> spsc_inv SIZE (spsc_init SIZE d)"
  by (simp add: spsc_defs spsc_init_def fifo_new_invar fifo_new_list)

lemma fifo_invar_indices:
  assumes "fifo_invar SIZE f"
  shows "unat (fifo_in f) < unat SIZE" "unat (fifo_out f) < unat SIZE"
    "length (fifo_buffer f) = unat SIZE" "fifo_static_assert SIZE"
    "fifo_in f < SIZE" "fifo_out f < SIZE"
  using assms by (simp_all add: fifo_invar_def fifo_index_bounds)

text \<open>What the two stores do to the queue.\<close>

lemma fifo_list_store_in:
  assumes inv: "fifo_invar SIZE f" and ne: "(fifo_in f + 1) AND fifo_mask SIZE \<noteq> fifo_out f"
  shows "fifo_list SIZE (f\<lparr>fifo_in := (fifo_in f + 1) AND fifo_mask SIZE\<rparr>)
       = fifo_list SIZE f @ [fifo_buffer f ! unat (fifo_in f)]"
  using fifo_invar_indices [OF inv] ne
  by (simp add: fifo_list_def fifo_next_index fifo_next_index_eq_iff ring_list_advance_in)

lemma fifo_list_store_out:
  assumes inv: "fifo_invar SIZE f" and ne: "fifo_in f \<noteq> fifo_out f"
  shows "fifo_list SIZE f = fifo_buffer f ! unat (fifo_out f)
       # fifo_list SIZE (f\<lparr>fifo_out := (fifo_out f + 1) AND fifo_mask SIZE\<rparr>)"
  using fifo_invar_indices [OF inv] ne
  by (simp add: fifo_list_def fifo_next_index ring_list_advance_out [symmetric] word_unat_eq_iff)

lemma fifo_list_write:
  assumes "fifo_invar SIZE f"
  shows "fifo_list SIZE (f\<lparr>fifo_buffer := (fifo_buffer f)[unat (fifo_in f) := e]\<rparr>)
       = fifo_list SIZE f"
  using fifo_invar_indices [OF assms] by (simp add: fifo_list_def ring_list_write)

lemma seen_in_ok_refl: "fifo_invar SIZE f \<Longrightarrow> seen_in_ok SIZE f (fifo_in f)"
  by (simp add: seen_in_ok_def fifo_invar_def)

lemma seen_in_ok_store_in:
  assumes "fifo_invar SIZE f" "(fifo_in f + 1) AND fifo_mask SIZE \<noteq> fifo_out f"
    "seen_in_ok SIZE f i"
  shows "seen_in_ok SIZE (f\<lparr>fifo_in := (fifo_in f + 1) AND fifo_mask SIZE\<rparr>) i"
  using fifo_invar_indices [OF assms(1)] assms(2,3)
  by (simp add: seen_in_ok_def fifo_next_index fifo_next_index_eq_iff ring_count_Suc_in)

text \<open>A consumer that saw a different \<open>_in\<close> really has an element.\<close>

lemma seen_in_ok_nonempty:
  assumes "fifo_invar SIZE f" "seen_in_ok SIZE f i" "i \<noteq> fifo_out f"
  shows "fifo_in f \<noteq> fifo_out f"
proof
  assume "fifo_in f = fifo_out f"
  then have "ring_count (unat SIZE) (unat i) (unat (fifo_out f)) = 0"
    using assms(2) by (simp add: seen_in_ok_def ring_count_def)
  then have "unat i = unat (fifo_out f)"
    using fifo_invar_indices [OF assms(1)] assms(2)
    by (simp add: seen_in_ok_def fifo_index_bounds ring_count_zero)
  with assms(3) show False by (simp add: word_unat_eq_iff)
qed

section \<open>Every step keeps the invariant\<close>

lemma spsc_push_write_inv:
  assumes inv: "spsc_inv SIZE s" and pc: "push_pc s = P_checked e i n"
  shows "spsc_inv SIZE (s\<lparr>push_pc := P_written e i n,
    ring := (ring s)\<lparr>fifo_buffer := (fifo_buffer (ring s))[unat i := e]\<rparr>\<rparr>)"
proof -
  have f: "fifo_invar SIZE (ring s)" and i: "i = fifo_in (ring s)"
    using inv pc by (simp_all add: spsc_inv_def push_pc_ok_def Let_def)
  have "fifo_in (ring s) \<noteq> fifo_out (ring s) \<Longrightarrow>
      (fifo_buffer (ring s))[unat i := e] ! unat (fifo_out (ring s))
        = fifo_buffer (ring s) ! unat (fifo_out (ring s))"
    using i by (simp add: word_unat_eq_iff)
  then have "pop_pc_ok SIZE (s\<lparr>ring :=
      (ring s)\<lparr>fifo_buffer := (fifo_buffer (ring s))[unat i := e]\<rparr>\<rparr>)"
    using inv i by (auto simp: spsc_defs Let_def split: pop_pc.splits)
  then show ?thesis
    using inv pc f i fifo_invar_indices [OF f]
    by (auto simp: spsc_defs fifo_list_write fifo_invar_def Let_def split: pop_pc.splits)
qed

lemma spsc_push_store_inv:
  assumes inv: "spsc_inv SIZE s" and pc: "push_pc s = P_written e i n"
  shows "spsc_inv SIZE (s\<lparr>push_pc := P_idle, ring := (ring s)\<lparr>fifo_in := n\<rparr>,
    pushed := pushed s @ [e]\<rparr>)"
proof -
  let ?f = "ring s"
  have f: "fifo_invar SIZE ?f" and i: "i = fifo_in ?f"
    and n: "n = (fifo_in ?f + 1) AND fifo_mask SIZE" "n \<noteq> fifo_out ?f"
    and e: "fifo_buffer ?f ! unat (fifo_in ?f) = e"
    using inv pc by (auto simp: spsc_inv_def push_pc_ok_def Let_def)
  have list: "fifo_list SIZE (?f\<lparr>fifo_in := n\<rparr>) = fifo_list SIZE ?f @ [e]"
    using fifo_list_store_in [OF f] n e by simp
  have seen: "seen_in_ok SIZE ?f j \<Longrightarrow> seen_in_ok SIZE (?f\<lparr>fifo_in := n\<rparr>) j" for j
    using seen_in_ok_store_in [OF f] n by simp
  have f': "fifo_invar SIZE (?f\<lparr>fifo_in := n\<rparr>)"
    using f n fifo_next_index(2) fifo_invar_indices [OF f] by (simp add: fifo_invar_def)
  have "pop_pc_ok SIZE (s\<lparr>ring := ?f\<lparr>fifo_in := n\<rparr>\<rparr>)"
    using inv n(2) by (auto simp: spsc_inv_def pop_pc_ok_def Let_def seen split: pop_pc.splits)
  then show ?thesis
    using inv list f' by (auto simp: spsc_inv_def push_pc_ok_def pop_pc_ok_def Let_def)
qed

lemma spsc_pop_store_inv:
  assumes inv: "spsc_inv SIZE s" and pc: "pop_pc s = C_read v p"
  shows "spsc_inv SIZE (s\<lparr>pop_pc := C_idle,
    ring := (ring s)\<lparr>fifo_out := (p + 1) AND fifo_mask SIZE\<rparr>, popped := popped s @ [v]\<rparr>)"
proof -
  let ?f = "ring s" and ?q = "(p + 1) AND fifo_mask SIZE"
  have f: "fifo_invar SIZE ?f" and p: "p = fifo_out ?f" "fifo_in ?f \<noteq> p"
    and v: "v = fifo_buffer ?f ! unat p"
    using inv pc by (auto simp: spsc_inv_def pop_pc_ok_def Let_def)
  note ix = fifo_invar_indices [OF f]
  have list: "fifo_list SIZE ?f = v # fifo_list SIZE (?f\<lparr>fifo_out := ?q\<rparr>)"
    using fifo_list_store_out [OF f] p v by simp
  have f': "fifo_invar SIZE (?f\<lparr>fifo_out := ?q\<rparr>)"
    using f p fifo_next_index(2) ix by (simp add: fifo_invar_def)
  have "(fifo_in ?f + 1) AND fifo_mask SIZE \<noteq> ?q"
  proof
    assume "(fifo_in ?f + 1) AND fifo_mask SIZE = ?q"
    then have "Suc (unat (fifo_in ?f)) mod unat SIZE = Suc (unat (fifo_out ?f)) mod unat SIZE"
      using ix p(1) by (simp add: fifo_next_index_eq_iff fifo_next_index)
    then have "unat (fifo_in ?f) = unat (fifo_out ?f)"
      using ix(1,2) by (auto simp: Suc_mod_ring split: if_splits)
    with p show False by (simp add: word_unat_eq_iff)
  qed
  then have "push_pc_ok SIZE (s\<lparr>ring := ?f\<lparr>fifo_out := ?q\<rparr>\<rparr>)"
    using inv by (auto simp: spsc_inv_def push_pc_ok_def Let_def split: push_pc.splits)
  then show ?thesis
    using inv list f' by (auto simp: spsc_inv_def push_pc_ok_def pop_pc_ok_def Let_def)
qed

lemma spsc_step_inv:
  assumes "spsc_step SIZE s t" "spsc_inv SIZE s"
  shows "spsc_inv SIZE t"
  using assms
proof (cases rule: spsc_step.cases)
  case (push_load_in e)
  then show ?thesis using assms(2) by (auto simp: spsc_defs Let_def)
next
  case (push_full e i)
  then show ?thesis using assms(2) by (auto simp: spsc_defs Let_def)
next
  case (push_check e i n)
  then show ?thesis using assms(2) by (auto simp: spsc_defs Let_def)
next
  case (push_write e i n)
  then show ?thesis using spsc_push_write_inv [OF assms(2)] by simp
next
  case (push_store e i n)
  then show ?thesis using spsc_push_store_inv [OF assms(2)] by simp
next
  case pop_load_in
  then show ?thesis
    using assms(2) by (auto simp: spsc_inv_def push_pc_ok_def pop_pc_ok_def seen_in_ok_refl Let_def)
next
  case (pop_load_out i)
  then show ?thesis using assms(2) by (auto simp: spsc_defs Let_def)
next
  case (pop_empty i p)
  then show ?thesis using assms(2) by (auto simp: spsc_defs Let_def)
next
  case (pop_read i p)
  then show ?thesis
    using assms(2) seen_in_ok_nonempty [of SIZE "ring s" i]
    by (auto simp: spsc_inv_def push_pc_ok_def pop_pc_ok_def Let_def)
next
  case (pop_store v p)
  then show ?thesis using spsc_pop_store_inv [OF assms(2)] by simp
qed

lemma spsc_reachable_inv:
  "spsc_reachable SIZE d s \<Longrightarrow> fifo_static_assert SIZE \<Longrightarrow> spsc_inv SIZE s"
  by (induction rule: spsc_reachable.induct) (auto intro: spsc_inv_init spsc_step_inv)

section \<open>Properties\<close>

lemma spsc_step_refines_bounded_queue:
  assumes step: "spsc_step SIZE s t" and inv: "spsc_inv SIZE s"
  shows "spsc_abs SIZE t = spsc_abs SIZE s \<and> pushed t = pushed s \<and> popped t = popped s
     \<or> (\<exists>e. bq_push (unat SIZE - 1) e (spsc_abs SIZE s) = (True, spsc_abs SIZE t)
             \<and> pushed t = pushed s @ [e] \<and> popped t = popped s)
     \<or> (\<exists>v. spsc_abs SIZE s = v # spsc_abs SIZE t \<and> pushed t = pushed s \<and> popped t = popped s @ [v])"
proof -
  have inv': "spsc_inv SIZE t" by (rule spsc_step_inv [OF step inv])
  have eqs: "popped s @ spsc_abs SIZE s = pushed s" "popped t @ spsc_abs SIZE t = pushed t"
    using inv inv' by (simp_all add: spsc_inv_def spsc_abs_def)
  have cap: "length (spsc_abs SIZE t) \<le> unat SIZE - 1"
    using inv' fifo_list_capacity [of SIZE "ring t"] by (simp add: spsc_inv_def spsc_abs_def)
  from step consider
      "pushed t = pushed s \<and> popped t = popped s"
    | e where "pushed t = pushed s @ [e] \<and> popped t = popped s"
    | v where "pushed t = pushed s \<and> popped t = popped s @ [v]"
    by (cases rule: spsc_step.cases) auto
  then show ?thesis
  proof cases
    case 1
    with eqs have "spsc_abs SIZE t = spsc_abs SIZE s" by (metis append_same_eq same_append_eq)
    with 1 show ?thesis by blast
  next
    case 2
    with eqs have abs_t: "spsc_abs SIZE t = spsc_abs SIZE s @ [e]" by (metis append.assoc same_append_eq)
    then have "bq_push (unat SIZE - 1) e (spsc_abs SIZE s) = (True, spsc_abs SIZE t)"
      using cap by (simp add: bq_push_def)
    with 2 show ?thesis by blast
  next
    case 3
    with eqs have "spsc_abs SIZE s = v # spsc_abs SIZE t" by (metis append.assoc append_Cons append_Nil same_append_eq)
    with 3 show ?thesis by blast
  qed
qed

text \<open>
  C14. In every state that a producer and a consumer can reach by interleaving the atomic accesses
  of \<open>push\<close> and \<open>pop\<close>, the popped elements followed by the elements in the ring are exactly the
  pushed elements in order (nothing is lost, duplicated, reordered or torn), and the ring holds
  at most \<open>SIZE - 1\<close> of them.
\<close>

theorem spsc_no_loss:
  assumes "fifo_static_assert SIZE" and "spsc_reachable SIZE d s"
  shows "popped s @ fifo_list SIZE (ring s) = pushed s
       \<and> length (fifo_list SIZE (ring s)) \<le> unat SIZE - 1"
  using spsc_reachable_inv [OF assms(2,1)] fifo_list_capacity [of SIZE "ring s"]
  by (simp add: spsc_inv_def)

text \<open>A run in which the producer has stored one element.\<close>

lemma spsc_reachable_pushed_one:
  "\<exists>s. spsc_reachable 2 (0 :: int) s \<and> pushed s = [7] \<and> popped s = []
     \<and> push_pc s = P_idle \<and> fifo_in (ring s) = 1 \<and> fifo_out (ring s) = 0"
proof -
  let ?s0 = "spsc_init 2 (0 :: int)"
  let ?s1 = "?s0\<lparr>push_pc := P_loaded 7 (fifo_in (ring ?s0))\<rparr>"
  let ?s2 = "?s1\<lparr>push_pc := P_checked 7 0 1\<rparr>"
  let ?s3 = "?s2\<lparr>push_pc := P_written 7 0 1,
    ring := (ring ?s2)\<lparr>fifo_buffer := (fifo_buffer (ring ?s2))[unat (0 :: size_t) := 7]\<rparr>\<rparr>"
  let ?s4 = "?s3\<lparr>push_pc := P_idle, ring := (ring ?s3)\<lparr>fifo_in := 1\<rparr>,
    pushed := pushed ?s3 @ [7]\<rparr>"
  have "spsc_reachable 2 0 ?s1"
    by (rule spsc_next [OF spsc_start]) (rule push_load_in, simp add: spsc_init_def)
  then have "spsc_reachable 2 0 ?s2"
    by (rule spsc_next)
      (rule push_check, simp_all add: spsc_init_def fifo_new_def fifo_mask_def)
  then have "spsc_reachable 2 0 ?s3"
    by (rule spsc_next) (rule push_write, simp)
  then have "spsc_reachable 2 0 ?s4"
    by (rule spsc_next) (rule push_store, simp)
  moreover have "pushed ?s4 = [7]" "popped ?s4 = []" "push_pc ?s4 = P_idle"
      "fifo_in (ring ?s4) = 1" "fifo_out (ring ?s4) = 0"
    by (simp_all add: spsc_init_def fifo_new_def)
  ultimately show ?thesis by blast
qed

theorem spsc_no_loss_witness:
  "\<exists>s. spsc_reachable 2 (0 :: int) s \<and> fifo_list 2 (ring s) = [7]"
proof -
  obtain s where s: "spsc_reachable 2 (0 :: int) s" "pushed s = [7]" "popped s = []"
    using spsc_reachable_pushed_one by blast
  have "fifo_static_assert 2" by (simp add: fifo_static_assert_def)
  from spsc_no_loss [OF this s(1)] s show ?thesis by auto
qed



end
