(* ===== verification/IntrusiveQueue.thy ===== *)
theory IntrusiveQueue
  imports Prelude
begin

text \<open>
  The intrusive queue of \<open>uring_exec/detail.h\<close> (\<open>struct intrusive_queue\<close>): nodes are linked
  through a field of the node (\<open>Next\<close>), and one atomic head pointer is the queue.

  The heap \<open>nx\<close> maps a node's address to the value of its \<open>Next\<close> field; the null address ends
  a chain. \<open>seg nx p xs q\<close> says that following \<open>nx\<close> from \<open>p\<close> visits the nodes \<open>xs\<close> and
  arrives at \<open>q\<close>. The operations here are the calls without interference; the theory
  \<open>IntrusiveQueueConc\<close> has their compare-and-exchange loops with any number of threads.

  Loops over the chain are \<^theory_text>\<open>partial_function (option)\<close>: the value \<open>None\<close> stands for a
  loop that does not end or that dereferences the null pointer, and each operation is proved
  to return on every well-formed chain.
\<close>

type_synonym heap = "addr \<Rightarrow> addr"

section \<open>Chains\<close>

fun seg :: "heap \<Rightarrow> addr \<Rightarrow> addr list \<Rightarrow> addr \<Rightarrow> bool" where
  "seg nx p [] q \<longleftrightarrow> p = q"
| "seg nx p (a # as) q \<longleftrightarrow> p = a \<and> a \<noteq> null \<and> seg nx (nx a) as q"

abbreviation chain :: "heap \<Rightarrow> addr \<Rightarrow> addr list \<Rightarrow> bool" where
  "chain nx p xs \<equiv> seg nx p xs null"

lemma seg_append [simp]: "seg nx p (xs @ ys) q \<longleftrightarrow> (\<exists>r. seg nx p xs r \<and> seg nx r ys q)"
  by (induction xs arbitrary: p) auto

lemma seg_upd [simp]: "a \<notin> set xs \<Longrightarrow> seg (nx(a := v)) p xs q = seg nx p xs q"
  by (induction xs arbitrary: p) auto

lemma seg_cong: "(\<And>a. a \<in> set xs \<Longrightarrow> nx a = nx' a) \<Longrightarrow> seg nx p xs q = seg nx' p xs q"
  by (induction xs arbitrary: p) auto

lemma seg_nonnull: "seg nx p xs q \<Longrightarrow> null \<notin> set xs"
  by (induction xs arbitrary: p) auto

lemma chain_null [simp]: "chain nx null xs \<longleftrightarrow> xs = []"
  by (cases xs) auto

lemma chain_Cons_iff: "p \<noteq> null \<Longrightarrow> chain nx p xs \<longleftrightarrow> (\<exists>ys. xs = p # ys \<and> chain nx (nx p) ys)"
  by (cases xs) auto

lemma chain_unique: "chain nx p xs \<Longrightarrow> chain nx p ys \<Longrightarrow> xs = ys"
proof (induction xs arbitrary: p ys)
  case Nil
  then show ?case by simp
next
  case (Cons a xs)
  then show ?case by (cases ys) auto
qed

lemma chain_suffix_notin: "chain nx (nx a) xs \<Longrightarrow> a \<noteq> null \<Longrightarrow> a \<notin> set xs"
proof
  assume ch: "chain nx (nx a) xs" and a: "a \<noteq> null" "a \<in> set xs"
  then obtain ys zs where xs: "xs = ys @ a # zs" by (meson split_list)
  with ch have "chain nx (nx a) zs" by auto
  with ch have "xs = zs" by (rule chain_unique)
  with xs show False by (metis append_Cons append_eq_append_conv2 length_append
        length_Cons less_add_Suc2 not_less_iff_gr_or_eq)
qed

lemma chain_distinct: "chain nx p xs \<Longrightarrow> distinct xs"
  by (induction xs arbitrary: p) (auto dest: chain_suffix_notin)

lemma seg_hd: "seg nx p xs q \<Longrightarrow> xs \<noteq> [] \<Longrightarrow> p = hd xs"
  by (cases xs) auto

section \<open>Operations\<close>

text \<open>The state of an operation: the heap of \<open>Next\<close> fields and the queue's \<open>_head\<close>.\<close>

type_synonym iq = "heap \<times> addr"

definition iq_push :: "addr \<Rightarrow> iq \<Rightarrow> iq" where
  "iq_push op q = (let node = snd q in ((fst q)(op := node), op))"

definition iq_move_all :: "iq \<Rightarrow> addr \<times> iq" where
  "iq_move_all q = (snd q, (fst q, null))"

text \<open>The search loop of \<open>push_all\<close>: \<open>while(predicate(last->*Next)) last = last->*Next;\<close>\<close>

partial_function (option) push_all_last :: "(addr \<Rightarrow> bool) \<Rightarrow> heap \<Rightarrow> addr \<Rightarrow> addr option" where
  "push_all_last predicate nx lst =
     (if lst = null then None
      else if predicate (nx lst) then push_all_last predicate nx (nx lst)
      else Some lst)"

definition iq_push_all :: "addr \<Rightarrow> (addr \<Rightarrow> bool) \<Rightarrow> iq \<Rightarrow> iq option" where
  "iq_push_all first predicate q =
     (if \<not> predicate first then Some q
      else case push_all_last predicate (fst q) first of
        None \<Rightarrow> None
      | Some lst \<Rightarrow> (let node = snd q in Some ((fst q)(lst := node), first)))"

definition iq_next :: "heap \<Rightarrow> addr \<Rightarrow> addr" where
  "iq_next nx node = nx node"

definition iq_clear :: "addr \<Rightarrow> heap \<Rightarrow> heap" where
  "iq_clear node nx = nx(node := null)"

text \<open>The reversal loop of \<open>make_fifo\<close>, and the function itself. The sentinel node lives on the
  stack; its address is an argument.\<close>

partial_function (option) make_fifo_loop :: "heap \<Rightarrow> addr \<Rightarrow> addr \<Rightarrow> (heap \<times> addr) option" where
  "make_fifo_loop nx prev cur =
     (if cur = null then Some (nx, prev)
      else make_fifo_loop (nx(cur := prev)) cur (nx cur))"

definition make_fifo :: "addr \<Rightarrow> heap \<Rightarrow> addr \<Rightarrow> (heap \<times> addr) option" where
  "make_fifo sentinel nx node =
     (if node = null then Some (nx, null)
      else case make_fifo_loop (nx(sentinel := node)) sentinel node of
        None \<Rightarrow> None
      | Some (nx', prev) \<Rightarrow> Some (nx'(node := null), prev))"

section \<open>Functional correctness\<close>

lemma iq_push_chain:
  "chain nx head xs \<Longrightarrow> op \<noteq> null \<Longrightarrow> op \<notin> set xs \<Longrightarrow>
   iq_push op (nx, head) = (nx(op := head), op) \<and> chain (nx(op := head)) op (op # xs)"
  by (simp add: iq_push_def)

lemma make_fifo_loop_reverses:
  assumes "chain nx cur ys" "seg nx prev zs stop" "set ys \<inter> set zs = {}"
  shows "\<exists>nx' p. make_fifo_loop nx prev cur = Some (nx', p)
    \<and> seg nx' p (rev ys @ zs) stop \<and> (\<forall>a. a \<notin> set ys \<longrightarrow> nx' a = nx a)"
  using assms
proof (induction ys arbitrary: nx prev cur zs)
  case Nil
  then show ?case by (auto simp: make_fifo_loop.simps)
next
  case (Cons y ys)
  let ?nx = "nx(y := prev)"
  from Cons.prems have cur: "cur = y" "y \<noteq> null" and tail: "chain nx (nx y) ys" by auto
  then have "y \<notin> set ys" by (auto dest: chain_suffix_notin)
  with tail Cons.prems cur have "chain ?nx (nx y) ys" "seg ?nx y (y # zs) stop"
    "set ys \<inter> set (y # zs) = {}"
    by auto
  from Cons.IH [OF this] obtain nx' p where
    "make_fifo_loop ?nx y (nx y) = Some (nx', p)"
    "seg nx' p (rev ys @ y # zs) stop" "\<forall>a. a \<notin> set ys \<longrightarrow> nx' a = ?nx a"
    by blast
  with cur show ?case by (auto simp: make_fifo_loop.simps [of nx prev y])
qed

lemma make_fifo_correct:
  assumes "chain nx node xs" "sentinel \<noteq> null" "sentinel \<notin> set xs"
  shows "\<exists>nx' p. make_fifo sentinel nx node = Some (nx', p) \<and> chain nx' p (rev xs)
    \<and> (\<forall>a. a \<notin> set xs \<and> a \<noteq> sentinel \<longrightarrow> nx' a = nx a)"
proof (cases xs)
  case Nil
  with assms show ?thesis by (auto simp: make_fifo_def)
next
  case (Cons y ys)
  let ?nx = "nx(sentinel := node)"
  have node: "node = y" "node \<noteq> null" using assms(1) Cons by auto
  have "chain ?nx node xs" "seg ?nx sentinel [sentinel] node" "set xs \<inter> set [sentinel] = {}"
    using assms by auto
  from make_fifo_loop_reverses [OF this] obtain nx' p where
    loop: "make_fifo_loop ?nx sentinel node = Some (nx', p)" and
    s: "seg nx' p (rev xs @ [sentinel]) node" and
    frame: "\<forall>a. a \<notin> set xs \<longrightarrow> nx' a = ?nx a"
    by blast
  from s Cons node have "seg nx' p (rev ys) y"
    by auto
  moreover have "y \<notin> set (rev ys)"
    using chain_distinct [OF assms(1)] Cons by simp
  ultimately have "chain (nx'(node := null)) p (rev xs)"
    using Cons node by simp
  with loop frame node Cons show ?thesis by (auto simp: make_fifo_def)
qed

text \<open>\<open>push_all\<close> splices the longest prefix that satisfies the predicate in front of the queue.\<close>

lemma push_all_last_takeWhile:
  assumes "chain nx first xs" "xs \<noteq> []" "\<not> predicate null"
  shows "push_all_last predicate nx first
       = Some (last (hd xs # takeWhile predicate (tl xs)))"
  using assms
proof (induction xs arbitrary: first)
  case (Cons x xs)
  show ?case
  proof (cases xs)
    case Nil
    with Cons.prems show ?thesis by (simp add: push_all_last.simps)
  next
    case (Cons y ys)
    with Cons.prems have y: "nx x = y" "chain nx y xs" by auto
    from Cons.IH [OF y(2)] Cons Cons.prems(3)
    have "push_all_last predicate nx y = Some (last (hd xs # takeWhile predicate (tl xs)))"
      by simp
    with Cons y Cons.prems show ?thesis
      by (auto simp: push_all_last.simps [of predicate nx x])
  qed
qed simp

lemma seg_butlast_last:
  "seg nx p xs q \<Longrightarrow> xs \<noteq> [] \<Longrightarrow> seg nx p (butlast xs) (last xs) \<and> nx (last xs) = q"
  by (induction xs arbitrary: p) auto

lemma seg_link:
  assumes "seg nx p xs q" "xs \<noteq> []" "distinct xs"
  shows "seg (nx(last xs := r)) p xs r"
proof -
  have split: "xs = butlast xs @ [last xs]" using assms(2) by simp
  have "last xs \<notin> set (butlast xs)"
    using assms(2,3) by (metis distinct_append not_distinct_conv_prefix split)
  with seg_butlast_last [OF assms(1,2)]
  have "seg (nx(last xs := r)) p (butlast xs) (last xs)" by simp
  moreover have "last xs \<noteq> null"
    using seg_nonnull [OF assms(1)] assms(2) by (metis last_in_set)
  ultimately have "seg (nx(last xs := r)) p (butlast xs @ [last xs]) r" by auto
  then show ?thesis using split by simp
qed

lemma push_all_correct:
  assumes first: "chain nx first xs" and head: "chain nx head ys"
    and disj: "set xs \<inter> set ys = {}" and nn: "\<not> predicate null"
  shows "\<exists>nx' p. iq_push_all first predicate (nx, head) = Some (nx', p)
    \<and> chain nx' p (takeWhile predicate xs @ ys)
    \<and> (\<forall>a. a \<notin> set (takeWhile predicate xs) \<longrightarrow> nx' a = nx a)"
proof (cases "takeWhile predicate xs = []")
  case True
  then have "\<not> predicate first"
    using first nn by (cases xs) (auto split: if_splits)
  with True head show ?thesis by (auto simp: iq_push_all_def)
next
  case False
  let ?ws = "takeWhile predicate xs"
  from False obtain x xs' where xs: "xs = x # xs'" "predicate x"
    by (cases xs) (auto split: if_splits)
  then have ws: "?ws = hd xs # takeWhile predicate (tl xs)" by simp
  obtain r where seg_ws: "seg nx first ?ws r"
    using first by (metis seg_append takeWhile_dropWhile_id)
  have "distinct ?ws" using chain_distinct [OF first] by (simp add: distinct_takeWhile)
  with seg_ws False have "seg (nx(last ?ws := head)) first ?ws head" by (simp add: seg_link)
  moreover have "last ?ws \<notin> set ys"
    using disj False by (meson disjoint_iff last_in_set set_takeWhileD)
  ultimately have "chain (nx(last ?ws := head)) first (?ws @ ys)"
    using head by auto
  moreover have "push_all_last predicate nx first = Some (last ?ws)"
    unfolding ws by (rule push_all_last_takeWhile [where predicate = predicate, OF first _ nn]) (simp add: xs)
  moreover have "predicate first" using first xs by simp
  ultimately show ?thesis
    using False by (auto simp: iq_push_all_def)
qed

lemma push_all_nonnull_id:
  assumes "chain nx first xs" "chain nx head ys" "set xs \<inter> set ys = {}"
  shows "\<exists>nx' p. iq_push_all first (\<lambda>node. node \<noteq> null) (nx, head) = Some (nx', p)
    \<and> chain nx' p (xs @ ys) \<and> (\<forall>a. a \<notin> set xs \<longrightarrow> nx' a = nx a)"
proof -
  have "takeWhile (\<lambda>node. node \<noteq> null) xs = xs"
    using seg_nonnull [OF assms(1)] by (auto simp: takeWhile_eq_all_conv)
  with push_all_correct [OF assms, of "\<lambda>node. node \<noteq> null"] show ?thesis by metis
qed

section \<open>The queue as an interface\<close>

text \<open>
  What the schedulers rely on: pushing puts an element in front, and taking everything hands over
  exactly what was pushed since, last first.
\<close>

locale take_all_queue =
  fixes holds :: "'q \<Rightarrow> 'a list \<Rightarrow> bool"
    and pushable :: "'a \<Rightarrow> bool"
    and push :: "'a \<Rightarrow> 'q \<Rightarrow> 'q"
    and take_all :: "'q \<Rightarrow> 'a list \<times> 'q"
  assumes push_holds: "holds q xs \<Longrightarrow> pushable x \<Longrightarrow> x \<notin> set xs \<Longrightarrow> holds (push x q) (x # xs)"
    and take_all_holds: "holds q xs \<Longrightarrow> \<exists>q'. take_all q = (xs, q') \<and> holds q' []"
begin

lemma pushes_hold:
  assumes "holds q xs" "\<forall>y \<in> set ys. pushable y" "distinct ys" "set ys \<inter> set xs = {}"
  shows "holds (fold push ys q) (rev ys @ xs)"
  using assms
proof (induction ys arbitrary: q xs)
  case Nil
  then show ?case by simp
next
  case (Cons y ys)
  then have "holds (push y q) (y # xs)" by (simp add: push_holds)
  from Cons.IH [OF this] Cons.prems show ?case by simp
qed

lemma pushes_then_take_all:
  assumes "holds q []" "\<forall>y \<in> set ys. pushable y" "distinct ys"
  shows "fst (take_all (fold push ys q)) = rev ys"
  using take_all_holds [OF pushes_hold [OF assms(1-3)]] by auto

end

text \<open>The nodes of a chain in order, as \<open>next\<close> walks over them.\<close>

partial_function (option) iq_nodes :: "heap \<Rightarrow> addr \<Rightarrow> addr list option" where
  "iq_nodes nx p =
     (if p = null then Some []
      else Option.bind (iq_nodes nx (nx p)) (\<lambda>xs. Some (p # xs)))"

lemma iq_nodes_chain: "chain nx p xs \<Longrightarrow> iq_nodes nx p = Some xs"
  by (induction xs arbitrary: p) (auto simp: iq_nodes.simps)

definition iq_take_nodes :: "iq \<Rightarrow> addr list \<times> iq" where
  "iq_take_nodes q = (the (iq_nodes (fst q) (fst (iq_move_all q))), snd (iq_move_all q))"

interpretation intrusive: take_all_queue "\<lambda>q. chain (fst q) (snd q)" "\<lambda>a. a \<noteq> null"
    iq_push iq_take_nodes
proof unfold_locales
  fix q :: iq and xs x
  assume ch: "chain (fst q) (snd q) xs"
  show "x \<noteq> null \<Longrightarrow> x \<notin> set xs \<Longrightarrow> chain (fst (iq_push x q)) (snd (iq_push x q)) (x # xs)"
    using ch by (simp add: iq_push_def)
  show "\<exists>q'. iq_take_nodes q = (xs, q') \<and> chain (fst q') (snd q') []"
    using iq_nodes_chain [OF ch] by (simp add: iq_take_nodes_def iq_move_all_def)
qed

section \<open>Properties\<close>

text \<open>
  C18. On every well-formed chain \<open>make_fifo\<close> returns (its loop ends without touching a null
  pointer), reverses the chain in place and changes no other node but its stack sentinel; so the
  sequence push, \<open>move_all\<close>, \<open>make_fifo\<close> visits the nodes in the order in which they were pushed.
\<close>

theorem make_fifo_restores_push_order:
  assumes "chain nx null []" and "\<forall>y \<in> set ys. y \<noteq> null" and "distinct ys"
    and "sentinel \<noteq> null" and "sentinel \<notin> set ys"
  shows "\<exists>nx1 first nx2 p. iq_move_all (fold iq_push ys (nx, null)) = (first, (nx1, null))
    \<and> make_fifo sentinel nx1 first = Some (nx2, p) \<and> chain nx2 p ys
    \<and> (\<forall>a. a \<notin> set ys \<and> a \<noteq> sentinel \<longrightarrow> nx2 a = nx1 a)"
proof -
  let ?q = "fold iq_push ys (nx, null)"
  have "chain (fst ?q) (snd ?q) (rev ys)"
    using intrusive.pushes_hold [of "(nx, null)" "[]" ys] assms by simp
  from make_fifo_correct [OF this, of sentinel] assms show ?thesis
    by (auto simp: iq_move_all_def)
qed

theorem make_fifo_restores_push_order_witness:
  "\<exists>nx1 first nx2 p. iq_move_all (fold iq_push [16, 32, 48] (\<lambda>_. null, null)) = (first, (nx1, null))
    \<and> make_fifo 8 nx1 first = Some (nx2, p) \<and> chain nx2 p [16, 32, 48]"
  using make_fifo_restores_push_order [of "\<lambda>_. null" "[16, 32, 48]" 8] by auto

text \<open>
  C19. \<open>push_all(first, predicate)\<close> returns on every well-formed chain and puts exactly its longest
  prefix that satisfies the predicate in front of the queue, in the same order, relinking nothing
  but the last node of that prefix; when the first node fails the predicate it changes nothing.
\<close>

theorem push_all_splices_prefix:
  assumes "chain nx first xs" and "chain nx hd_ptr ys" and "set xs \<inter> set ys = {}"
    and "\<not> predicate null"
  shows "\<exists>nx' p. iq_push_all first predicate (nx, hd_ptr) = Some (nx', p)
    \<and> chain nx' p (takeWhile predicate xs @ ys)
    \<and> (\<forall>a. a \<notin> set (takeWhile predicate xs) \<longrightarrow> nx' a = nx a)
    \<and> (takeWhile predicate xs = [] \<longrightarrow> (nx', p) = (nx, hd_ptr))"
proof -
  from push_all_correct [where predicate = predicate, OF assms] obtain nx' p where
    r: "iq_push_all first predicate (nx, hd_ptr) = Some (nx', p)"
    "chain nx' p (takeWhile predicate xs @ ys)"
    "\<forall>a. a \<notin> set (takeWhile predicate xs) \<longrightarrow> nx' a = nx a"
    by blast
  have "(nx', p) = (nx, hd_ptr)" if "takeWhile predicate xs = []"
  proof -
    have "\<not> predicate first" using that assms(1,4) by (cases xs) (auto split: if_splits)
    with r(1) show ?thesis by (simp add: iq_push_all_def)
  qed
  with r show ?thesis by blast
qed

theorem push_all_splices_prefix_witness:
  "\<exists>nx' p. iq_push_all 16 (\<lambda>a. a \<noteq> null \<and> a \<noteq> 48)
        ((\<lambda>_. null)(16 := 32, 32 := 48, 48 := 64), 80) = Some (nx', p)
    \<and> chain nx' p [16, 32, 80]"
proof -
  let ?nx = "(\<lambda>_. null)(16 := 32, 32 := 48, 48 := 64) :: heap"
  have "chain ?nx 16 [16, 32, 48, 64]" "chain ?nx 80 [80]" by simp_all
  from push_all_splices_prefix [OF this, of "\<lambda>a. a \<noteq> null \<and> a \<noteq> 48"] show ?thesis by auto
qed

end
