(* ===== verification/IntrusiveQueueConc.thy ===== *)
theory IntrusiveQueueConc
  imports IntrusiveQueue "HOL-Library.Multiset"
begin

text \<open>
  The lock-free side of \<open>intrusive_queue\<close> (\<open>uring_exec/detail.h\<close>): any number of threads run
  \<open>push\<close>, \<open>push_all\<close> and \<open>move_all\<close> on one queue, and their loads, stores and
  compare-and-exchanges interleave (sequentially consistently). A weak compare-and-exchange may
  fail for no reason, and reloads the head when it fails.

  Nodes change hands: a node is in the queue (\<open>owner\<close> is \<open>None\<close>) or belongs to a thread, which
  may relink it while it is not publishing. A thread publishes only nodes it owns and owns what it
  took. A head that was taken and pushed again between a thread's load and its
  compare-and-exchange (the ABA situation) is allowed, and the theorems hold in spite of it.
\<close>

section \<open>States and steps\<close>

text \<open>
  Where a thread stands. \<open>Q_publish zs node\<close>: inside the loop of \<open>push\<close>/\<open>push_all\<close> for the chain
  \<open>zs\<close> (one node for \<open>push\<close>), with \<open>node\<close> the value of the head it read; \<open>Q_linked\<close>: the
  last node's \<open>Next\<close> has been written; \<open>Q_take\<close>: inside the loop of \<open>move_all\<close>.
\<close>

datatype iq_pc =
    Q_idle
  | Q_publish "addr list" addr
  | Q_linked "addr list" addr
  | Q_take addr

record iq_conc =
  links :: heap
  head :: addr
  pcs :: "tid \<Rightarrow> iq_pc"
  owner :: "addr \<Rightarrow> tid option"
  published :: "addr multiset"
  taken :: "addr multiset"

definition iq_init :: "heap \<Rightarrow> (addr \<Rightarrow> tid) \<Rightarrow> iq_conc" where
  "iq_init nx own = \<lparr>links = nx, head = null, pcs = (\<lambda>_. Q_idle), owner = (\<lambda>a. Some (own a)),
     published = {#}, taken = {#}\<rparr>"

inductive iq_step :: "iq_conc \<Rightarrow> iq_conc \<Rightarrow> bool" where
  publish_load:
    "pcs s t = Q_idle \<Longrightarrow> zs \<noteq> [] \<Longrightarrow> distinct zs \<Longrightarrow> (\<forall>a \<in> set zs. owner s a = Some t) \<Longrightarrow>
     null \<notin> set zs \<Longrightarrow> seg (links s) (hd zs) (butlast zs) (last zs) \<Longrightarrow>
     iq_step s (s\<lparr>pcs := (pcs s)(t := Q_publish zs (head s))\<rparr>)"
| publish_link:
    "pcs s t = Q_publish zs node \<Longrightarrow>
     iq_step s (s\<lparr>pcs := (pcs s)(t := Q_linked zs node), links := (links s)(last zs := node)\<rparr>)"
| publish_cas_ok:
    "pcs s t = Q_linked zs node \<Longrightarrow> head s = node \<Longrightarrow>
     iq_step s (s\<lparr>pcs := (pcs s)(t := Q_idle), head := hd zs,
       owner := (\<lambda>a. if a \<in> set zs then None else owner s a),
       published := published s + mset zs\<rparr>)"
| publish_cas_fail:
    "pcs s t = Q_linked zs node \<Longrightarrow>
     iq_step s (s\<lparr>pcs := (pcs s)(t := Q_publish zs (head s))\<rparr>)"
| take_load:
    "pcs s t = Q_idle \<Longrightarrow>
     iq_step s (s\<lparr>pcs := (pcs s)(t := Q_take (head s))\<rparr>)"
| take_cas_ok:
    "pcs s t = Q_take node \<Longrightarrow> head s = node \<Longrightarrow> chain (links s) node xs \<Longrightarrow>
     iq_step s (s\<lparr>pcs := (pcs s)(t := Q_idle), head := null,
       owner := (\<lambda>a. if a \<in> set xs then Some t else owner s a),
       taken := taken s + mset xs\<rparr>)"
| take_cas_fail:
    "pcs s t = Q_take node \<Longrightarrow>
     iq_step s (s\<lparr>pcs := (pcs s)(t := Q_take (head s))\<rparr>)"
| relink:
    "pcs s t = Q_idle \<Longrightarrow> owner s a = Some t \<Longrightarrow>
     iq_step s (s\<lparr>links := (links s)(a := v)\<rparr>)"

inductive iq_reachable :: "iq_conc \<Rightarrow> iq_conc \<Rightarrow> bool" for s0 where
  iq_start: "iq_reachable s0 s0"
| iq_next: "iq_reachable s0 s \<Longrightarrow> iq_step s u \<Longrightarrow> iq_reachable s0 u"

section \<open>Invariant\<close>

definition publishing_ok :: "iq_conc \<Rightarrow> tid \<Rightarrow> addr list \<Rightarrow> bool" where
  "publishing_ok s t zs \<longleftrightarrow> zs \<noteq> [] \<and> distinct zs \<and> (\<forall>a \<in> set zs. owner s a = Some t)
     \<and> null \<notin> set zs \<and> seg (links s) (hd zs) (butlast zs) (last zs)"

definition iq_pc_ok :: "iq_conc \<Rightarrow> tid \<Rightarrow> bool" where
  "iq_pc_ok s t = (case pcs s t of
       Q_idle \<Rightarrow> True
     | Q_publish zs node \<Rightarrow> publishing_ok s t zs
     | Q_linked zs node \<Rightarrow> publishing_ok s t zs \<and> links s (last zs) = node
     | Q_take node \<Rightarrow> True)"

definition iq_holds :: "iq_conc \<Rightarrow> addr list \<Rightarrow> bool" where
  "iq_holds s xs \<longleftrightarrow> chain (links s) (head s) xs \<and> (\<forall>a \<in> set xs. owner s a = None)
     \<and> (\<forall>t. iq_pc_ok s t) \<and> published s = taken s + mset xs"

lemmas iq_defs = iq_holds_def iq_pc_ok_def publishing_ok_def

lemma iq_init_holds: "iq_holds (iq_init nx own) []"
  by (simp add: iq_defs iq_init_def)

lemma iq_pc_ok_mono:
  assumes "iq_pc_ok s t" "pcs s' t = pcs s t" "links s' = links s"
    and "\<And>a. owner s a = Some t \<Longrightarrow> owner s' a = Some t"
  shows "iq_pc_ok s' t"
  using assms by (cases "pcs s t") (auto simp: iq_pc_ok_def publishing_ok_def)

lemma iq_holds_publishing:
  "iq_holds s xs \<Longrightarrow> pcs s t = Q_publish zs node \<Longrightarrow> publishing_ok s t zs"
  "iq_holds s xs \<Longrightarrow> pcs s t = Q_linked zs node \<Longrightarrow>
     publishing_ok s t zs \<and> links s (last zs) = node"
proof -
  assume "iq_holds s xs"
  then have ok: "iq_pc_ok s t" by (simp add: iq_holds_def)
  show "pcs s t = Q_publish zs node \<Longrightarrow> publishing_ok s t zs"
    using ok by (simp add: iq_pc_ok_def)
  show "pcs s t = Q_linked zs node \<Longrightarrow> publishing_ok s t zs \<and> links s (last zs) = node"
    using ok by (simp add: iq_pc_ok_def)
qed

text \<open>Writing a node one owns leaves alone the queue and what the other threads publish.\<close>

lemma publishing_ok_frame:
  assumes "publishing_ok s t zs" "owner s a = Some t'" "t' \<noteq> t"
  shows "publishing_ok (s\<lparr>links := (links s)(a := v)\<rparr>) t zs"
    and "((links s)(a := v)) (last zs) = links s (last zs)"
proof -
  have a: "a \<notin> set zs" using assms unfolding publishing_ok_def by auto
  then have "a \<notin> set (butlast zs)" by (auto dest: in_set_butlastD)
  with assms(1) show "publishing_ok (s\<lparr>links := (links s)(a := v)\<rparr>) t zs"
    by (simp add: publishing_ok_def)
  from a assms(1) show "((links s)(a := v)) (last zs) = links s (last zs)"
    by (auto simp: publishing_ok_def)
qed

lemma iq_pc_ok_frame:
  assumes "iq_pc_ok s t" "owner s a = Some t'" "t' \<noteq> t"
  shows "iq_pc_ok (s\<lparr>links := (links s)(a := v)\<rparr>) t"
proof (cases "pcs s t")
  case (Q_publish zs node)
  with assms publishing_ok_frame(1) [OF _ assms(2,3)] show ?thesis by (simp add: iq_pc_ok_def)
next
  case (Q_linked zs node)
  with assms publishing_ok_frame [OF _ assms(2,3)] show ?thesis
    by (auto simp: iq_pc_ok_def)
qed (simp_all add: iq_pc_ok_def)

lemma only_pc_holds:
  assumes "iq_holds s xs" "iq_pc_ok (s\<lparr>pcs := (pcs s)(t := c)\<rparr>) t"
  shows "iq_holds (s\<lparr>pcs := (pcs s)(t := c)\<rparr>) xs"
proof -
  have "iq_pc_ok (s\<lparr>pcs := (pcs s)(t := c)\<rparr>) t'" for t'
    using assms iq_pc_ok_mono [of s t' "s\<lparr>pcs := (pcs s)(t := c)\<rparr>"]
    by (cases "t' = t") (auto simp: iq_holds_def)
  with assms(1) show ?thesis by (simp add: iq_holds_def)
qed

lemma last_notin_butlast: "distinct zs \<Longrightarrow> zs \<noteq> [] \<Longrightarrow> last zs \<notin> set (butlast zs)"
  by (induction zs rule: rev_induct) auto

lemma publish_link_holds:
  assumes h: "iq_holds s xs" and pc: "pcs s t = Q_publish zs node"
  shows "iq_holds (s\<lparr>pcs := (pcs s)(t := Q_linked zs node),
    links := (links s)(last zs := node)\<rparr>) xs" (is "iq_holds ?u _")
proof -
  let ?s = "s\<lparr>links := (links s)(last zs := node)\<rparr>"
  have ok: "publishing_ok s t zs" by (rule iq_holds_publishing(1) [OF h pc])
  then have own: "owner s (last zs) = Some t" and nb: "last zs \<notin> set (butlast zs)"
    by (auto simp: publishing_ok_def last_notin_butlast)
  have "last zs \<notin> set xs" using h own by (auto simp: iq_holds_def)
  then have queue: "chain (links ?s) (head s) xs" using h by (simp add: iq_holds_def)
  have others: "iq_pc_ok ?s t'" if "t' \<noteq> t" for t'
    using h own that by (intro iq_pc_ok_frame) (auto simp: iq_holds_def)
  have this_one: "publishing_ok ?s t zs"
    using ok nb by (simp add: publishing_ok_def)
  have "iq_pc_ok ?u t'" for t'
  proof (cases "t' = t")
    case True
    with this_one show ?thesis by (simp add: iq_pc_ok_def publishing_ok_def)
  next
    case False
    show ?thesis by (rule iq_pc_ok_mono [OF others [OF False]]) (simp_all add: False)
  qed
  with queue h show ?thesis by (simp add: iq_holds_def)
qed

lemma publish_cas_ok_holds:
  assumes h: "iq_holds s xs" and pc: "pcs s t = Q_linked zs (head s)"
  shows "iq_holds (s\<lparr>pcs := (pcs s)(t := Q_idle), head := hd zs,
    owner := (\<lambda>a. if a \<in> set zs then None else owner s a),
    published := published s + mset zs\<rparr>) (zs @ xs)" (is "iq_holds ?s _")
proof -
  have ok: "publishing_ok s t zs" and link: "links s (last zs) = head s"
    using iq_holds_publishing(2) [OF h pc] by auto
  from ok have "last zs \<noteq> null" unfolding publishing_ok_def by (metis last_in_set)
  with ok link have "seg (links s) (hd zs) (butlast zs @ [last zs]) (head s)"
    by (auto simp: publishing_ok_def simp del: append_butlast_last_id)
  moreover have "butlast zs @ [last zs] = zs" using ok by (simp add: publishing_ok_def)
  ultimately have "seg (links s) (hd zs) zs (head s)" by (simp only:)
  then have queue: "chain (links s) (hd zs) (zs @ xs)" using h by (auto simp: iq_holds_def)
  have "iq_pc_ok ?s t'" for t'
  proof (cases "t' = t")
    case True
    then show ?thesis by (simp add: iq_pc_ok_def)
  next
    case False
    have "iq_pc_ok s t'" using h by (simp add: iq_holds_def)
    then show ?thesis
      by (rule iq_pc_ok_mono) (use False ok in \<open>auto simp: publishing_ok_def\<close>)
  qed
  with queue h show ?thesis by (auto simp: iq_holds_def)
qed

lemma take_cas_ok_holds:
  assumes h: "iq_holds s xs"
  shows "iq_holds (s\<lparr>pcs := (pcs s)(t := Q_idle), head := null,
    owner := (\<lambda>a. if a \<in> set xs then Some t else owner s a),
    taken := taken s + mset xs\<rparr>) []" (is "iq_holds ?s _")
proof -
  have "iq_pc_ok ?s t'" for t'
  proof (cases "t' = t")
    case True
    then show ?thesis by (simp add: iq_pc_ok_def)
  next
    case False
    have "iq_pc_ok s t'" using h by (simp add: iq_holds_def)
    then show ?thesis
      by (rule iq_pc_ok_mono) (use False h in \<open>auto simp: iq_holds_def\<close>)
  qed
  with h show ?thesis by (simp add: iq_holds_def)
qed

lemma relink_holds:
  assumes h: "iq_holds s xs" and pc: "pcs s t = Q_idle" and own: "owner s a = Some t"
  shows "iq_holds (s\<lparr>links := (links s)(a := v)\<rparr>) xs"
proof -
  have "iq_pc_ok (s\<lparr>links := (links s)(a := v)\<rparr>) t'" for t'
    using h pc own iq_pc_ok_frame [OF _ own]
    by (cases "t' = t") (auto simp: iq_holds_def iq_pc_ok_def [of _ t])
  moreover have "a \<notin> set xs" using h own by (auto simp: iq_holds_def)
  ultimately show ?thesis using h by (simp add: iq_holds_def)
qed

section \<open>Simulation by an abstract stack\<close>

text \<open>
  One step of the threads is no step of the stack, one push of a whole chain in front, or one
  removal of everything.
\<close>

lemma iq_step_simulates:
  assumes step: "iq_step s u" and h: "iq_holds s xs"
  shows "iq_holds u xs \<and> published u = published s \<and> taken u = taken s
     \<or> (\<exists>zs. iq_holds u (zs @ xs) \<and> published u = published s + mset zs \<and> taken u = taken s)
     \<or> iq_holds u [] \<and> published u = published s \<and> taken u = taken s + mset xs"
  using step
proof (cases rule: iq_step.cases)
  case (publish_load t zs)
  then have "iq_holds u xs" using h by (auto intro!: only_pc_holds simp: iq_pc_ok_def publishing_ok_def)
  with publish_load show ?thesis by simp
next
  case (publish_link t zs node)
  then have "iq_holds u xs" using publish_link_holds [OF h] by simp
  with publish_link show ?thesis by simp
next
  case (publish_cas_ok t zs node)
  then have "iq_holds u (zs @ xs)" using publish_cas_ok_holds [OF h, of t zs] by simp
  with publish_cas_ok show ?thesis by auto
next
  case (publish_cas_fail t zs node)
  have "iq_pc_ok s t" using h by (simp add: iq_holds_def)
  then have "iq_holds u xs"
    using publish_cas_fail h by (auto intro!: only_pc_holds simp: iq_pc_ok_def publishing_ok_def)
  with publish_cas_fail show ?thesis by simp
next
  case (take_load t)
  then have "iq_holds u xs" using h by (auto intro!: only_pc_holds simp: iq_pc_ok_def)
  with take_load show ?thesis by simp
next
  case (take_cas_ok t node ys)
  then have "ys = xs" using h chain_unique by (auto simp: iq_holds_def)
  then have "iq_holds u []" using take_cas_ok take_cas_ok_holds [OF h, of t] by simp
  with take_cas_ok \<open>ys = xs\<close> show ?thesis by simp
next
  case (take_cas_fail t node)
  then have "iq_holds u xs" using h by (auto intro!: only_pc_holds simp: iq_pc_ok_def)
  with take_cas_fail show ?thesis by simp
next
  case (relink t a v)
  then have "iq_holds u xs" using relink_holds [OF h] by simp
  with relink show ?thesis by simp
qed

lemma iq_reachable_holds: "iq_reachable (iq_init nx own) s \<Longrightarrow> \<exists>xs. iq_holds s xs"
proof (induction rule: iq_reachable.induct)
  case iq_start
  show ?case using iq_init_holds by blast
next
  case (iq_next s u)
  then show ?case using iq_step_simulates by blast
qed

section \<open>Properties\<close>

text \<open>
  C16. Whatever the interleaving of any number of pushing and taking threads, spurious failures of
  the compare-and-exchange and reuse of nodes included, the head always starts a finite acyclic
  chain of nodes that no thread owns, and every node published has been taken exactly once or is
  still in that chain.
\<close>

theorem intrusive_queue_no_loss:
  assumes "iq_reachable (iq_init nx own) s"
  shows "\<exists>xs. chain (links s) (head s) xs \<and> distinct xs \<and> (\<forall>a \<in> set xs. owner s a = None)
    \<and> published s = taken s + mset xs"
proof -
  obtain xs where "iq_holds s xs" using iq_reachable_holds [OF assms] by blast
  then show ?thesis using chain_distinct by (auto simp: iq_holds_def)
qed

text \<open>A thread that pushes node 16 onto the empty queue.\<close>

lemma iq_reachable_one:
  "\<exists>s. iq_reachable (iq_init (\<lambda>_. null) (\<lambda>_. 0)) s \<and> head s = 16 \<and> links s 16 = null
     \<and> pcs s 1 = Q_idle \<and> published s = {#16#} \<and> taken s = {#}"
proof -
  let ?s0 = "iq_init (\<lambda>_. null) (\<lambda>_. 0)"
  let ?s1 = "?s0\<lparr>pcs := (pcs ?s0)(0 := Q_publish [16] (head ?s0))\<rparr>"
  let ?s2 = "?s1\<lparr>pcs := (pcs ?s1)(0 := Q_linked [16] null),
    links := (links ?s1)(last [16] := null)\<rparr>"
  let ?s3 = "?s2\<lparr>pcs := (pcs ?s2)(0 := Q_idle), head := hd [16],
    owner := (\<lambda>a. if a \<in> set [16] then None else owner ?s2 a),
    published := published ?s2 + mset [16]\<rparr>"
  have "iq_reachable ?s0 ?s1"
    by (rule iq_next [OF iq_start]) (rule publish_load, simp_all add: iq_init_def)
  then have "iq_reachable ?s0 ?s2"
    by (rule iq_next) (rule publish_link, simp add: iq_init_def)
  then have "iq_reachable ?s0 ?s3"
    by (rule iq_next) (rule publish_cas_ok, simp_all add: iq_init_def)
  moreover have "head ?s3 = 16 \<and> links ?s3 16 = null \<and> pcs ?s3 1 = Q_idle
      \<and> published ?s3 = {#16#} \<and> taken ?s3 = {#}"
    by (simp add: iq_init_def)
  ultimately show ?thesis by blast
qed

theorem intrusive_queue_no_loss_witness:
  "\<exists>s. iq_reachable (iq_init (\<lambda>_. null) (\<lambda>_. 0)) s \<and> chain (links s) (head s) [16]"
proof -
  obtain s where s: "iq_reachable (iq_init (\<lambda>_. null) (\<lambda>_. 0)) s"
    "published s = {#16#}" "taken s = {#}"
    using iq_reachable_one by blast
  from intrusive_queue_no_loss [OF s(1)] s(2,3) obtain xs where
    xs: "chain (links s) (head s) xs" "{#16#} = mset xs"
    by auto
  from xs(2) have "xs = [16]" by (metis mset_single_iff_right)
  with s(1) xs(1) show ?thesis by blast
qed

text \<open>
  C17. Every atomic access of the concurrent queue is, on the stack of nodes that the head stands
  for, either invisible, or one push of a whole chain in front of it (one node for \<open>push\<close>), or
  one removal of all of it by a single thread, which takes exactly the nodes that were there:
  \<open>push\<close>, \<open>push_all\<close> and \<open>move_all\<close> are linearizable.
\<close>

theorem intrusive_queue_linearizable:
  assumes "iq_reachable (iq_init nx own) s" and "iq_step s u" and "chain (links s) (head s) xs"
  shows "\<exists>ys. chain (links u) (head u) ys \<and>
     (ys = xs \<and> published u = published s \<and> taken u = taken s
      \<or> (\<exists>zs. ys = zs @ xs \<and> published u = published s + mset zs \<and> taken u = taken s)
      \<or> ys = [] \<and> published u = published s \<and> taken u = taken s + mset xs)"
proof -
  obtain xs' where "iq_holds s xs'" using iq_reachable_holds [OF assms(1)] by blast
  moreover from this have "xs' = xs" using assms(3) chain_unique by (auto simp: iq_holds_def)
  ultimately have "iq_holds s xs" by simp
  from iq_step_simulates [OF assms(2) this] show ?thesis unfolding iq_holds_def by blast
qed

theorem intrusive_queue_linearizable_witness:
  "\<exists>s u. iq_reachable (iq_init (\<lambda>_. null) (\<lambda>_. 0)) s \<and> iq_step s u
     \<and> chain (links s) (head s) [16] \<and> (\<exists>ys. chain (links u) (head u) ys)"
proof -
  obtain s where s: "iq_reachable (iq_init (\<lambda>_. null) (\<lambda>_. 0)) s" "head s = 16"
    "links s 16 = null" "pcs s 1 = Q_idle"
    using iq_reachable_one by blast
  let ?u = "s\<lparr>pcs := (pcs s)(1 := Q_take (head s))\<rparr>"
  have step: "iq_step s ?u" using s(4) by (rule take_load)
  have ch: "chain (links s) (head s) [16]" using s by simp
  from intrusive_queue_linearizable [OF s(1) step ch] s(1) step ch show ?thesis by blast
qed

end
