(* ===== verification/Utils.thy ===== *)
theory Utils
  imports Prelude
begin

text \<open>
  The helpers of the two \<open>utils.h\<close> (\<open>include/utils.h\<close> and \<open>uring_exec/utils.h\<close>): \<open>check\<close>,
  \<open>nofail\<close>, \<open>defer\<close>, \<open>make_server\<close>, \<open>signal_blocker\<close>, and the bucket of \<open>multi_lock\<close>
  (\<open>uring_exec/detail.h\<close>).

  System calls are a function \<open>sys\<close> from the calls made so far and the new call to its result, so
  that a definition yields the trace of calls with its outcome. Signal masks are sets.
\<close>

section \<open>check and nofail\<close>

definition check :: "int \<Rightarrow> unit result" where
  "check cond = (if cond = 0 then Inr () else Inl Terminated)"

text \<open>\<open>ret | nofail(reason)\<close> with \<open>INT_ASYNC_CHECK\<close>: \<open>errno\<close> after it, and the value, or the
  end of the process. \<open>cmp\<close> is \<open>Comp{}(ret, 0)\<close>.\<close>

definition nofail :: "(int \<Rightarrow> bool) \<Rightarrow> int \<Rightarrow> int \<Rightarrow> int \<times> int result" where
  "nofail cmp ret errno =
     (if cmp ret then (if ret \<noteq> - 1 then - ret else errno, Inl Terminated)
      else (errno, Inr ret))"

definition nofail_less :: "int \<Rightarrow> int \<Rightarrow> int \<times> int result" where
  "nofail_less ret errno = nofail (\<lambda>r. r < 0) ret errno"

definition nofail_less_equal :: "int \<Rightarrow> int \<Rightarrow> int \<times> int result" where
  "nofail_less_equal ret errno = nofail (\<lambda>r. r \<le> 0) ret errno"

lemma nofail_less_value: "snd (nofail_less ret e) = Inr r \<longleftrightarrow> 0 \<le> ret \<and> r = ret"
  by (auto simp: nofail_less_def nofail_def)

section \<open>defer\<close>

text \<open>The guard object: armed until it is moved from or its destructor (or \<open>reset()\<close>) has run \<open>func\<close>.\<close>

type_synonym 's guard = "('s \<Rightarrow> 's) option"

definition defer_guard :: "('s \<Rightarrow> 's) \<Rightarrow> 's guard" where
  "defer_guard func = Some func"

definition guard_move :: "'s guard \<Rightarrow> 's guard \<times> 's guard" where
  "guard_move g = (None, g)"

definition guard_reset :: "'s guard \<Rightarrow> 's \<Rightarrow> 's guard \<times> 's" where
  "guard_reset g s = (None, case g of None \<Rightarrow> s | Some func \<Rightarrow> func s)"

text \<open>However it is moved and reset, the function runs exactly once.\<close>

lemma guard_runs_once:
  assumes "guard_reset (defer_guard func) s = (g, s')"
  shows "s' = func s \<and> guard_reset g s' = (None, s')
    \<and> guard_reset (fst (guard_move (defer_guard func))) s = (None, s)
    \<and> guard_reset (snd (guard_move (defer_guard func))) s = (None, func s)"
  using assms by (auto simp: guard_reset_def defer_guard_def guard_move_def)

section \<open>make_server\<close>

datatype sys_call =
    Socket bool
  | Setsockopt_reuseaddr int
  | Setsockopt_reuseport int
  | Bind int u16
  | Listen int int

record make_server_option =
  port :: u16
  backlog :: int
  nonblock :: bool
  reuseaddr :: bool
  reuseport :: bool

definition default_server_option :: make_server_option where
  "default_server_option = \<lparr>port = 8848, backlog = 128, nonblock = False, reuseaddr = True,
     reuseport = False\<rparr>"

text \<open>One call with \<open>nofail\<close>, and a sequence of them.\<close>

definition sys_nofail :: "(sys_call list \<Rightarrow> sys_call \<Rightarrow> int) \<Rightarrow> sys_call \<Rightarrow> sys_call list
    \<Rightarrow> sys_call list \<times> int result" where
  "sys_nofail sys c tr = (tr @ [c], snd (nofail_less (sys tr c) 0))"

fun sys_all :: "(sys_call list \<Rightarrow> sys_call \<Rightarrow> int) \<Rightarrow> sys_call list \<Rightarrow> sys_call list
    \<Rightarrow> sys_call list \<times> unit result" where
  "sys_all sys [] tr = (tr, Inr ())"
| "sys_all sys (c # cs) tr = (case sys_nofail sys c tr of
       (tr1, Inl e) \<Rightarrow> (tr1, Inl e)
     | (tr1, Inr _) \<Rightarrow> sys_all sys cs tr1)"

definition server_calls :: "(u16 \<Rightarrow> u16) \<Rightarrow> make_server_option \<Rightarrow> int \<Rightarrow> sys_call list" where
  "server_calls htons option fd =
     (if reuseaddr option then [Setsockopt_reuseaddr fd] else [])
     @ (if reuseport option then [Setsockopt_reuseport fd] else [])
     @ [Bind fd (htons (port option)), Listen fd (backlog option)]"

definition make_server :: "(sys_call list \<Rightarrow> sys_call \<Rightarrow> int) \<Rightarrow> (u16 \<Rightarrow> u16) \<Rightarrow> make_server_option
    \<Rightarrow> sys_call list \<times> int result" where
  "make_server sys htons option = (case sys_nofail sys (Socket (nonblock option)) [] of
       (tr, Inl e) \<Rightarrow> (tr, Inl e)
     | (tr, Inr fd) \<Rightarrow> (case sys_all sys (server_calls htons option fd) tr of
           (tr1, Inl e) \<Rightarrow> (tr1, Inl e)
         | (tr1, Inr _) \<Rightarrow> (tr1, Inr fd)))"

lemma sys_all_prefix:
  "sys_all sys cs tr = (tr', r) \<Longrightarrow>
   (\<exists>k. tr' = tr @ take k cs) \<and> (r = Inr () \<longrightarrow> tr' = tr @ cs)"
proof (induction cs arbitrary: tr)
  case Nil
  then show ?case by simp
next
  case (Cons c cs)
  show ?case
  proof (cases "0 \<le> sys tr c")
    case True
    with Cons.prems have "sys_all sys cs (tr @ [c]) = (tr', r)"
      by (simp add: sys_nofail_def nofail_less_def nofail_def)
    from Cons.IH [OF this] obtain k where k: "tr' = (tr @ [c]) @ take k cs"
      "r = Inr () \<longrightarrow> tr' = (tr @ [c]) @ cs" by blast
    have "tr' = tr @ take (Suc k) (c # cs)" using k(1) by simp
    moreover have "r = Inr () \<longrightarrow> tr' = tr @ c # cs" using k(2) by simp
    ultimately show ?thesis by blast
  next
    case False
    with Cons.prems have "tr' = tr @ take 1 (c # cs)" "r \<noteq> Inr ()"
      by (auto simp: sys_nofail_def nofail_less_def nofail_def)
    then show ?thesis by blast
  qed
qed

text \<open>The socket calls come in order: socket, the options, bind, listen. A failing call ends the
  sequence, and a descriptor is returned only when all were made.\<close>

lemma make_server_order:
  assumes "make_server sys htons option = (tr, r)"
  shows "(\<exists>k. tr = take k (Socket (nonblock option)
           # server_calls htons option (sys [] (Socket (nonblock option)))))
    \<and> (\<forall>fd. r = Inr fd \<longrightarrow> fd = sys [] (Socket (nonblock option)) \<and> 0 \<le> fd
         \<and> tr = Socket (nonblock option) # server_calls htons option fd)"
proof (cases "0 \<le> sys [] (Socket (nonblock option))")
  case True
  let ?s = "Socket (nonblock option)" let ?fd = "sys [] ?s"
  obtain tr1 r1 where all: "sys_all sys (server_calls htons option ?fd) [?s] = (tr1, r1)" by force
  from sys_all_prefix [OF this] obtain k where k: "tr1 = [?s] @ take k (server_calls htons option ?fd)"
    "r1 = Inr () \<longrightarrow> tr1 = [?s] @ server_calls htons option ?fd" by blast
  have "tr = tr1" "\<forall>fd. r = Inr fd \<longrightarrow> fd = ?fd \<and> r1 = Inr ()"
    using assms True all by (auto simp: make_server_def sys_nofail_def nofail_less_def nofail_def
        split: sum.splits)
  moreover have "tr1 = take (Suc k) (?s # server_calls htons option ?fd)" using k(1) by simp
  moreover have "r1 = Inr () \<longrightarrow> tr1 = ?s # server_calls htons option ?fd"
    using k(2) by (simp only: append_Cons append_Nil)
  ultimately have "tr = take (Suc k) (?s # server_calls htons option ?fd)"
    "\<forall>fd. r = Inr fd \<longrightarrow> fd = ?fd \<and> tr = ?s # server_calls htons option ?fd"
    by blast+
  with True show ?thesis by blast
next
  case False
  with assms have "tr = take 1 [Socket (nonblock option)]" "\<forall>fd. r \<noteq> Inr fd"
    by (auto simp: make_server_def sys_nofail_def nofail_less_def nofail_def)
  then show ?thesis by (intro conjI exI [of _ 1]) auto
qed

section \<open>signal_blocker\<close>

text \<open>\<open>all\<close> is the full set of \<open>sigfillset\<close>.\<close>

definition signal_mask :: "int set \<Rightarrow> bool \<Rightarrow> int list \<Rightarrow> int set" where
  "signal_mask all exclusive sigs =
     (let init_fill = (sigs = [] \<or> exclusive);
          init = (if init_fill then all else {})
      in if exclusive then fold (\<lambda>sig m. m - {sig}) sigs init
         else fold insert sigs init)"

text \<open>The thread's mask after construction, and the guard that restores the old mask.\<close>

definition signal_blocker :: "int set \<Rightarrow> bool \<Rightarrow> int list \<Rightarrow> int set \<Rightarrow> int set \<times> int set guard" where
  "signal_blocker all exclusive sigs old_mask =
     (old_mask \<union> signal_mask all exclusive sigs, defer_guard (\<lambda>_. old_mask))"

lemma signal_mask_eq:
  "signal_mask all False [] = all" "sigs \<noteq> [] \<Longrightarrow> signal_mask all False sigs = set sigs"
  "signal_mask all True sigs = all - set sigs"
proof -
  have "fold (\<lambda>sig m. m - {sig}) sigs m = m - set sigs" for m
    by (induction sigs arbitrary: m) auto
  then show "signal_mask all True sigs = all - set sigs" by (simp add: signal_mask_def)
  have "fold insert sigs m = m \<union> set sigs" for m :: "int set"
    by (induction sigs arbitrary: m) auto
  then show "sigs \<noteq> [] \<Longrightarrow> signal_mask all False sigs = set sigs" by (simp add: signal_mask_def)
  show "signal_mask all False [] = all" by (simp add: signal_mask_def)
qed

text \<open>While the guard lives everything that was blocked stays blocked, and its end restores the mask.\<close>

lemma signal_blocker_restores:
  assumes "signal_blocker all exclusive sigs old = (mask', g)"
  shows "old \<subseteq> mask' \<and> signal_mask all exclusive sigs \<subseteq> mask' \<and> snd (guard_reset g mask') = old"
  using assms by (auto simp: signal_blocker_def guard_reset_def defer_guard_def)

section \<open>multi_lock\<close>

text \<open>The lock of an object: its address without the alignment bits, modulo the number of locks.\<close>

definition multi_lock_index :: "size_t \<Rightarrow> size_t \<Rightarrow> addr \<Rightarrow> nat" where
  "multi_lock_index alignof n_way stable_object = unat (stable_object div alignof mod n_way)"

text \<open>Unlike the buckets of the intrusive map, neighbouring objects get different locks.\<close>

lemma multi_lock_index_neighbours:
  "unat a + 8 < 2 ^ 64 \<Longrightarrow> 8 dvd unat a \<Longrightarrow> multi_lock_index 8 4 (a + 8) = (multi_lock_index 8 4 a + 1) mod 4"
proof -
  assume lt: "unat a + 8 < 2 ^ 64" and "8 dvd unat a"
  then obtain k where k: "unat a = 8 * k" by blast
  have "unat (a + 8) = unat a + 8" using lt by (simp add: unat_word_ariths)
  with k have "unat (a + 8) div 8 = k + 1" by simp
  with k show ?thesis
    by (simp add: multi_lock_index_def unat_div unat_mod mod_Suc_eq)
qed

end
