(* ===== verification/MultiLock.thy ===== *)
theory MultiLock
  imports Utils
begin

text \<open>
  \<open>multi_lock\<close> (\<open>uring_exec/detail.h\<close>) with any number of threads: a fast guard holds the mutex of its
  object, a slow guard all of them. \<open>std::scoped_lock\<close> takes its mutexes in any order, one at a time, and
  may give back those it has and try again.
\<close>

section \<open>Guards\<close>

datatype ml_guard = No_guard | Fast nat | Locking "nat set" | Slow

record multi_lock =
  ml_owner :: "nat \<Rightarrow> tid option"
  ml_guard_of :: "tid \<Rightarrow> ml_guard"

definition ml_init :: multi_lock where
  "ml_init = \<lparr>ml_owner = (\<lambda>_. None), ml_guard_of = (\<lambda>_. No_guard)\<rparr>"

definition ml_set :: "tid \<Rightarrow> ml_guard \<Rightarrow> multi_lock \<Rightarrow> multi_lock" where
  "ml_set t g s = s\<lparr>ml_guard_of := (ml_guard_of s)(t := g)\<rparr>"

definition ml_unlock :: "nat set \<Rightarrow> multi_lock \<Rightarrow> multi_lock" where
  "ml_unlock ns s = s\<lparr>ml_owner := (\<lambda>i. if i \<in> ns then None else ml_owner s i)\<rparr>"

text \<open>\<open>n\<close> mutexes, and objects with alignment \<open>alignof\<close>.\<close>

inductive ml_step :: "size_t \<Rightarrow> size_t \<Rightarrow> multi_lock \<Rightarrow> multi_lock \<Rightarrow> bool" for alignof n where
  fastpath_guard: "ml_guard_of s t = No_guard \<Longrightarrow> i = multi_lock_index alignof n stable_object \<Longrightarrow> ml_owner s i = None \<Longrightarrow>
    ml_step alignof n s (ml_set t (Fast i) (s\<lparr>ml_owner := (ml_owner s)(i \<mapsto> t)\<rparr>))"
| slowpath_guard: "ml_guard_of s t = No_guard \<Longrightarrow> ml_step alignof n s (ml_set t (Locking {}) s)"
| lock_one: "ml_guard_of s t = Locking ns \<Longrightarrow> i < unat n \<Longrightarrow> ml_owner s i = None \<Longrightarrow>
    ml_step alignof n s (ml_set t (Locking (insert i ns)) (s\<lparr>ml_owner := (ml_owner s)(i \<mapsto> t)\<rparr>))"
| back_off: "ml_guard_of s t = Locking ns \<Longrightarrow> ml_step alignof n s (ml_set t (Locking {}) (ml_unlock ns s))"
| locked_all: "ml_guard_of s t = Locking {..<unat n} \<Longrightarrow> ml_step alignof n s (ml_set t Slow s)"
| release_fast: "ml_guard_of s t = Fast i \<Longrightarrow> ml_step alignof n s (ml_set t No_guard (ml_unlock {i} s))"
| release_slow: "ml_guard_of s t = Slow \<Longrightarrow> ml_step alignof n s (ml_set t No_guard (ml_unlock {..<unat n} s))"

section \<open>Mutual exclusion\<close>

fun ml_held :: "size_t \<Rightarrow> ml_guard \<Rightarrow> nat set" where
  "ml_held n No_guard = {}"
| "ml_held n (Fast i) = {i}"
| "ml_held n (Locking ns) = ns"
| "ml_held n Slow = {..<unat n}"

definition ml_inv :: "size_t \<Rightarrow> multi_lock \<Rightarrow> bool" where
  "ml_inv n s \<longleftrightarrow> (\<forall>i t. i \<in> ml_held n (ml_guard_of s t) \<longleftrightarrow> ml_owner s i = Some t)
     \<and> (\<forall>t. ml_held n (ml_guard_of s t) \<subseteq> {..<unat n})"

lemma multi_lock_index_less: "n \<noteq> 0 \<Longrightarrow> multi_lock_index alignof n stable_object < unat n"
  by (simp add: multi_lock_index_def unat_mod unat_gt_0)

lemma ml_inv_acquire:
  assumes "ml_inv n s" "i < unat n" "ml_owner s i = None" "ml_held n g = insert i (ml_held n (ml_guard_of s t))"
  shows "ml_inv n (ml_set t g (s\<lparr>ml_owner := (ml_owner s)(i \<mapsto> t)\<rparr>))"
  using assms by (simp add: ml_inv_def ml_set_def)

lemma ml_inv_release:
  assumes "ml_inv n s" "ns \<subseteq> ml_held n (ml_guard_of s t)" "ml_held n g = ml_held n (ml_guard_of s t) - ns"
  shows "ml_inv n (ml_set t g (ml_unlock ns s))"
proof -
  have "ml_owner s i = Some t" if "i \<in> ns" for i using assms(1,2) that unfolding ml_inv_def by blast
  with assms show ?thesis by (auto simp: ml_inv_def ml_set_def ml_unlock_def)
qed

lemma ml_inv_same: "ml_inv n s \<Longrightarrow> ml_held n g = ml_held n (ml_guard_of s t) \<Longrightarrow> ml_inv n (ml_set t g s)"
  by (simp add: ml_inv_def ml_set_def)

lemma ml_inv_step:
  assumes "ml_step alignof n s s'" "n \<noteq> 0" "ml_inv n s" shows "ml_inv n s'"
  using assms(1)
proof cases
  case (fastpath_guard t i stable_object)
  with assms(3) multi_lock_index_less [OF assms(2)] show ?thesis by (auto intro: ml_inv_acquire)
next
  case (back_off t ns)
  with assms(3) show ?thesis by (auto intro: ml_inv_release)
next
  case (release_fast t i)
  with assms(3) show ?thesis by (auto intro: ml_inv_release)
next
  case (release_slow t)
  with assms(3) show ?thesis by (auto intro: ml_inv_release)
qed (use assms(3) in \<open>auto intro: ml_inv_acquire ml_inv_same\<close>)

lemma ml_inv_reachable:
  assumes "(ml_step alignof n)\<^sup>*\<^sup>* ml_init s" "n \<noteq> 0" shows "ml_inv n s"
  using assms(1)
proof (induction rule: rtranclp_induct)
  case base
  then show ?case by (simp add: ml_inv_def ml_init_def)
next
  case (step s s')
  then show ?case using ml_inv_step assms(2) by blast
qed

text \<open>
  Under any interleaving, two fast guards on the same mutex belong to the same thread, and while a
  slow guard is held no other thread holds any mutex.
\<close>

theorem multi_lock_exclusive:
  assumes "(ml_step alignof n)\<^sup>*\<^sup>* ml_init s" and "n \<noteq> 0"
  shows "(ml_guard_of s t = Fast i \<and> ml_guard_of s t' = Fast i \<longrightarrow> t = t')
    \<and> (ml_guard_of s t = Slow \<and> t \<noteq> t' \<longrightarrow> ml_held n (ml_guard_of s t') = {})"
proof -
  have inv: "ml_inv n s" by (rule ml_inv_reachable [OF assms])
  have one: "i \<in> ml_held n (ml_guard_of s t) \<Longrightarrow> i \<in> ml_held n (ml_guard_of s t') \<Longrightarrow> t = t'" for i t t'
    using inv unfolding ml_inv_def by (metis option.inject)
  have "ml_held n (ml_guard_of s t') = {}" if "ml_guard_of s t = Slow" "t \<noteq> t'"
  proof (rule ccontr)
    assume "ml_held n (ml_guard_of s t') \<noteq> {}"
    then obtain i where i: "i \<in> ml_held n (ml_guard_of s t')" by blast
    then have "i \<in> ml_held n (ml_guard_of s t)" using inv that(1) by (auto simp: ml_inv_def)
    with one i that(2) show False by blast
  qed
  moreover have "t = t'" if "ml_guard_of s t = Fast i" "ml_guard_of s t' = Fast i" using one [of i t t'] that by simp
  ultimately show ?thesis by blast
qed

theorem multi_lock_exclusive_witness:
  "(ml_step 8 4)\<^sup>*\<^sup>* ml_init (ml_set 0 (Fast 0) (ml_init\<lparr>ml_owner := (ml_owner ml_init)(0 \<mapsto> 0)\<rparr>))
   \<and> ml_guard_of (ml_set 0 (Fast 0) (ml_init\<lparr>ml_owner := (ml_owner ml_init)(0 \<mapsto> 0)\<rparr>)) 1 \<noteq> Fast 0"
proof -
  let ?s = "ml_set 0 (Fast 0) (ml_init\<lparr>ml_owner := (ml_owner ml_init)(0 \<mapsto> 0)\<rparr>)"
  have "ml_step 8 4 ml_init ?s"
    by (rule ml_step.fastpath_guard [where stable_object = 0]) (simp_all add: ml_init_def multi_lock_index_def)
  then have run: "(ml_step 8 4)\<^sup>*\<^sup>* ml_init ?s" by blast
  from multi_lock_exclusive [OF run, of 0 0 1] run show ?thesis by (auto simp: ml_set_def ml_init_def)
qed

end
