(* ===== verification/AsyncOp.thy ===== *)
theory AsyncOp
  imports Prelude
begin

text \<open>
  The awaitable operations of the coroutine library: \<open>Async_user_data\<close> and \<open>Async_operation\<close>
  (\<open>include/coroutine.h\<close>).

  The state \<open>aio\<close> holds what these objects share with the ring: the submission entries the code
  fills in, the completion entries it reads, the \<open>user_data\<close> objects by address, and \<open>kern\<close>, the
  part that belongs to liburing and the kernel. What liburing does with \<open>kern\<close> is not part of
  the sources, so \<open>io_uring_get_sqe\<close>, \<open>io_uring_submit\<close> and the \<open>io_uring_prep_*\<close> functions are
  arguments of the definitions; so are the flag values of the kernel interface (\<open>uapi\<close>).
\<close>

section \<open>Memory shared with the ring\<close>

text \<open>Coroutine handles: the null handle, \<open>std::noop_coroutine()\<close>, or a coroutine frame.\<close>

datatype handle = Null_handle | Noop | Coro nat

text \<open>A submission entry: the fields this code writes itself, and \<open>sqe_body\<close> for what the
  \<open>io_uring_prep_*\<close> function wrote.\<close>

record 'p sqe =
  sqe_flags :: u8
  sqe_user_data :: addr
  sqe_buf_group :: u16
  sqe_body :: 'p

record cqe =
  cqe_user_data :: addr
  cqe_res :: int
  cqe_flags :: u32

text \<open>\<open>uring\<close>, \<open>sqe\<close> and \<open>cqe\<close> are pointers; \<open>null\<close> when absent.\<close>

record async_user_data =
  ud_uring :: addr
  ud_sqe :: addr
  ud_cqe :: addr
  ud_h :: handle

record ('p, 'k) aio =
  sq :: "addr \<Rightarrow> 'p sqe"
  cq :: "addr \<Rightarrow> cqe"
  uds :: "addr \<Rightarrow> async_user_data option"
  kern :: 'k

text \<open>The constants of the kernel interface that the sources use by name.\<close>

record uapi =
  IOSQE_IO_DRAIN :: u8
  IOSQE_IO_LINK :: u8
  IOSQE_IO_HARDLINK :: u8
  IOSQE_BUFFER_SELECT :: u8
  IOSQE_CQE_SKIP_SUCCESS :: u8
  IORING_CQE_F_BUFFER :: u32
  IORING_CQE_F_MORE :: u32
  IORING_CQE_BUFFER_SHIFT :: nat

section \<open>Accessors that may fault\<close>

definition get_ud :: "addr \<Rightarrow> ('p, 'k, 'z) aio_scheme \<Rightarrow> async_user_data result" where
  "get_ud self s = (case uds s self of None \<Rightarrow> Inl Dangling | Some ud \<Rightarrow> Inr ud)"

definition put_ud :: "addr \<Rightarrow> async_user_data \<Rightarrow> ('p, 'k, 'z) aio_scheme \<Rightarrow> ('p, 'k, 'z) aio_scheme" where
  "put_ud self ud s = s\<lparr>uds := (uds s)(self \<mapsto> ud)\<rparr>"

text \<open>A write through an SQE pointer.\<close>

definition upd_sqe :: "addr \<Rightarrow> ('p sqe \<Rightarrow> 'p sqe) \<Rightarrow> ('p, 'k, 'z) aio_scheme
    \<Rightarrow> ('p, 'k, 'z) aio_scheme result" where
  "upd_sqe e f s = (if e = null then Inl Null_deref
     else Inr (s\<lparr>sq := (sq s)(e := f (sq s e))\<rparr>))"

definition io_uring_sqe_set_data :: "addr \<Rightarrow> 'p sqe \<Rightarrow> 'p sqe" where
  "io_uring_sqe_set_data data e = e\<lparr>sqe_user_data := data\<rparr>"

definition or_flags :: "u8 \<Rightarrow> 'p sqe \<Rightarrow> 'p sqe" where
  "or_flags bits e = e\<lparr>sqe_flags := sqe_flags e OR bits\<rparr>"

section \<open>Async_operation\<close>

text \<open>The constructor, for the object at address \<open>self\<close>. \<open>prep\<close> is \<open>uring_prep_fn\<close> applied to its
  arguments.\<close>

definition async_operation :: "('k \<Rightarrow> addr \<times> 'k) \<Rightarrow> ('p sqe \<Rightarrow> 'p sqe) \<Rightarrow> addr \<Rightarrow> addr
    \<Rightarrow> ('p, 'k, 'z) aio_scheme \<Rightarrow> ('p, 'k, 'z) aio_scheme" where
  "async_operation io_uring_get_sqe prep uring self s =
     (let (e, k) = io_uring_get_sqe (kern s);
          s1 = put_ud self \<lparr>ud_uring = uring, ud_sqe = e, ud_cqe = null, ud_h = Noop\<rparr>
                 (s\<lparr>kern := k\<rparr>)
      in if e \<noteq> null
         then s1\<lparr>sq := (sq s1)(e := io_uring_sqe_set_data self (prep (sq s1 e)))\<rparr>
         else s1)"

definition await_ready :: "addr \<Rightarrow> ('p, 'k, 'z) aio_scheme \<Rightarrow> bool result" where
  "await_ready self s = and_then (get_ud self s)
     (\<lambda>ud. if ud_sqe ud \<noteq> null \<and> ud_cqe ud = null then Inr False else Inr True)"

definition await_suspend :: "handle \<Rightarrow> addr \<Rightarrow> ('p, 'k, 'z) aio_scheme
    \<Rightarrow> ('p, 'k, 'z) aio_scheme result" where
  "await_suspend h self s = and_then (get_ud self s)
     (\<lambda>ud. Inr (put_ud self (ud\<lparr>ud_h := h\<rparr>) s))"

definition await_resume :: "addr \<Rightarrow> ('p, 'k, 'z) aio_scheme \<Rightarrow> int result" where
  "await_resume self s = and_then (get_ud self s)
     (\<lambda>ud. if ud_sqe ud = null then Inr (- ENOMEM)
           else if ud_cqe ud = null then Inl Null_deref
           else Inr (cqe_res (cq s (ud_cqe ud))))"

text \<open>What the event loop does with one completion before it resumes the handle:
  \<open>user_data->cqe = cqe\<close>.\<close>

definition deliver :: "addr \<Rightarrow> ('p, 'k, 'z) aio_scheme \<Rightarrow> (handle \<times> ('p, 'k, 'z) aio_scheme) result" where
  "deliver c s = (let self = cqe_user_data (cq s c) in
     and_then (get_ud self s)
       (\<lambda>ud. Inr (ud_h ud, put_ud self (ud\<lparr>ud_cqe := c\<rparr>) s)))"

lemmas aio_defs = get_ud_def put_ud_def upd_sqe_def io_uring_sqe_set_data_def or_flags_def
  await_ready_def await_suspend_def await_resume_def deliver_def async_operation_def

section \<open>Properties\<close>

text \<open>A concrete state for the witnesses: blank submission entries, no operation yet, and
  completion entries that all carry the given \<open>user_data\<close> and result.\<close>

definition sample_aio :: "addr \<Rightarrow> int \<Rightarrow> (unit, unit) aio" where
  "sample_aio data res =
     \<lparr>sq = (\<lambda>_. \<lparr>sqe_flags = 0, sqe_user_data = 0, sqe_buf_group = 0, sqe_body = ()\<rparr>),
      cq = (\<lambda>_. \<lparr>cqe_user_data = data, cqe_res = res, cqe_flags = 0\<rparr>),
      uds = (\<lambda>_. None), kern = ()\<rparr>"

text \<open>
  An operation for which no submission entry is left completes at once with \<open>-ENOMEM\<close>:
  constructing it touches no entry, it is ready without suspension, and resuming it returns
  \<open>-ENOMEM\<close> without dereferencing the null entry.
\<close>

theorem async_operation_no_sqe:
  fixes io_uring_get_sqe s k self prep uring
  assumes "io_uring_get_sqe (kern s) = (null, k)"
  defines "s1 \<equiv> async_operation io_uring_get_sqe prep uring self s"
  shows "sq s1 = sq s \<and> await_ready self s1 = Inr True \<and> await_resume self s1 = Inr (- ENOMEM)"
  using assms by (simp add: aio_defs Let_def)

theorem async_operation_no_sqe_witness:
  "await_resume 64 (async_operation (\<lambda>k. (null, k)) (\<lambda>e. e) 8 64 (sample_aio 64 0)) = Inr (- 12)"
  using async_operation_no_sqe [of "\<lambda>k. (null, k)" "sample_aio 64 0" "()" "\<lambda>e. e" 8 64]
  by (simp add: ENOMEM_def)

text \<open>
  C24. The await protocol of one operation: with a submission entry the operation is not ready, its
  entry carries the address of its own \<open>user_data\<close>, the coroutine that awaits it is the one
  handed back when a completion with that \<open>user_data\<close> is delivered, and the awaited value is then
  the result of exactly that completion; no step faults.
\<close>

theorem async_operation_await_protocol:
  fixes io_uring_get_sqe s e k c self prep uring
  assumes "io_uring_get_sqe (kern s) = (e, k)" and "e \<noteq> null"
    and "cqe_user_data (cq s c) = self" and "c \<noteq> null"
  defines "s1 \<equiv> async_operation io_uring_get_sqe prep uring self s"
  shows "await_ready self s1 = Inr False \<and> sqe_user_data (sq s1 e) = self
    \<and> (\<exists>s2 s3. await_suspend h self s1 = Inr s2 \<and> deliver c s2 = Inr (h, s3)
          \<and> await_resume self s3 = Inr (cqe_res (cq s c)))"
  using assms by (simp add: aio_defs Let_def)

theorem async_operation_await_protocol_witness:
  "\<exists>s2 s3. await_suspend (Coro 3) 64
        (async_operation (\<lambda>k. (128, k)) (\<lambda>e. e) 8 64 (sample_aio 64 5)) = Inr s2
      \<and> deliver 256 s2 = Inr (Coro 3, s3) \<and> await_resume 64 s3 = Inr 5"
  using async_operation_await_protocol
    [of "\<lambda>k. (128, k)" "sample_aio 64 5" 128 "()" 256 64 "\<lambda>e. e" 8 "Coro 3"]
  by (simp add: sample_aio_def)

text \<open>
  An operation that completes before it is awaited (its handle is still
  \<open>std::noop_coroutine()\<close>): delivery resumes nothing, the operation is then ready without
  suspension, and resuming it reads the completion entry it points to at that time; so the value is
  the completion's own result only as long as the ring has not reused that entry.
\<close>

theorem async_operation_eager_completion:
  fixes io_uring_get_sqe s e k c self prep uring
  assumes "io_uring_get_sqe (kern s) = (e, k)" and "e \<noteq> null"
    and "cqe_user_data (cq s c) = self" and "c \<noteq> null"
  defines "s1 \<equiv> async_operation io_uring_get_sqe prep uring self s"
  shows "\<exists>s2. deliver c s1 = Inr (Noop, s2) \<and> await_ready self s2 = Inr True
    \<and> await_resume self s2 = Inr (cqe_res (cq s c))
    \<and> (\<forall>reused. await_resume self (s2\<lparr>cq := (cq s2)(c := reused)\<rparr>) = Inr (cqe_res reused))"
  using assms by (simp add: aio_defs Let_def)

theorem async_operation_eager_completion_witness:
  "\<exists>s2. deliver 256 (async_operation (\<lambda>k. (128, k)) (\<lambda>e. e) 8 64 (sample_aio 64 5)) = Inr (Noop, s2)
      \<and> await_resume 64 (s2\<lparr>cq := (cq s2)(256 := \<lparr>cqe_user_data = 9, cqe_res = 7, cqe_flags = 0\<rparr>)\<rparr>)
        = Inr 7"
proof -
  obtain s2 where "deliver 256 (async_operation (\<lambda>k. (128, k)) (\<lambda>e. e) 8 64 (sample_aio 64 5))
      = Inr (Noop, s2)"
    "\<forall>r. await_resume 64 (s2\<lparr>cq := (cq s2)(256 := r)\<rparr>) = Inr (cqe_res r)"
    using async_operation_eager_completion
      [of "\<lambda>k. (128, k)" "sample_aio 64 5" 128 "()" 256 64 "\<lambda>e. e" 8]
    by (auto simp: sample_aio_def)
  then show ?thesis by auto
qed

end
