(* ===== verification/IoContext.thy ===== *)
theory IoContext
  imports AsyncOp Fifo
begin

text \<open>
  The event loop of the coroutine library: \<open>class Io_context\<close> (\<open>include/coroutine.h\<close>), with the
  compile-time switches of \<open>include/config.h\<close>.

  A context is the shared ring state extended with the private members of the class. Resuming a
  coroutine runs user code; it is the argument \<open>resume\<close>, any function on the state that may also
  fault. \<open>submit\<close> is \<open>io_uring_submit\<close> (its result is a count, or a negative \<open>errno\<close>), \<open>peek\<close>
  gives the completion entries that \<open>io_uring_for_each_cqe\<close> visits, in order, and \<open>advance\<close> is
  \<open>io_uring_cq_advance\<close>. \<open>conflict\<close> is the constant \<open>uring_features::inflight_conflict\<close>.
\<close>

section \<open>State\<close>

record ('p, 'k) io_context = "('p, 'k) aio" +
  operations :: "handle list"
  inflight :: size_t
  stop_flag :: bool
  switch_spsc :: "handle fifo"

text \<open>The calls into liburing and the coroutines, as one argument.\<close>

record ('p, 'k) loop_env =
  resume :: "handle \<Rightarrow> ('p, 'k) io_context \<Rightarrow> ('p, 'k) io_context result"
  submit :: "('p, 'k) io_context \<Rightarrow> int \<times> ('p, 'k) io_context"
  peek :: "('p, 'k) io_context \<Rightarrow> addr list"
  advance :: "u32 \<Rightarrow> ('p, 'k) io_context \<Rightarrow> ('p, 'k) io_context"

section \<open>config.h\<close>

definition inflight_conflict :: "bool \<Rightarrow> bool \<Rightarrow> bool" where
  "inflight_conflict use_multishot use_sqpoll \<longleftrightarrow> use_multishot \<or> use_sqpoll"

definition inflight_conflict_workaround :: "bool \<Rightarrow> size_t \<Rightarrow> size_t \<Rightarrow> size_t" where
  "inflight_conflict_workaround conflict infl done =
     (if conflict then max infl done else infl)"

section \<open>Observers, stop and spawn\<close>

definition pending :: "('p, 'k) io_context \<Rightarrow> nat" where
  "pending c = length (operations c)"

definition drained :: "('p, 'k) io_context \<Rightarrow> bool" where
  "drained c \<longleftrightarrow> pending c = 0 \<and> inflight c = 0"

definition stop :: "('p, 'k) io_context \<Rightarrow> ('p, 'k) io_context" where
  "stop c = c\<lparr>stop_flag := True\<rparr>"

definition stopped :: "('p, 'k) io_context \<Rightarrow> bool" where
  "stopped c \<longleftrightarrow> stop_flag c \<and> pending c = 0"

definition running :: "('p, 'k) io_context \<Rightarrow> bool" where
  "running c \<longleftrightarrow> \<not> stopped c"

definition co_spawn :: "handle \<Rightarrow> ('p, 'k) io_context \<Rightarrow> ('p, 'k) io_context" where
  "co_spawn h c = c\<lparr>operations := operations c @ [h]\<rparr>"

definition push_to_switch :: "handle \<Rightarrow> ('p, 'k) io_context \<Rightarrow> bool \<times> ('p, 'k) io_context" where
  "push_to_switch h c = (let (ok, f) = fifo_push 64 h (switch_spsc c)
     in (ok, c\<lparr>switch_spsc := f\<rparr>))"

section \<open>run_once\<close>

definition take_batch :: "('p, 'k) io_context \<Rightarrow> nat" where
  "take_batch c = min 32 (length (operations c))"

definition take_once :: "('p, 'k) io_context \<Rightarrow> nat" where
  "take_once c = (if operations c = [] then 0 else 1)"

definition run_once_prepare :: "('p, 'k) io_context \<Rightarrow> ('p, 'k) io_context" where
  "run_once_prepare c =
     (let (h, f) = fifo_pop 64 Null_handle (switch_spsc c); c1 = c\<lparr>switch_spsc := f\<rparr>
      in if h \<noteq> Null_handle then co_spawn h c1 else c1)"

text \<open>Resuming a handle: nothing happens for the noop coroutine, the null handle faults.\<close>

fun resume_handle :: "('p, 'k) loop_env \<Rightarrow> handle \<Rightarrow> ('p, 'k) io_context
    \<Rightarrow> ('p, 'k) io_context result" where
  "resume_handle env Null_handle c = Inl Null_deref"
| "resume_handle env Noop c = Inr c"
| "resume_handle env (Coro n) c = resume env (Coro n) c"

text \<open>The loop over the batch. Taking the front of an empty queue is undefined behaviour.\<close>

fun resume_some :: "('p, 'k) loop_env \<Rightarrow> nat \<Rightarrow> ('p, 'k) io_context
    \<Rightarrow> ('p, 'k) io_context result" where
  "resume_some env 0 c = Inr c"
| "resume_some env (Suc n) c =
     (case operations c of
        [] \<Rightarrow> Inl Dangling
      | op # rest \<Rightarrow> and_then (resume_handle env op (c\<lparr>operations := rest\<rparr>)) (resume_some env n))"

text \<open>The loop over the completions; \<open>done\<close> counts all of them.\<close>

fun reap :: "('p, 'k) loop_env \<Rightarrow> addr list \<Rightarrow> u32 \<Rightarrow> ('p, 'k) io_context
    \<Rightarrow> (u32 \<times> ('p, 'k) io_context) result" where
  "reap env [] done c = Inr (done, c)"
| "reap env (cqe # rest) done c =
     (if cqe_res (cq c cqe) = - ECANCELED then reap env rest (done + 1) c
      else and_then (deliver cqe c)
        (\<lambda>(h, c1). and_then (resume_handle env h c1) (reap env rest (done + 1))))"

text \<open>The part of \<open>run_once\<close> after the batch: submit, then reap unless nothing is in flight.\<close>

definition submit_and_reap :: "('p, 'k) loop_env \<Rightarrow> bool \<Rightarrow> ('p, 'k) io_context
    \<Rightarrow> ('p, 'k) io_context result" where
  "submit_and_reap env conflict c =
     (let (n, c1) = submit env c;
          c2 = c1\<lparr>inflight := inflight c1 + of_int n\<rparr>
      in if inflight c2 = 0 \<and> \<not> conflict then Inr c2
         else and_then (reap env (peek env c2) 0 c2)
           (\<lambda>(done, c3).
              let c4 = (if done \<noteq> 0 then advance env done c3 else c3);
                  infl = inflight_conflict_workaround conflict (inflight c4) (ucast done)
              in if \<not> ucast done \<le> infl then Inl Assertion_failed
                 else Inr (c4\<lparr>inflight := infl - ucast done\<rparr>)))"

definition run_once :: "('p, 'k) loop_env \<Rightarrow> bool \<Rightarrow> bool \<Rightarrow> ('p, 'k) io_context
    \<Rightarrow> ('p, 'k) io_context result" where
  "run_once env conflict exactly_once c =
     (let c1 = run_once_prepare c;
          some = (if exactly_once then take_once c1 else take_batch c1)
      in and_then (resume_some env some c1) (submit_and_reap env conflict))"

text \<open>\<open>run\<close>: the loop \<open>for(_stop = false; running(); run_once());\<close>. \<open>None\<close> is a loop that
  never ends.\<close>

partial_function (option) run_loop :: "('p, 'k) loop_env \<Rightarrow> bool \<Rightarrow> ('p, 'k) io_context
    \<Rightarrow> ('p, 'k) io_context result option" where
  "run_loop env conflict c =
     (if \<not> running c then Some (Inr c)
      else case run_once env conflict False c of
        Inl e \<Rightarrow> Some (Inl e)
      | Inr c' \<Rightarrow> run_loop env conflict c')"

definition run :: "('p, 'k) loop_env \<Rightarrow> bool \<Rightarrow> ('p, 'k) io_context
    \<Rightarrow> ('p, 'k) io_context result option" where
  "run env conflict c = run_loop env conflict (c\<lparr>stop_flag := False\<rparr>)"

lemmas io_defs = pending_def drained_def stop_def stopped_def running_def co_spawn_def
  take_batch_def take_once_def

section \<open>What the surroundings are relied on for\<close>

text \<open>
  Coroutines reach the queue of the context only through \<open>co_spawn\<close>, which appends, and liburing
  does not touch the members of the context at all.
\<close>

definition appends_only :: "('p, 'k) loop_env \<Rightarrow> bool" where
  "appends_only env \<longleftrightarrow>
     (\<forall>n c c'. resume env (Coro n) c = Inr c' \<longrightarrow> (\<exists>new. operations c' = operations c @ new))
     \<and> (\<forall>c. operations (snd (submit env c)) = operations c)
     \<and> (\<forall>d c. operations (advance env d c) = operations c)"

text \<open>\<open>tr\<close> is a log, kept in \<open>kern\<close>, of the coroutines that were resumed.\<close>

definition is_coro :: "handle \<Rightarrow> bool" where
  "is_coro h = (case h of Coro n \<Rightarrow> True | _ \<Rightarrow> False)"

definition traced :: "('p, 'k) loop_env \<Rightarrow> ('k \<Rightarrow> handle list) \<Rightarrow> bool" where
  "traced env tr \<longleftrightarrow>
     (\<forall>n c c'. resume env (Coro n) c = Inr c' \<longrightarrow> tr (kern c') = tr (kern c) @ [Coro n])
     \<and> (\<forall>c. tr (kern (snd (submit env c))) = tr (kern c))
     \<and> (\<forall>d c. tr (kern (advance env d c)) = tr (kern c))"

text \<open>The private counter changes in \<open>run_once\<close> only.\<close>

definition keeps_inflight :: "('p, 'k) loop_env \<Rightarrow> bool" where
  "keeps_inflight env \<longleftrightarrow>
     (\<forall>n c c'. resume env (Coro n) c = Inr c' \<longrightarrow> inflight c' = inflight c)
     \<and> (\<forall>c. inflight (snd (submit env c)) = inflight c)
     \<and> (\<forall>d c. inflight (advance env d c) = inflight c)"

section \<open>Lemmas\<close>

lemma resume_handle_cases:
  assumes "resume_handle env h c = Inr c'"
  obtains "h = Noop" "c' = c" | n where "h = Coro n" "resume env (Coro n) c = Inr c'"
  using assms by (cases h) auto

lemma resume_handle_appends:
  "appends_only env \<Longrightarrow> resume_handle env h c = Inr c' \<Longrightarrow> \<exists>new. operations c' = operations c @ new"
  by (erule resume_handle_cases) (auto simp: appends_only_def)

lemma resume_handle_trace:
  "traced env tr \<Longrightarrow> resume_handle env h c = Inr c' \<Longrightarrow>
   tr (kern c') = tr (kern c) @ filter is_coro [h]"
  by (erule resume_handle_cases) (auto simp: traced_def is_coro_def)

lemma resume_handle_inflight:
  "keeps_inflight env \<Longrightarrow> resume_handle env h c = Inr c' \<Longrightarrow> inflight c' = inflight c"
  by (erule resume_handle_cases) (auto simp: keeps_inflight_def)

lemma resume_some_fifo:
  assumes "appends_only env" "traced env tr"
    and "resume_some env n c = Inr c'" "n \<le> length (operations c)"
  shows "(\<exists>new. operations c' = drop n (operations c) @ new)
    \<and> tr (kern c') = tr (kern c) @ filter is_coro (take n (operations c))"
  using assms(3,4)
proof (induction n arbitrary: c)
  case 0
  then show ?case by simp
next
  case (Suc n)
  then obtain op rest where ops: "operations c = op # rest" by (cases "operations c") auto
  let ?c = "c\<lparr>operations := rest\<rparr>"
  from Suc.prems ops obtain c1 where c1: "resume_handle env op ?c = Inr c1"
    "resume_some env n c1 = Inr c'"
    by auto
  from resume_handle_appends [OF assms(1) c1(1)] obtain new where
    new: "operations c1 = rest @ new" by auto
  have "tr (kern c1) = tr (kern c) @ filter is_coro [op]"
    using resume_handle_trace [OF assms(2) c1(1)] by simp
  moreover have "n \<le> length rest" using Suc.prems(2) ops by simp
  moreover from this Suc.IH [OF c1(2)] new have
    "(\<exists>new'. operations c' = drop n (operations c1) @ new')
     \<and> tr (kern c') = tr (kern c1) @ filter is_coro (take n (operations c1))"
    by simp
  ultimately show ?case using ops new by auto
qed

text \<open>With coroutines that never fault, the batch goes through.\<close>

lemma resume_some_total:
  assumes "appends_only env" "\<forall>n c. \<exists>c'. resume env (Coro n) c = Inr c'"
    and "n \<le> length (operations c)" "Null_handle \<notin> set (take n (operations c))"
  shows "\<exists>c'. resume_some env n c = Inr c'"
  using assms(3,4)
proof (induction n arbitrary: c)
  case 0
  then show ?case by simp
next
  case (Suc n)
  then obtain op rest where ops: "operations c = op # rest" by (cases "operations c") auto
  with Suc.prems have "op \<noteq> Null_handle" by auto
  with assms(2) obtain c1 where c1: "resume_handle env op (c\<lparr>operations := rest\<rparr>) = Inr c1"
    by (cases op) auto
  from resume_handle_appends [OF assms(1) c1] obtain new where new: "operations c1 = rest @ new"
    by auto
  have "\<exists>c'. resume_some env n c1 = Inr c'"
    using Suc.prems ops new by (intro Suc.IH) auto
  with ops c1 show ?case by simp
qed

lemma deliver_frame:
  "deliver q c = Inr (h, c') \<Longrightarrow> operations c' = operations c \<and> kern c' = kern c
     \<and> inflight c' = inflight c \<and> cq c' = cq c"
  by (auto simp: deliver_def put_ud_def Let_def)

lemma reap_frame:
  assumes "reap env qs done c = Inr (done', c')"
  shows "(appends_only env \<longrightarrow> (\<exists>new. operations c' = operations c @ new))
    \<and> (traced env tr \<longrightarrow> (\<exists>ys. tr (kern c') = tr (kern c) @ ys))
    \<and> (keeps_inflight env \<longrightarrow> inflight c' = inflight c)
    \<and> done' = done + of_nat (length qs)"
  using assms
proof (induction qs arbitrary: "done" c)
  case Nil
  then show ?case by simp
next
  case (Cons q qs)
  show ?case
  proof (cases "cqe_res (cq c q) = - ECANCELED")
    case True
    with Cons.prems have "reap env qs (done + 1) c = Inr (done', c')" by simp
    from Cons.IH [OF this] show ?thesis by (simp add: algebra_simps)
  next
    case False
    with Cons.prems obtain h c1 c2 where d: "deliver q c = Inr (h, c1)"
      and r: "resume_handle env h c1 = Inr c2"
      and rest: "reap env qs (done + 1) c2 = Inr (done', c')"
      by auto
    note fr = deliver_frame [OF d]
    note ih = Cons.IH [OF rest]
    show ?thesis
    proof (intro conjI impI)
      assume "appends_only env"
      from resume_handle_appends [OF this r] ih this fr
      show "\<exists>new. operations c' = operations c @ new" by auto
    next
      assume "traced env tr"
      from resume_handle_trace [OF this r] ih this fr
      show "\<exists>ys. tr (kern c') = tr (kern c) @ ys" by auto
    next
      assume "keeps_inflight env"
      from resume_handle_inflight [OF this r] ih this fr
      show "inflight c' = inflight c" by simp
    next
      show "done' = done + of_nat (length (q # qs))" using ih by simp
    qed
  qed
qed

end
