(* ===== verification/IoContextProps.thy ===== *)
theory IoContextProps
  imports IoContext
begin

text \<open>
  What the event loop \<open>Io_context\<close> guarantees: the order and the size of a batch, freedom from
  starvation, the delivery of completions, the in-flight counter, and when \<open>run\<close> returns.
\<close>

section \<open>Batches\<close>

lemma run_once_prepare_frame:
  "kern (run_once_prepare c) = kern c" "inflight (run_once_prepare c) = inflight c"
  "stop_flag (run_once_prepare c) = stop_flag c"
  by (simp_all add: run_once_prepare_def co_spawn_def Let_def split: prod.split)

lemma run_once_prepare_appends: "\<exists>new. operations (run_once_prepare c) = operations c @ new"
  by (simp add: run_once_prepare_def co_spawn_def Let_def split: prod.split)

lemma submit_and_reap_frame:
  assumes "submit_and_reap env conflict c = Inr c'"
  shows "appends_only env \<Longrightarrow> \<exists>new. operations c' = operations c @ new"
    and "traced env tr \<Longrightarrow> \<exists>ys. tr (kern c') = tr (kern c) @ ys"
proof -
  obtain n c1 where s: "submit env c = (n, c1)" by (cases "submit env c")
  let ?c2 = "c1\<lparr>inflight := inflight c1 + of_int n\<rparr>"
  have c1: "appends_only env \<Longrightarrow> operations c1 = operations c"
    "traced env tr \<Longrightarrow> tr (kern c1) = tr (kern c)"
    using s unfolding appends_only_def traced_def by (metis snd_conv)+
  have "(appends_only env \<longrightarrow> (\<exists>new. operations c' = operations c @ new))
      \<and> (traced env tr \<longrightarrow> (\<exists>ys. tr (kern c') = tr (kern c) @ ys))"
  proof (cases "inflight ?c2 = 0 \<and> \<not> conflict")
    case True
    with assms s c1 show ?thesis by (auto simp: submit_and_reap_def)
  next
    case False
    with assms s obtain d c3 where r: "reap env (peek env ?c2) 0 ?c2 = Inr (d, c3)"
      and c': "\<exists>infl. c' = (if d \<noteq> 0 then advance env d c3 else c3)\<lparr>inflight := infl\<rparr>"
      by (auto simp: submit_and_reap_def Let_def split: if_splits)
    from c' have "appends_only env \<longrightarrow> operations c' = operations c3"
      "traced env tr \<longrightarrow> tr (kern c') = tr (kern c3)"
      by (auto simp: appends_only_def traced_def)
    with reap_frame [OF r, of tr] c1 show ?thesis by auto
  qed
  then show "appends_only env \<Longrightarrow> \<exists>new. operations c' = operations c @ new"
    and "traced env tr \<Longrightarrow> \<exists>ys. tr (kern c') = tr (kern c) @ ys"
    by blast+
qed

lemma run_once_batch:
  assumes env: "appends_only env" "traced env tr" and r: "run_once env conflict False c = Inr c'"
  defines "c1 \<equiv> run_once_prepare c"
  shows "\<exists>new ys. operations c' = drop 32 (operations c1) @ new
    \<and> tr (kern c') = tr (kern c) @ filter is_coro (take 32 (operations c1)) @ ys"
proof -
  from r obtain c2 where c2: "resume_some env (take_batch c1) c1 = Inr c2"
    and c': "submit_and_reap env conflict c2 = Inr c'"
    by (auto simp: run_once_def c1_def Let_def)
  have "take_batch c1 \<le> length (operations c1)" by (simp add: take_batch_def)
  from resume_some_fifo [OF env c2 this] obtain new where
    "operations c2 = drop (take_batch c1) (operations c1) @ new"
    "tr (kern c2) = tr (kern c1) @ filter is_coro (take (take_batch c1) (operations c1))"
    by blast
  moreover have "drop (take_batch c1) (operations c1) = drop 32 (operations c1)"
    "take (take_batch c1) (operations c1) = take 32 (operations c1)"
    by (simp_all add: take_batch_def min_def)
  ultimately show ?thesis
    using submit_and_reap_frame(1) [OF c' env(1)] submit_and_reap_frame(2) [OF c' env(2)] run_once_prepare_frame(1) [of c]
    by (auto simp: c1_def)
qed

text \<open>\<open>n\<close> rounds of \<open>run_once\<close>.\<close>

fun run_rounds :: "('p, 'k) loop_env \<Rightarrow> bool \<Rightarrow> nat \<Rightarrow> ('p, 'k) io_context
    \<Rightarrow> ('p, 'k) io_context result" where
  "run_rounds env conflict 0 c = Inr c"
| "run_rounds env conflict (Suc n) c =
     and_then (run_once env conflict False c) (run_rounds env conflict n)"

lemma run_rounds_trace:
  assumes env: "appends_only env" "traced env tr"
  shows "run_rounds env conflict n c = Inr c' \<Longrightarrow> \<exists>ys. tr (kern c') = tr (kern c) @ ys"
proof (induction n arbitrary: c)
  case 0
  then show ?case by simp
next
  case (Suc n)
  then obtain c1 where c1: "run_once env conflict False c = Inr c1"
    "run_rounds env conflict n c1 = Inr c'" by auto
  with Suc.IH [OF c1(2)] run_once_batch [OF env c1(1)] show ?case by fastforce
qed

lemma run_rounds_reaches:
  assumes env: "appends_only env" "traced env tr"
  shows "run_rounds env conflict (Suc m) c = Inr c' \<Longrightarrow> k < length (operations c) \<Longrightarrow>
    k div 32 = m \<Longrightarrow> is_coro (operations c ! k) \<Longrightarrow>
    \<exists>ys. tr (kern c') = tr (kern c) @ ys \<and> operations c ! k \<in> set ys"
proof (induction m arbitrary: c k)
  case 0
  then obtain c1 where c1: "run_once env conflict False c = Inr c1" and "c1 = c'" by auto
  obtain new where ops: "operations (run_once_prepare c) = operations c @ new"
    using run_once_prepare_appends by blast
  have "k < 32" using 0 by simp
  then have "operations c ! k \<in> set (take 32 (operations c @ new))"
    using 0 by (auto simp: in_set_conv_nth nth_append intro!: exI [of _ k])
  with run_once_batch [OF env c1] 0 ops \<open>c1 = c'\<close> show ?case by fastforce
next
  case (Suc m)
  then obtain c1 where c1: "run_once env conflict False c = Inr c1"
    and rest: "run_rounds env conflict (Suc m) c1 = Inr c'" by auto
  obtain new where ops: "operations (run_once_prepare c) = operations c @ new"
    using run_once_prepare_appends by blast
  have k: "32 \<le> k" "(k - 32) div 32 = m" using Suc.prems(3) by auto
  from run_once_batch [OF env c1] ops obtain new' ys where
    ops1: "operations c1 = drop 32 (operations c @ new) @ new'"
    and tr1: "tr (kern c1) = tr (kern c) @ ys"
    by auto
  have "k - 32 < length (operations c1)" "operations c1 ! (k - 32) = operations c ! k"
    using ops1 k Suc.prems(2) by (auto simp: nth_append)
  from Suc.IH [OF rest this(1) k(2)] this(2) Suc.prems(4) tr1 show ?case by auto
qed

lemma run_once_prepare_pulls:
  assumes "fifo_invar 64 (switch_spsc c)" "Null_handle \<notin> set (fifo_list 64 (switch_spsc c))"
  shows "fifo_invar 64 (switch_spsc (run_once_prepare c))
    \<and> operations (run_once_prepare c) = operations c @ take 1 (fifo_list 64 (switch_spsc c))
    \<and> fifo_list 64 (switch_spsc (run_once_prepare c)) = drop 1 (fifo_list 64 (switch_spsc c))"
proof (cases rule: switch_queue.deq_cases [OF assms(1), of Null_handle])
  case 1
  with assms show ?thesis by (simp add: run_once_prepare_def co_spawn_def Let_def)
next
  case (2 h f)
  with assms(2) have "h \<noteq> Null_handle" by auto
  with 2 show ?thesis by (simp add: run_once_prepare_def co_spawn_def Let_def)
qed

section \<open>Properties of run_once\<close>

text \<open>
  A concrete environment for the witnesses: resuming logs the handle in \<open>kern\<close>, nothing is ever
  submitted or completed.
\<close>

definition log_env :: "(unit, handle list) loop_env" where
  "log_env = \<lparr>resume = (\<lambda>h c. Inr (c\<lparr>kern := kern c @ [h]\<rparr>)), submit = (\<lambda>c. (0, c)),
     peek = (\<lambda>c. []), advance = (\<lambda>d c. c)\<rparr>"

definition sample_context :: "handle list \<Rightarrow> (unit, handle list) io_context" where
  "sample_context ops =
     \<lparr>sq = (\<lambda>_. \<lparr>sqe_flags = 0, sqe_user_data = 0, sqe_buf_group = 0, sqe_body = ()\<rparr>),
      cq = (\<lambda>_. \<lparr>cqe_user_data = 0, cqe_res = 0, cqe_flags = 0\<rparr>),
      uds = (\<lambda>_. None), kern = [], operations = ops, inflight = 0, stop_flag = True,
      switch_spsc = fifo_new 64 Null_handle\<rparr>"

lemma log_env_ok: "appends_only log_env" "traced log_env (\<lambda>k. k)" "keeps_inflight log_env"
  by (auto simp: log_env_def appends_only_def traced_def keeps_inflight_def)

lemma sample_context_prepare: "run_once_prepare (sample_context ops) = sample_context ops"
  by (simp add: run_once_prepare_def sample_context_def fifo_pop_def fifo_new_def Let_def)

lemma sample_run:
  "run_once log_env False False (sample_context [Coro 1, Coro 2])
     = Inr ((sample_context [])\<lparr>kern := [Coro 1, Coro 2]\<rparr>)"
  unfolding run_once_def Let_def sample_context_prepare
  by (simp add: take_batch_def log_env_def submit_and_reap_def sample_context_def
      numeral_2_eq_2)

text \<open>
  C21. One \<open>run_once\<close> resumes exactly the first 32 coroutines of the queue (fewer when there are
  fewer), oldest first and before anything else, removes exactly those, and leaves whatever is
  spawned meanwhile behind the rest of the queue for a later round.
\<close>

theorem run_once_resumes_batch_in_order:
  assumes "appends_only env" and "traced env tr" and "run_once env conflict False c = Inr c'"
  shows "\<exists>new ys. operations c' = drop 32 (operations (run_once_prepare c)) @ new
    \<and> tr (kern c') = tr (kern c) @ filter is_coro (take 32 (operations (run_once_prepare c))) @ ys"
  by (rule run_once_batch [OF assms])

theorem run_once_resumes_batch_in_order_witness:
  "\<exists>c'. run_once log_env False False (sample_context [Coro 1, Coro 2]) = Inr c'
     \<and> (\<exists>ys. kern c' = [Coro 1, Coro 2] @ ys)"
proof -
  let ?c = "sample_context [Coro 1, Coro 2]"
  obtain c' where r: "run_once log_env False False ?c = Inr c'"
    using sample_run by blast
  from run_once_resumes_batch_in_order [OF log_env_ok(1,2) r] r show ?thesis
    unfolding sample_context_prepare by (auto simp: sample_context_def is_coro_def)
qed

text \<open>
  C22. No coroutine starves: one that stands at position \<open>k\<close> of the queue has been resumed after
  \<open>k div 32 + 1\<close> rounds, however many coroutines are spawned or completions arrive meanwhile.
\<close>

theorem no_starvation:
  assumes "appends_only env" and "traced env tr"
    and "run_rounds env conflict (k div 32 + 1) c = Inr c'"
    and "k < length (operations c)" and "operations c ! k = Coro n"
  shows "\<exists>ys. tr (kern c') = tr (kern c) @ ys \<and> Coro n \<in> set ys"
  using run_rounds_reaches [OF assms(1,2), of conflict "k div 32" c c' k] assms(3-5)
  by (simp add: is_coro_def)

theorem no_starvation_witness:
  "\<exists>c'. run_rounds log_env False 1 (sample_context [Coro 1, Coro 2]) = Inr c'
     \<and> Coro 2 \<in> set (kern c')"
proof -
  let ?c = "sample_context [Coro 1, Coro 2]"
  obtain c' where r: "run_rounds log_env False 1 ?c = Inr c'"
    using sample_run by simp
  then have "run_rounds log_env False (1 div 32 + 1) ?c = Inr c'" by simp
  from no_starvation [OF log_env_ok(1,2) this, of 2] r show ?thesis
    by (auto simp: sample_context_def)
qed

section \<open>Completions\<close>

text \<open>
  A resumed coroutine leaves the completion entries alone, and the handles stored in the
  \<open>user_data\<close> objects in \<open>A\<close> stay what they were.
\<close>

definition keeps_handles :: "('p, 'k) loop_env \<Rightarrow> addr set \<Rightarrow> bool" where
  "keeps_handles env A \<longleftrightarrow>
     (\<forall>n c c'. resume env (Coro n) c = Inr c' \<longrightarrow> cq c' = cq c
        \<and> (\<forall>a \<in> A. map_option ud_h (uds c' a) = map_option ud_h (uds c a)))"

definition awaiting :: "('p, 'k) io_context \<Rightarrow> addr \<Rightarrow> handle option" where
  "awaiting c q = map_option ud_h (uds c (cqe_user_data (cq c q)))"

lemma resume_handle_keeps:
  "keeps_handles env A \<Longrightarrow> resume_handle env h c = Inr c' \<Longrightarrow>
   cq c' = cq c \<and> (\<forall>a \<in> A. map_option ud_h (uds c' a) = map_option ud_h (uds c a))"
  by (erule resume_handle_cases) (auto simp: keeps_handles_def)

lemma deliver_awaiting:
  "deliver q c = Inr (h, c') \<Longrightarrow> awaiting c q = Some h
     \<and> (\<forall>a. map_option ud_h (uds c' a) = map_option ud_h (uds c a))"
  by (auto simp: deliver_def awaiting_def get_ud_def put_ud_def Let_def split: option.splits)

lemma reap_in_order:
  assumes env: "traced env tr" "keeps_handles env A"
  shows "reap env qs done c = Inr (done', c') \<Longrightarrow>
    (\<forall>q \<in> set qs. cqe_user_data (cq c q) \<in> A) \<Longrightarrow>
    tr (kern c') = tr (kern c) @ filter is_coro (map (\<lambda>q. the (awaiting c q))
      (filter (\<lambda>q. cqe_res (cq c q) \<noteq> - ECANCELED) qs))
    \<and> cq c' = cq c"
proof (induction qs arbitrary: "done" c)
  case Nil
  then show ?case by simp
next
  case (Cons q qs)
  show ?case
  proof (cases "cqe_res (cq c q) = - ECANCELED")
    case True
    with Cons show ?thesis by simp
  next
    case False
    with Cons.prems obtain h c1 c2 where d: "deliver q c = Inr (h, c1)"
      and r: "resume_handle env h c1 = Inr c2"
      and rest: "reap env qs (done + 1) c2 = Inr (done', c')"
      by auto
    note aw = deliver_awaiting [OF d] and fr = deliver_frame [OF d]
      and keep = resume_handle_keeps [OF env(2) r]
    have cq2: "cq c2 = cq c" using fr keep by simp
    have "awaiting c2 p = awaiting c p" if "p \<in> set qs" for p
      using that Cons.prems(2) aw keep cq2 by (simp add: awaiting_def)
    then have "map (\<lambda>p. the (awaiting c2 p)) (filter P qs) = map (\<lambda>p. the (awaiting c p)) (filter P qs)"
      for P by simp
    with Cons.IH [OF rest] Cons.prems(2) cq2 fr False aw resume_handle_trace [OF env(1) r]
    show ?thesis by simp
  qed
qed


definition sample_completion :: "int \<Rightarrow> (unit, handle list) io_context" where
  "sample_completion res = (sample_context [])\<lparr>
     cq := (\<lambda>_. \<lparr>cqe_user_data = 64, cqe_res = res, cqe_flags = 0\<rparr>),
     uds := [64 \<mapsto> \<lparr>ud_uring = 8, ud_sqe = 128, ud_cqe = null, ud_h = Coro 3\<rparr>]\<rparr>"


text \<open>
  A completion \<open>-ECANCELED\<close> is consumed and counted without being delivered, whichever
  operation it belongs to: no \<open>user_data\<close> is written and no coroutine is resumed, so a coroutine
  that awaits an operation the kernel cancels (the rest of a broken link chain, say) stays
  suspended.
\<close>

theorem canceled_completions_not_delivered:
  assumes "\<forall>q \<in> set qs. cqe_res (cq c q) = - ECANCELED"
  shows "reap env qs n c = Inr (n + of_nat (length qs), c)"
  using assms by (induction qs arbitrary: n) (simp_all add: algebra_simps)

theorem canceled_completions_not_delivered_witness:
  "reap log_env [256] 0 (sample_completion (- 125)) = Inr (1, sample_completion (- 125))"
  using canceled_completions_not_delivered [of "[256]" "sample_completion (- 125)" log_env 0]
  by (simp add: sample_completion_def ECANCELED_def)

section \<open>The in-flight counter\<close>

lemma ucast_of_nat_u32:
  assumes "d < 2 ^ 32"
  shows "(ucast (of_nat d :: u32) :: size_t) = of_nat d"
  using assms by (simp add: word_unat_eq_iff unsigned_ucast_eq unat_of_nat take_bit_nat_eq_self)

lemma submit_and_reap_inflight:
  assumes keeps: "keeps_inflight env" and s: "submit env c = (n, c1)"
    and r: "submit_and_reap env conflict c = Inr c'"
  defines "c2 \<equiv> c1\<lparr>inflight := inflight c1 + of_int n\<rparr>"
  shows "inflight c2 = 0 \<and> \<not> conflict \<and> inflight c' = 0
    \<or> (let d = ucast (of_nat (length (peek env c2)) :: u32);
           infl = inflight_conflict_workaround conflict (inflight c + of_int n) d
       in d \<le> infl \<and> inflight c' = infl - d)"
proof (cases "inflight c2 = 0 \<and> \<not> conflict")
  case True
  with s r show ?thesis by (auto simp: submit_and_reap_def c2_def Let_def)
next
  case False
  with s r obtain d c3 where rp: "reap env (peek env c2) 0 c2 = Inr (d, c3)"
    and c': "c' = (if d \<noteq> 0 then advance env d c3 else c3)\<lparr>inflight :=
        inflight_conflict_workaround conflict
          (inflight (if d \<noteq> 0 then advance env d c3 else c3)) (ucast d) - ucast d\<rparr>"
    and le: "ucast d \<le> inflight_conflict_workaround conflict
          (inflight (if d \<noteq> 0 then advance env d c3 else c3)) (ucast d)"
    unfolding submit_and_reap_def c2_def by (auto simp: Let_def split: if_splits)
  have "inflight c1 = inflight c" using keeps s unfolding keeps_inflight_def by (metis snd_conv)
  then have "inflight (if d \<noteq> 0 then advance env d c3 else c3) = inflight c + of_int n"
    using keeps reap_frame [OF rp] by (auto simp: keeps_inflight_def c2_def)
  moreover have "d = of_nat (length (peek env c2))" using reap_frame [OF rp] by simp
  ultimately show ?thesis using c' le by (auto simp: Let_def)
qed

lemma unat_add_int:
  assumes "0 \<le> n" "unat (w :: size_t) + nat n < 2 ^ 64"
  shows "unat (w + of_int n) = unat w + nat n"
proof -
  have n: "of_int n = (of_nat (nat n) :: size_t)" using assms(1) by simp
  have "nat n < 2 ^ 64" using assms(2) by simp
  then have "unat (of_nat (nat n) :: size_t) = nat n" by (simp add: unat_of_nat take_bit_nat_eq_self)
  then show ?thesis using assms(2) by (simp add: n unat_word_ariths)
qed

text \<open>
  The counter: when \<open>io_uring_submit\<close> accepts \<open>n\<close> entries and \<open>d\<close> completions are reaped, no more
  than are in flight, a round adds \<open>n\<close> and subtracts \<open>d\<close>, with or without the multishot/SQPOLL
  workaround. So \<open>drained()\<close> stays false as long as some accepted entry posts no completion
  (an entry flagged \<open>IOSQE_CQE_SKIP_SUCCESS\<close> that succeeds, for example).
\<close>

theorem inflight_is_submitted_minus_done:
  assumes "keeps_inflight env" and "submit env c = (n, c1)" and "0 \<le> n"
    and "unat (inflight c) + nat n < 2 ^ 64"
    and "d = length (peek env (c1\<lparr>inflight := inflight c1 + of_int n\<rparr>))"
    and "d < 2 ^ 32" and "d \<le> unat (inflight c) + nat n"
    and "submit_and_reap env conflict c = Inr c'"
  shows "unat (inflight c') = unat (inflight c) + nat n - d
    \<and> (d < unat (inflight c) + nat n \<longrightarrow> \<not> drained c')"
proof -
  let ?c2 = "c1\<lparr>inflight := inflight c1 + of_int n\<rparr>"
  have sum: "unat (inflight c + of_int n) = unat (inflight c) + nat n"
    by (rule unat_add_int [OF assms(3,4)])
  have "inflight c1 = inflight c" using assms(1,2) unfolding keeps_inflight_def by (metis snd_conv)
  then have c2: "inflight ?c2 = inflight c + of_int n" by simp
  have d: "ucast (of_nat d :: u32) = (of_nat d :: size_t)" by (rule ucast_of_nat_u32 [OF assms(6)])
  have d': "unat (of_nat d :: size_t) = d" using assms(6) by (simp add: unat_of_nat take_bit_nat_eq_self)
  have le: "(of_nat d :: size_t) \<le> inflight c + of_int n"
    using assms(7) by (simp add: word_le_nat_alt sum d')
  have "unat (inflight c') = unat (inflight c) + nat n - d"
    using submit_and_reap_inflight [OF assms(1,2,8)]
  proof
    assume a: "inflight ?c2 = 0 \<and> \<not> conflict \<and> inflight c' = 0"
    then have "unat (inflight c) + nat n = 0" using c2 sum by simp
    with a show ?thesis by simp
  next
    assume a: "let dw = ucast (of_nat (length (peek env ?c2)) :: u32);
        infl = inflight_conflict_workaround conflict (inflight c + of_int n) dw
      in dw \<le> infl \<and> inflight c' = infl - dw"
    then have "inflight c' = inflight c + of_int n - of_nat d"
      using d le assms(5) by (simp add: inflight_conflict_workaround_def Let_def max_def split: if_splits)
    then show ?thesis using le by (simp add: unat_sub sum d')
  qed
  then show ?thesis by (auto simp: drained_def)
qed

text \<open>A chain of three linked entries, two of which post no completion: one completion arrives, and
  two stay on the counter.\<close>

definition link_env :: "(unit, handle list) loop_env" where
  "link_env = log_env\<lparr>submit := (\<lambda>c. (3, c)), peek := (\<lambda>c. [256])\<rparr>"

theorem inflight_is_submitted_minus_done_witness:
  "\<exists>c'. submit_and_reap link_env True (sample_completion 5) = Inr c'
     \<and> unat (inflight c') = 2 \<and> \<not> drained c'"
proof -
  have r: "\<exists>c'. submit_and_reap link_env True (sample_completion 5) = Inr c'"
    by (simp add: submit_and_reap_def link_env_def log_env_def sample_completion_def sample_context_def
        deliver_def get_ud_def put_ud_def ECANCELED_def inflight_conflict_workaround_def Let_def)
  then obtain c' where c': "submit_and_reap link_env True (sample_completion 5) = Inr c'" by blast
  have keeps: "keeps_inflight link_env"
    by (auto simp: keeps_inflight_def link_env_def log_env_def)
  show ?thesis
    using inflight_is_submitted_minus_done [OF keeps _ _ _ _ _ _ c', of 3 "sample_completion 5" 1] c'
    by (simp add: link_env_def sample_completion_def sample_context_def)
qed

lemma unat_neg_int:
  assumes "0 < e" "e < 2 ^ 31"
  shows "unat (of_int (- e) :: size_t) = 2 ^ 64 - nat e"
proof -
  have "(- e) mod 2 ^ 64 = (2 ^ 64 - e) mod (2 ^ 64 :: int)"
    by (metis add.commute mod_add_self2 uminus_add_conv_diff)
  also have "\<dots> = 2 ^ 64 - e" using assms by (intro mod_pos_pos_trivial) auto
  finally have "(- e) mod 2 ^ 64 = 2 ^ 64 - e" .
  moreover have "uint (of_int (- e) :: size_t) = (- e) mod 2 ^ 64"
    by (subst uint_word_of_int) simp
  ultimately have u: "uint (of_int (- e) :: size_t) = 2 ^ 64 - e" by simp
  have "nat (2 ^ 64 - e) = 2 ^ 64 - nat e"
    using assms by (simp add: nat_diff_distrib)
  then show ?thesis unfolding unat_eq_nat_uint u .
qed

text \<open>
  A failed \<open>io_uring_submit\<close> (it returns \<open>-errno\<close>, which the code adds like a count) takes that
  many off the counter: from zero it wraps around, the assertion still holds, and \<open>drained()\<close> is
  false although nothing is pending or in flight.
\<close>

theorem submit_error_wraps_inflight:
  assumes "keeps_inflight env" and "submit env c = (- err, c1)" and "0 < err" and "err < 2 ^ 31"
    and "inflight c = 0" and "peek env (c1\<lparr>inflight := inflight c1 + of_int (- err)\<rparr>) = []"
  shows "\<exists>c'. submit_and_reap env conflict c = Inr c' \<and> unat (inflight c') = 2 ^ 64 - nat err
    \<and> \<not> drained c'"
proof -
  let ?c2 = "c1\<lparr>inflight := inflight c1 + of_int (- err)\<rparr>"
  have c1: "inflight c1 = 0" using assms(1,2,5) unfolding keeps_inflight_def by (metis snd_conv)
  have w: "unat (of_int (- err) :: size_t) = 2 ^ 64 - nat err"
    using assms(3,4) by (simp only: unat_neg_int)
  have small: "nat err < 2 ^ 31" using assms(3,4) by (simp add: nat_less_iff)
  have nz: "(of_int (- err) :: size_t) \<noteq> 0"
  proof
    assume "(of_int (- err) :: size_t) = 0"
    with w have "2 ^ 64 - nat err = 0" by (metis unat_0)
    with small show False by simp
  qed
  have "submit_and_reap env conflict c = Inr (?c2\<lparr>inflight := of_int (- err)\<rparr>)"
    using assms(2,6) c1 nz
    by (simp add: submit_and_reap_def inflight_conflict_workaround_def Let_def max_def)
  then show ?thesis using w nz by (simp add: drained_def)
qed

theorem submit_error_wraps_inflight_witness:
  "\<exists>c'. submit_and_reap (log_env\<lparr>submit := (\<lambda>c. (- 16, c))\<rparr>) True (sample_context []) = Inr c'
     \<and> unat (inflight c') = 2 ^ 64 - 16"
proof -
  let ?env = "log_env\<lparr>submit := (\<lambda>c. (- 16, c))\<rparr>"
  have "keeps_inflight ?env" by (auto simp: keeps_inflight_def log_env_def)
  from submit_error_wraps_inflight [OF this, of "sample_context []" 16 "sample_context []" True]
  show ?thesis by (auto simp: sample_context_def log_env_def)
qed

section \<open>run and stop\<close>

lemma run_loop_stopped:
  assumes "run_loop env conflict c = Some r"
  shows "case r of Inl e \<Rightarrow> True | Inr c' \<Rightarrow> stopped c'"
proof (rule run_loop.raw_induct [where P = "\<lambda>env conflict c r. case r of Inl e \<Rightarrow> True | Inr c' \<Rightarrow> stopped c'",
      OF _ assms])
  fix f :: "('a, 'b) loop_env \<Rightarrow> bool \<Rightarrow> ('a, 'b) io_context \<Rightarrow> ('a, 'b) io_context result option"
    and env conflict c r
  assume ih: "\<And>env conflict c r. f env conflict c = Some r \<Longrightarrow>
      (case r of Inl e \<Rightarrow> True | Inr c' \<Rightarrow> stopped c')"
    and eq: "(if \<not> running c then Some (Inr c)
       else case run_once env conflict False c of Inl e \<Rightarrow> Some (Inl e)
         | Inr c' \<Rightarrow> f env conflict c') = Some r"
  show "case r of Inl e \<Rightarrow> True | Inr c' \<Rightarrow> stopped c'"
  proof (cases "running c")
    case False
    with eq show ?thesis by (auto simp: running_def)
  next
    case True
    with eq ih show ?thesis by (cases "run_once env conflict False c") auto
  qed
qed

text \<open>
  \<open>run()\<close> returns only when \<open>stop()\<close> was called since \<open>run()\<close> started (a stop request from
  before is forgotten) and no coroutine is left in the queue.
\<close>

theorem run_returns_only_when_stopped:
  assumes "run env conflict c = Some (Inr c')"
  shows "stop_flag c' \<and> pending c' = 0 \<and> run env conflict c = run env conflict (stop c)"
  using run_loop_stopped [OF assms [unfolded run_def]]
  by (simp add: stopped_def run_def stop_def)

text \<open>
  What it takes for \<open>run\<close> to end: coroutines that neither fault nor spawn nor withdraw the stop
  request, and completions that do not either.
\<close>

definition winding_down :: "('p, 'k) loop_env \<Rightarrow> bool \<Rightarrow> bool" where
  "winding_down env conflict \<longleftrightarrow>
     (\<forall>n c. \<exists>c'. resume env (Coro n) c = Inr c' \<and> operations c' = operations c
        \<and> stop_flag c' = stop_flag c \<and> switch_spsc c' = switch_spsc c)
     \<and> (\<forall>c. \<exists>c'. submit_and_reap env conflict c = Inr c' \<and> operations c' = operations c
        \<and> stop_flag c' = stop_flag c \<and> switch_spsc c' = switch_spsc c)"

lemma winding_down_resume_some:
  assumes "winding_down env conflict" "n \<le> length (operations c)" "Null_handle \<notin> set (operations c)"
  shows "\<exists>c'. resume_some env n c = Inr c' \<and> operations c' = drop n (operations c)
    \<and> stop_flag c' = stop_flag c \<and> switch_spsc c' = switch_spsc c"
  using assms(2,3)
proof (induction n arbitrary: c)
  case 0
  then show ?case by simp
next
  case (Suc n)
  then obtain op rest where ops: "operations c = op # rest" by (cases "operations c") auto
  let ?c = "c\<lparr>operations := rest\<rparr>"
  have "\<exists>c1. resume_handle env op ?c = Inr c1 \<and> operations c1 = rest
      \<and> stop_flag c1 = stop_flag c \<and> switch_spsc c1 = switch_spsc c"
  proof (cases op)
    case Null_handle
    with Suc.prems ops show ?thesis by simp
  next
    case Noop
    then show ?thesis by simp
  next
    case (Coro m)
    from assms(1) obtain c1 where "resume env (Coro m) ?c = Inr c1" "operations c1 = operations ?c"
      "stop_flag c1 = stop_flag ?c" "switch_spsc c1 = switch_spsc ?c"
      unfolding winding_down_def by meson
    with Coro show ?thesis by simp
  qed
  then obtain c1 where c1: "resume_handle env op ?c = Inr c1" "operations c1 = rest"
    "stop_flag c1 = stop_flag c" "switch_spsc c1 = switch_spsc c"
    by blast
  with Suc.IH [of c1] Suc.prems ops show ?case by simp
qed

lemma winding_down_run_once:
  assumes w: "winding_down env conflict" and ops: "Null_handle \<notin> set (operations c)"
    and sw: "fifo_invar 64 (switch_spsc c)" "fifo_list 64 (switch_spsc c) = []"
  shows "\<exists>c'. run_once env conflict False c = Inr c' \<and> operations c' = drop 32 (operations c)
    \<and> stop_flag c' = stop_flag c \<and> switch_spsc c' = switch_spsc c"
proof -
  have "run_once_prepare c = c"
    using switch_queue.deq_empty [OF sw] by (simp add: run_once_prepare_def)
  moreover obtain c1 where c1: "resume_some env (take_batch c) c = Inr c1"
    "operations c1 = drop (take_batch c) (operations c)"
    "stop_flag c1 = stop_flag c" "switch_spsc c1 = switch_spsc c"
    using winding_down_resume_some [OF w _ ops, of "take_batch c"] by (auto simp: take_batch_def)
  moreover obtain c2 where "submit_and_reap env conflict c1 = Inr c2" "operations c2 = operations c1"
    "stop_flag c2 = stop_flag c1" "switch_spsc c2 = switch_spsc c1"
    using w unfolding winding_down_def by meson
  moreover have "drop (take_batch c) (operations c) = drop 32 (operations c)"
    by (simp add: take_batch_def min_def)
  ultimately show ?thesis by (simp add: run_once_def Let_def)
qed


lemma log_env_winding_down: "winding_down log_env True"
  by (auto simp: winding_down_def log_env_def submit_and_reap_def inflight_conflict_workaround_def
      Let_def)


text \<open>Here every round's completions ask for a stop, so \<open>run\<close> ends after one round.\<close>

theorem run_returns_only_when_stopped_witness:
  "\<exists>c'. run (log_env\<lparr>submit := (\<lambda>c. (0, stop c))\<rparr>) True (sample_context []) = Some (Inr c')
     \<and> stop_flag c'"
proof -
  let ?env = "log_env\<lparr>submit := (\<lambda>c. (0, stop c))\<rparr>" and ?c = "(sample_context [])\<lparr>stop_flag := False\<rparr>"
  have prep: "run_once_prepare ?c = ?c"
    by (simp add: run_once_prepare_def sample_context_def fifo_pop_def fifo_new_def Let_def)
  have "run_once ?env True False ?c = Inr (sample_context [])"
    unfolding run_once_def Let_def prep
    by (simp add: take_batch_def log_env_def submit_and_reap_def sample_context_def stop_def
        inflight_conflict_workaround_def)
  then have "run ?env True (sample_context []) = Some (Inr (sample_context []))"
    by (simp add: run_def run_loop.simps [of _ _ ?c] run_loop.simps [of _ _ "sample_context []"])
       (simp add: io_defs sample_context_def)
  with run_returns_only_when_stopped [OF this] show ?thesis by blast
qed

end
