(* ===== verification/IntrusiveMap.thy ===== *)
theory IntrusiveMap
  imports IntrusiveQueue
begin

text \<open>
  \<open>trivial_intrusive_map\<close> (\<open>uring_exec/io_uring_exec_internal.h\<close>): an array of
  \<open>Fixed_bucket_size\<close> = 16 intrusive queues that share one heap of \<open>Next\<close> fields, and the three
  ways to choose a bucket: by the address of an element, round robin, and at random (the random
  number generator is an argument of the code that uses it, see \<open>RunLoop\<close>).

  \<open>map_holds\<close> is the well-formedness of a map: bucket \<open>i\<close> is a chain of the nodes \<open>xss ! i\<close>, and no
  node is in two places. Pushing into a bucket and taking a bucket keep it.
\<close>

section \<open>Choosing a bucket\<close>

definition N_way_concurrency :: size_t where
  "N_way_concurrency = 16"

definition buckets :: nat where
  "buckets = unat N_way_concurrency"

lemma buckets_16 [simp]: "buckets = 16"
  by (simp add: buckets_def N_way_concurrency_def)

text \<open>\<open>operator[](element_type*)\<close>: the address itself modulo the number of buckets.\<close>

definition element_bucket :: "addr \<Rightarrow> nat" where
  "element_bucket element = unat (element mod N_way_concurrency)"

text \<open>\<open>robin_access()[index]\<close>.\<close>

definition robin_bucket :: "size_t \<Rightarrow> nat" where
  "robin_bucket index = unat (index mod N_way_concurrency)"

lemma bucket_mod:
  "element_bucket a = unat a mod 16" "robin_bucket i = unat i mod 16"
  by (simp_all add: element_bucket_def robin_bucket_def N_way_concurrency_def unat_mod)

lemma bucket_bounds [simp]: "element_bucket a < 16" "robin_bucket i < 16"
  by (simp_all add: bucket_mod)

text \<open>Operations are aligned to at least 8 bytes, so their addresses use two of the 16 buckets.\<close>

lemma element_bucket_aligned: "8 dvd unat a \<Longrightarrow> element_bucket a \<in> {0, 8}"
proof -
  assume "8 dvd unat a"
  then obtain k where "unat a = 8 * k" by blast
  then have "element_bucket a = 8 * (k mod 2)"
    using mod_mult_mult1 [of 8 k 2] by (simp add: bucket_mod)
  moreover have "k mod 2 = 0 \<or> k mod 2 = 1" by auto
  ultimately show ?thesis by auto
qed

lemma mod_16_add_cancel:
  "a < 16 \<Longrightarrow> x < 16 \<Longrightarrow> y < 16 \<Longrightarrow> (a + x) mod 16 = (a + y) mod (16 :: nat) \<Longrightarrow> x = y"
  by (auto simp: mod_if split: if_splits)

lemma mod_16_reach: "a < 16 \<Longrightarrow> k < 16 \<Longrightarrow> (a + (k + 16 - a) mod 16) mod 16 = (k :: nat)"
  by (simp add: mod_add_right_eq)

text \<open>The number of buckets divides the range of the counter, so the round robin order survives the
  wrap-around of the counter.\<close>

lemma robin_bucket_add: "robin_bucket (i + of_nat n) = (robin_bucket i + n) mod 16"
proof -
  have "unat (i + of_nat n) = (unat i + n) mod 2 ^ 64"
    by (simp add: unat_word_ariths unat_of_nat take_bit_eq_mod mod_add_right_eq)
  moreover have "(x mod 2 ^ 64) mod 16 = x mod (16 :: nat)" for x
    by (rule mod_mod_cancel) (simp add: dvd_def)
  ultimately show ?thesis by (simp add: bucket_mod mod_add_left_eq)
qed

section \<open>Operations on a map\<close>

text \<open>A map: the shared heap and the heads of the buckets.\<close>

type_synonym iq_map = "heap \<times> addr list"

definition bucket_push :: "nat \<Rightarrow> addr \<Rightarrow> iq_map \<Rightarrow> iq_map" where
  "bucket_push i op m = (let (nx, h) = iq_push op (fst m, snd m ! i) in (nx, (snd m)[i := h]))"

definition bucket_move_all :: "nat \<Rightarrow> iq_map \<Rightarrow> addr \<times> iq_map" where
  "bucket_move_all i m = (let (p, (nx, h)) = iq_move_all (fst m, snd m ! i) in (p, (nx, (snd m)[i := h])))"

section \<open>Well-formed maps\<close>

definition map_holds :: "iq_map \<Rightarrow> addr list list \<Rightarrow> bool" where
  "map_holds m xss \<longleftrightarrow> length (snd m) = buckets \<and> length xss = buckets
     \<and> (\<forall>i < buckets. chain (fst m) (snd m ! i) (xss ! i)) \<and> distinct (concat xss)"

lemma map_holds_empty: "map_holds (nx, replicate 16 null) (replicate 16 [])"
  by (simp add: map_holds_def)

lemma distinct_concat_update:
  assumes "i < length xss" "distinct (concat xss)" "distinct ys"
    and "\<And>y. y \<in> set ys \<Longrightarrow> y \<in> set (xss ! i) \<or> y \<notin> set (concat xss)"
  shows "distinct (concat (xss[i := ys]))"
proof -
  obtain as x bs where xss: "xss = as @ x # bs" "length as = i"
    using id_take_nth_drop [OF assms(1)] assms(1) by (metis length_take min.absorb4)
  then have x: "xss ! i = x" and upd: "xss[i := ys] = as @ ys # bs" by auto
  have "y \<notin> set (concat as) \<and> y \<notin> set (concat bs)" if "y \<in> set ys" for y
    using assms(4) [OF that] assms(2) unfolding x unfolding xss by auto
  then show ?thesis
    using assms(2,3) unfolding upd unfolding xss by auto
qed

lemma distinct_concat_disjoint:
  assumes "distinct (concat xss)" "i < length xss" "j < length xss" "i \<noteq> j"
  shows "set (xss ! i) \<inter> set (xss ! j) = {}"
proof -
  have "set (xss ! i) \<inter> set (xss ! j) = {}" if "i < j" "j < length xss" for i j
  proof -
    have "xss = take j xss @ xss ! j # drop (Suc j) xss" using that(2) by (rule id_take_nth_drop)
    then have "distinct (concat (take j xss) @ xss ! j @ concat (drop (Suc j) xss))"
      using assms(1) by (metis concat.simps(2) concat_append)
    moreover have "xss ! i \<in> set (take j xss)"
      using that by (metis in_set_conv_nth length_take min.absorb4 nth_take)
    ultimately show ?thesis by auto
  qed
  with assms(2-4) show ?thesis by (metis inf_commute linorder_neqE_nat)
qed

lemma map_holds_push:
  assumes "map_holds m xss" "i < 16" "op \<noteq> null" "op \<notin> set (concat xss)"
  shows "map_holds (bucket_push i op m) (xss[i := op # xss ! i])"
proof -
  obtain nx hs where m: "m = (nx, hs)" by force
  have len: "length hs = 16" "length xss = 16"
    using assms(1) by (auto simp: map_holds_def m)
  have ch: "chain nx (hs ! j) (xss ! j)" if "j < 16" for j
    using assms(1) that by (auto simp: map_holds_def m)
  have fresh: "op \<notin> set (xss ! j)" if "j < 16" for j
    using assms(4) that len by auto
  have "chain (nx(op := hs ! i)) (hs[i := op] ! j) (xss[i := op # xss ! i] ! j)" if "j < 16" for j
    using that assms(2,3) ch [OF that] ch [OF assms(2)] fresh [OF that] fresh [OF assms(2)] len
    by (cases "j = i") auto
  moreover have "distinct (concat (xss[i := op # xss ! i]))"
  proof (rule distinct_concat_update)
    show "distinct (op # xss ! i)"
      using chain_distinct [OF ch [OF assms(2)]] fresh [OF assms(2)] by simp
  qed (use assms len in \<open>auto simp: map_holds_def\<close>)
  ultimately show ?thesis
    using len by (simp add: map_holds_def bucket_push_def iq_push_def m Let_def)
qed

lemma map_holds_move_all:
  assumes "map_holds m xss" "i < 16"
  shows "fst (bucket_move_all i m) = snd m ! i" "chain (fst m) (snd m ! i) (xss ! i)"
    "map_holds (snd (bucket_move_all i m)) (xss[i := []])"
proof -
  obtain nx hs where m: "m = (nx, hs)" by force
  have len: "length hs = 16" "length xss = 16"
    using assms(1) by (auto simp: map_holds_def m)
  have ch: "chain nx (hs ! j) (xss ! j)" if "j < 16" for j
    using assms(1) that by (auto simp: map_holds_def m)
  show "fst (bucket_move_all i m) = snd m ! i" "chain (fst m) (snd m ! i) (xss ! i)"
    using ch [OF assms(2)] by (simp_all add: bucket_move_all_def iq_move_all_def m)
  have "chain nx (hs[i := null] ! j) (xss[i := []] ! j)" if "j < 16" for j
    using that assms(2) ch [OF that] len by (cases "j = i") auto
  moreover have "distinct (concat (xss[i := []]))"
    using assms len by (intro distinct_concat_update) (auto simp: map_holds_def)
  ultimately show "map_holds (snd (bucket_move_all i m)) (xss[i := []])"
    using len by (simp add: map_holds_def bucket_move_all_def iq_move_all_def m)
qed

section \<open>Round robin\<close>

text \<open>\<open>start_operation(io_uring_exec*)\<close>: the counter \<open>_store_balance\<close> chooses the bucket.\<close>

definition start_operation :: "addr \<Rightarrow> size_t \<times> iq_map \<Rightarrow> size_t \<times> iq_map" where
  "start_operation operation r =
     (let (store_balance, m) = r in
      (store_balance + 1, bucket_push (robin_bucket store_balance) operation m))"

text \<open>How many of the next \<open>n\<close> values of the counter choose bucket \<open>k\<close>.\<close>

definition robin_load :: "size_t \<Rightarrow> nat \<Rightarrow> nat \<Rightarrow> nat" where
  "robin_load b k n = length (filter (\<lambda>p. robin_bucket (b + of_nat p) = k) [0..<n])"

lemma robin_load_Suc:
  "robin_load b k (Suc n) = robin_load b k n + (if robin_bucket (b + of_nat n) = k then 1 else 0)"
  by (simp add: robin_load_def)

lemma robin_load_add:
  "robin_load b k (m + n) = robin_load b k m + robin_load (b + of_nat m) k n"
  by (induction n) (simp_all add: robin_load_Suc add.assoc, simp add: robin_load_def)

lemma robin_load_small:
  assumes "n \<le> 16" shows "robin_load b k n \<le> 1"
proof -
  have inj: "inj_on (\<lambda>p. robin_bucket (b + of_nat p)) {0..<n}"
  proof (rule inj_onI)
    fix x y assume "x \<in> {0..<n}" "y \<in> {0..<n}"
      and eq: "robin_bucket (b + of_nat x) = robin_bucket (b + of_nat y)"
    with assms have "x < 16" "y < 16" "(robin_bucket b + x) mod 16 = (robin_bucket b + y) mod 16"
      by (auto simp: robin_bucket_add)
    then show "x = y" using mod_16_add_cancel bucket_bounds(2) by blast
  qed
  have "robin_load b k n = card {p \<in> {0..<n}. robin_bucket (b + of_nat p) = k}"
    by (simp add: robin_load_def distinct_length_filter Int_def conj_commute)
  also have "\<dots> = card ((\<lambda>p. robin_bucket (b + of_nat p)) ` {p \<in> {0..<n}. robin_bucket (b + of_nat p) = k})"
    by (rule card_image [symmetric]) (rule inj_on_subset [OF inj], blast)
  also have "\<dots> \<le> card {k}" by (rule card_mono) auto
  finally show ?thesis by simp
qed

lemma robin_load_16:
  assumes "k < 16" shows "robin_load b k 16 = 1"
proof -
  let ?p = "(k + 16 - robin_bucket b) mod 16"
  have "robin_bucket (b + of_nat ?p) = k"
    using mod_16_reach [OF bucket_bounds(2) assms] by (simp only: robin_bucket_add)
  moreover have "?p < 16" by simp
  ultimately have "?p \<in> set (filter (\<lambda>p. robin_bucket (b + of_nat p) = k) [0..<16])"
    by simp
  then have "0 < robin_load b k 16"
    unfolding robin_load_def by (metis length_pos_if_in_set)
  with robin_load_small [of 16 b k] show ?thesis by simp
qed

lemma robin_load_bounds:
  assumes "k < 16" shows "n div 16 \<le> robin_load b k n \<and> robin_load b k n \<le> n div 16 + 1"
proof (induction n arbitrary: b rule: less_induct)
  case (less n)
  show ?case
  proof (cases "n < 16")
    case True
    then show ?thesis using robin_load_small [of n b k] by simp
  next
    case False
    then have n: "n = 16 + (n - 16)" by simp
    have "robin_load b k n = 1 + robin_load (b + of_nat 16) k (n - 16)"
      using robin_load_add [of b k 16 "n - 16"] robin_load_16 [OF assms] n by simp
    moreover have "n div 16 = 1 + (n - 16) div 16" using False by (simp add: le_div_geq)
    ultimately show ?thesis using less.IH [of "n - 16" "b + of_nat 16"] False by simp
  qed
qed

lemma start_operations_hold:
  assumes "map_holds m xss" "distinct ts" "null \<notin> set ts" "set ts \<inter> set (concat xss) = {}"
  shows "\<exists>m' yss. fold start_operation ts (b, m) = (b + of_nat (length ts), m')
    \<and> map_holds m' yss \<and> set (concat yss) = set ts \<union> set (concat xss)
    \<and> (\<forall>k < 16. length (yss ! k) = length (xss ! k) + robin_load b k (length ts))"
  using assms
proof (induction ts arbitrary: b m xss)
  case Nil
  then show ?case by (auto simp: robin_load_def)
next
  case (Cons t ts)
  let ?i = "robin_bucket b" let ?m = "bucket_push ?i t m" let ?xss = "xss[?i := t # xss ! ?i]"
  have len: "length xss = 16" using Cons.prems(1) by (simp add: map_holds_def)
  have set_upd: "set (concat ?xss) = insert t (set (concat xss))"
  proof -
    have "set (concat ?xss) = set (concat (take ?i xss @ (t # xss ! ?i) # drop (Suc ?i) xss))"
      using len by (simp add: upd_conv_take_nth_drop)
    also have "\<dots> = insert t (set (concat (take ?i xss @ xss ! ?i # drop (Suc ?i) xss)))" by auto
    also have "take ?i xss @ xss ! ?i # drop (Suc ?i) xss = xss"
      using len by (simp add: id_take_nth_drop [symmetric])
    finally show ?thesis .
  qed
  have "map_holds ?m ?xss"
    using Cons.prems by (intro map_holds_push) auto
  moreover have "distinct ts" "null \<notin> set ts" "set ts \<inter> set (concat ?xss) = {}"
    using Cons.prems set_upd by auto
  ultimately obtain m' yss where ih: "fold start_operation ts (b + 1, ?m) = (b + 1 + of_nat (length ts), m')"
    "map_holds m' yss" "set (concat yss) = set ts \<union> set (concat ?xss)"
    "\<forall>k < 16. length (yss ! k) = length (?xss ! k) + robin_load (b + 1) k (length ts)"
    using Cons.IH by blast
  have "robin_load b k (Suc n) = (if k = ?i then 1 else 0) + robin_load (b + 1) k n" for k n
    using robin_load_add [of b k 1 n] by (simp add: robin_load_Suc) (simp add: robin_load_def)
  then have "\<forall>k < 16. length (yss ! k) = length (xss ! k) + robin_load b k (length (t # ts))"
    using ih(4) len by (auto simp: nth_list_update)
  moreover have "fold start_operation (t # ts) (b, m) = (b + of_nat (length (t # ts)), m')"
    using ih(1) by (simp add: start_operation_def Let_def algebra_simps)
  moreover have "set (concat yss) = set (t # ts) \<union> set (concat xss)"
    using ih(3) set_upd by simp
  ultimately show ?case using ih(2) by blast
qed

text \<open>
  Scheduling on the shared context (\<open>start_operation(io_uring_exec*)\<close>) spreads tasks evenly
  and keeps the map well formed: after starting any distinct tasks on an empty map, with the
  counter \<open>_store_balance\<close> at any value (its wrap-around included), every task is in
  exactly one bucket, and every bucket holds \<open>n div 16\<close> or \<open>n div 16 + 1\<close> of the \<open>n\<close> tasks.
\<close>

theorem start_operation_balances:
  fixes ts :: "addr list" and b :: size_t
  assumes "distinct ts" and "null \<notin> set ts"
  shows "\<exists>m' yss. fold start_operation ts (b, (nx, replicate 16 null)) = (b + of_nat (length ts), m')
    \<and> map_holds m' yss \<and> set (concat yss) = set ts
    \<and> (\<forall>k < 16. length ts div 16 \<le> length (yss ! k) \<and> length (yss ! k) \<le> length ts div 16 + 1)"
proof -
  from start_operations_hold [OF map_holds_empty assms, of b nx] obtain m' yss where
    "fold start_operation ts (b, (nx, replicate 16 null)) = (b + of_nat (length ts), m')"
    "map_holds m' yss" "set (concat yss) = set ts"
    "\<forall>k < 16. length (yss ! k) = robin_load b k (length ts)"
    by auto
  with robin_load_bounds show ?thesis by auto
qed

theorem start_operation_balances_witness:
  "\<exists>m' yss. fold start_operation [8, 16, 24] (15, (\<lambda>_. 0, replicate 16 null)) = (18, m')
    \<and> map_holds m' yss \<and> set (concat yss) = {8, 16, 24}"
  using start_operation_balances [of "[8, 16, 24]" 15 "\<lambda>_. 0"] by fastforce

text \<open>
  Pulling round robin is fair: any 16 consecutive values of the walltime step, also when the
  counter wraps around, access every bucket of the map exactly once; so a task in the shared map is
  reached within 16 steps of a thread.
\<close>

theorem robin_access_fair:
  fixes step :: size_t
  shows "distinct (map (\<lambda>p. robin_bucket (step + of_nat p)) [0..<16])
    \<and> set (map (\<lambda>p. robin_bucket (step + of_nat p)) [0..<16]) = {..<16}"
proof -
  let ?f = "\<lambda>p. robin_bucket (step + of_nat p)"
  have inj: "inj_on ?f {0..<16}"
    unfolding robin_bucket_add using mod_16_add_cancel [OF bucket_bounds(2)]
    by (intro inj_onI) (auto simp only: atLeastLessThan_iff)
  have "?f ` {0..<16} \<subseteq> {..<16}" using bucket_bounds(2) by blast
  moreover have "card (?f ` {0..<16}) = card {..<16::nat}" using card_image [OF inj] by simp
  ultimately have "?f ` {0..<16} = {..<16}" by (intro card_subset_eq) (auto simp only: finite_lessThan)
  with inj show ?thesis by (simp only: distinct_map distinct_upt set_map set_upt simp_thms)
qed

end
