(* ===== verification/RunLoop.thy ===== *)
theory RunLoop
  imports IntrusiveMap
begin

text \<open>
  The run loop of the sender library: \<open>struct io_uring_exec_run\<close>
  (\<open>uring_exec/io_uring_exec_internal_run.h\<close>).

  The state \<open>exec\<close> joins what one thread's loop reads and writes: the queues of its
  \<open>io_uring_exec_local\<close> and of the shared \<open>io_uring_exec\<close> (\<open>io_uring_exec_internal.h\<close>), the
  counters, and \<open>io\<close>, the part that belongs to the ring and the world. The queues are heap chains
  (\<open>IntrusiveQueue\<close>, \<open>IntrusiveMap\<close>); tasks and operations have separate \<open>Next\<close> fields.

  The virtual calls (\<open>op->vtab.complete\<close> and so on), liburing, the random generator and
  \<open>std::this_thread::yield\<close> are the fields of the argument \<open>run_env\<close>. They are functions on the whole
  state: completing a task may push other tasks or operations. Completion entries are read before
  \<open>io_uring_cq_advance\<close>, so an entry is modelled by its contents, the pair of its \<open>user_data\<close> and
  result. The loops may not end and are \<^theory_text>\<open>partial_function (option)\<close>; a null entry that is written to
  is the fault \<open>Null_deref\<close>.
\<close>

section \<open>State\<close>

record 'k exec =
  task_next :: heap
  op_next :: heap
  attached_queue :: addr
  immediate_map :: "addr list"
  stopping_map :: "addr list"
  store_balance :: size_t
  local_inflight :: size_t
  running_local :: size_t
  walltime_step :: size_t
  runloop_must_have_stopped :: bool
  remote_stop_requested :: bool
  io :: 'k

record 's run_env =
  task_complete :: "addr \<Rightarrow> 's \<Rightarrow> 's"
  task_cancel :: "addr \<Rightarrow> 's \<Rightarrow> 's"
  op_complete :: "addr \<Rightarrow> int \<Rightarrow> 's \<Rightarrow> 's"
  op_restart :: "addr \<Rightarrow> 's \<Rightarrow> 's"
  noop :: addr
  stack_sentinel :: addr
  mt_random :: "'s \<Rightarrow> size_t \<times> 's"
  uring_submit :: "'s \<Rightarrow> int \<times> 's"
  uring_submit_and_wait :: "u32 \<Rightarrow> 's \<Rightarrow> int \<times> 's"
  uring_peek_batch_cqe :: "u32 \<Rightarrow> 's \<Rightarrow> (addr \<times> int) list \<times> 's"
  uring_cq_advance :: "u32 \<Rightarrow> 's \<Rightarrow> 's"
  uring_get_sqe :: "'s \<Rightarrow> addr \<times> 's"
  uring_sqe_set_data :: "addr \<Rightarrow> addr \<Rightarrow> 's \<Rightarrow> 's"
  uring_prep_cancel :: "addr \<Rightarrow> addr \<Rightarrow> u32 \<Rightarrow> 's \<Rightarrow> 's"
  ASYNC_CANCEL_ANY :: u32
  thread_yield :: "'s \<Rightarrow> 's"
  external_stop_requested :: "'s \<Rightarrow> bool"

section \<open>Policies and progress\<close>

record run_policy =
  concurrent :: bool
  weakly_parallel :: bool
  weakly_concurrent :: bool
  p_launch :: bool
  p_submit :: bool
  p_iodone :: bool
  busyloop :: bool
  autoquit :: bool
  waitable :: bool
  detached :: bool
  no_delay :: bool
  blocking :: bool
  locality :: bool
  transfer :: bool
  terminal :: bool
  iodone_batch :: size_t
  iodone_maxnr :: size_t

definition default_policy :: run_policy where
  "default_policy =
     \<lparr>concurrent = True, weakly_parallel = False, weakly_concurrent = False,
      p_launch = True, p_submit = True, p_iodone = True,
      busyloop = False, autoquit = False, waitable = False, detached = False,
      no_delay = False, blocking = False, locality = False,
      transfer = False, terminal = False, iodone_batch = 64, iodone_maxnr = 512\<rparr>"

text \<open>The \<open>static_assert\<close> of \<open>run()\<close>: exactly one progress guarantee.\<close>

definition policy_static_assert :: "run_policy \<Rightarrow> bool" where
  "policy_static_assert policy \<longleftrightarrow>
     of_bool (concurrent policy) + of_bool (weakly_parallel policy)
       + of_bool (weakly_concurrent policy) = (1 :: int)"

record run_progress_info =
  loop_step :: size_t
  launched :: size_t
  submitted :: size_t
  reaped :: size_t

definition run_progress_zero :: run_progress_info where
  "run_progress_zero = \<lparr>loop_step = 0, launched = 0, submitted = 0, reaped = 0\<rparr>"

definition progress_call :: "size_t \<Rightarrow> run_progress_info \<Rightarrow> run_progress_info" where
  "progress_call final_step info = info\<lparr>loop_step := final_step\<rparr>"

text \<open>\<open>operator+=\<close>: the four members as an array of words, added one by one.\<close>

definition progress_add :: "run_progress_info \<Rightarrow> run_progress_info \<Rightarrow> run_progress_info" where
  "progress_add lhs rhs =
     \<lparr>loop_step = loop_step lhs + loop_step rhs, launched = launched lhs + launched rhs,
      submitted = submitted lhs + submitted rhs, reaped = reaped lhs + reaped rhs\<rparr>"

section \<open>Launching tasks\<close>

definition launch_one :: "run_policy \<Rightarrow> ('k, 'z) exec_scheme run_env \<Rightarrow> addr
    \<Rightarrow> size_t \<times> ('k, 'z) exec_scheme \<Rightarrow> size_t \<times> ('k, 'z) exec_scheme" where
  "launch_one policy env op r =
     (let (n, s) = r in
      if terminal policy then (n, task_cancel env op s)
      else (n + 1, task_complete env op s))"

text \<open>\<open>safe_for_each\<close>: the next pointer is read before \<open>op\<close> is completed.\<close>

partial_function (option) safe_for_each ::
    "(addr \<Rightarrow> size_t \<times> ('k, 'z) exec_scheme \<Rightarrow> size_t \<times> ('k, 'z) exec_scheme) \<Rightarrow> addr
     \<Rightarrow> size_t \<times> ('k, 'z) exec_scheme \<Rightarrow> (size_t \<times> ('k, 'z) exec_scheme) option" where
  "safe_for_each f op r =
     (if op = null then Some r
      else safe_for_each f (iq_next (task_next (snd r)) op) (f op r))"

text \<open>\<open>launch\<close>, after \<open>move_all\<close> has returned \<open>op\<close>.\<close>

definition launch :: "run_policy \<Rightarrow> ('k, 'z) exec_scheme run_env \<Rightarrow> addr
    \<Rightarrow> size_t \<times> ('k, 'z) exec_scheme \<Rightarrow> (size_t \<times> ('k, 'z) exec_scheme) option" where
  "launch policy env op r =
     (let (n, s) = r in
      if \<not> locality policy
      then Option.bind (make_fifo (stack_sentinel env) (task_next s) op)
        (\<lambda>(nx, p). safe_for_each (launch_one policy env) p (n, s\<lparr>task_next := nx\<rparr>))
      else safe_for_each (launch_one policy env) op (n, s))"

definition take_attached :: "('k, 'z) exec_scheme \<Rightarrow> addr \<times> ('k, 'z) exec_scheme" where
  "take_attached s = (let (p, (nx, h)) = iq_move_all (task_next s, attached_queue s)
     in (p, s\<lparr>task_next := nx, attached_queue := h\<rparr>))"

definition take_immediate :: "nat \<Rightarrow> ('k, 'z) exec_scheme \<Rightarrow> addr \<times> ('k, 'z) exec_scheme" where
  "take_immediate i s = (let (p, (nx, hs)) = bucket_move_all i (task_next s, immediate_map s)
     in (p, s\<lparr>task_next := nx, immediate_map := hs\<rparr>))"

definition launch_phase :: "run_policy \<Rightarrow> ('k, 'z) exec_scheme run_env
    \<Rightarrow> ('k, 'z) exec_scheme \<Rightarrow> (size_t \<times> ('k, 'z) exec_scheme) option" where
  "launch_phase policy env s =
     (if \<not> p_launch policy then Some (0, s)
      else let (op, s1) = take_attached s in
        Option.bind (launch policy env op (0, s1)) (\<lambda>(n, s2).
          if transfer policy then Some (n, s2)
          else let (op, s3) = take_immediate (robin_bucket (walltime_step s2)) s2 in
            Option.bind (launch policy env op (n, s3)) (\<lambda>(n, s4).
              let (r, s5) = mt_random env s4; (op, s6) = take_immediate (unat r) s5
              in launch policy env op (n, s6))))"

section \<open>Submitting\<close>

definition submit_phase :: "run_policy \<Rightarrow> ('k, 'z) exec_scheme run_env
    \<Rightarrow> ('k, 'z) exec_scheme \<Rightarrow> size_t \<times> ('k, 'z) exec_scheme" where
  "submit_phase policy env s =
     (if \<not> p_submit policy then (0, s)
      else let (n, s1) = (if waitable policy then uring_submit_and_wait env 1 s else uring_submit env s)
        in (of_int n, s1))"

section \<open>Completions\<close>

text \<open>The virtual calls; \<open>noop\<close> is the operation whose functions do nothing.\<close>

definition vtab_complete :: "('k, 'z) exec_scheme run_env \<Rightarrow> addr \<Rightarrow> int
    \<Rightarrow> ('k, 'z) exec_scheme \<Rightarrow> ('k, 'z) exec_scheme" where
  "vtab_complete env op res s = (if op = noop env then s else op_complete env op res s)"

definition vtab_restart :: "('k, 'z) exec_scheme run_env \<Rightarrow> addr
    \<Rightarrow> ('k, 'z) exec_scheme \<Rightarrow> ('k, 'z) exec_scheme" where
  "vtab_restart env op s = (if op = noop env then s else op_restart env op s)"

definition consume_one :: "run_policy \<Rightarrow> ('k, 'z) exec_scheme run_env \<Rightarrow> addr \<times> int
    \<Rightarrow> ('k, 'z) exec_scheme \<Rightarrow> ('k, 'z) exec_scheme" where
  "consume_one policy env cqe s =
     (if transfer policy then vtab_restart env (fst cqe) s
      else vtab_complete env (fst cqe) (snd cqe) s)"

definition consume_some :: "run_policy \<Rightarrow> ('k, 'z) exec_scheme run_env \<Rightarrow> (addr \<times> int) list
    \<Rightarrow> ('k, 'z) exec_scheme \<Rightarrow> ('k, 'z) exec_scheme" where
  "consume_some policy env cqes s = fold (consume_one policy env) cqes s"

definition greedy :: "run_policy \<Rightarrow> size_t \<Rightarrow> u32 \<Rightarrow> bool" where
  "greedy policy d some =
     (if transfer policy \<or> terminal policy then False
      else if d > iodone_maxnr policy then True
      else if ucast some \<noteq> iodone_batch policy then \<not> no_delay policy
      else False)"

partial_function (option) iodone_loop :: "run_policy \<Rightarrow> ('k, 'z) exec_scheme run_env \<Rightarrow> size_t
    \<Rightarrow> ('k, 'z) exec_scheme \<Rightarrow> (size_t \<times> ('k, 'z) exec_scheme) option" where
  "iodone_loop policy env d s =
     (let (cqes, s1) = uring_peek_batch_cqe env (ucast (iodone_batch policy)) s;
          some = of_nat (length cqes) :: u32
      in if \<not> some > 0 then Some (d, s1)
         else let s2 = uring_cq_advance env some (consume_some policy env cqes s1);
                  d2 = d + ucast some;
                  s3 = s2\<lparr>local_inflight := local_inflight s2 - ucast some\<rparr>
           in if greedy policy d2 some then Some (d2, s3) else iodone_loop policy env d2 s3)"

definition iodone_phase :: "run_policy \<Rightarrow> ('k, 'z) exec_scheme run_env
    \<Rightarrow> ('k, 'z) exec_scheme \<Rightarrow> (size_t \<times> ('k, 'z) exec_scheme) option" where
  "iodone_phase policy env s =
     (if p_iodone policy then iodone_loop policy env 0 s else Some (0, s))"

section \<open>Cancelling operations whose stop was requested\<close>

definition stopping_push_all :: "nat \<Rightarrow> addr \<Rightarrow> (addr \<Rightarrow> bool) \<Rightarrow> ('k, 'z) exec_scheme
    \<Rightarrow> ('k, 'z) exec_scheme option" where
  "stopping_push_all i first predicate s =
     map_option (\<lambda>(nx, h). s\<lparr>op_next := nx, stopping_map := (stopping_map s)[i := h]\<rparr>)
       (iq_push_all first predicate (op_next s, stopping_map s ! i))"

partial_function (option) cancel_loop :: "('k, 'z) exec_scheme run_env \<Rightarrow> nat \<Rightarrow> addr
    \<Rightarrow> ('k, 'z) exec_scheme \<Rightarrow> ('k, 'z) exec_scheme option" where
  "cancel_loop env i op s =
     (if op = null then Some s
      else let (sqe, s1) = uring_get_sqe env s in
        if sqe = null then stopping_push_all i op (\<lambda>node. node \<noteq> null) s1
        else let s2 = uring_prep_cancel env sqe op 0 (uring_sqe_set_data env sqe (noop env) s1);
                 s3 = s2\<lparr>local_inflight := local_inflight s2 + 1\<rparr>;
                 nxt = iq_next (op_next s3) op
          in cancel_loop env i nxt (s3\<lparr>op_next := iq_clear op (op_next s3)\<rparr>))"

definition cancel_phase :: "run_policy \<Rightarrow> ('k, 'z) exec_scheme run_env
    \<Rightarrow> ('k, 'z) exec_scheme \<Rightarrow> ('k, 'z) exec_scheme option" where
  "cancel_phase policy env s =
     (if blocking policy then Some s
      else let i = robin_bucket (walltime_step s);
               (op, (nx, hs)) = bucket_move_all i (op_next s, stopping_map s)
        in cancel_loop env i op (s\<lparr>op_next := nx, stopping_map := hs\<rparr>))"

section \<open>One step\<close>

definition run_step :: "run_policy \<Rightarrow> ('k, 'z) exec_scheme run_env
    \<Rightarrow> ('k, 'z) exec_scheme \<Rightarrow> (run_progress_info \<times> ('k, 'z) exec_scheme) option" where
  "run_step policy env s =
     Option.bind (launch_phase policy env s) (\<lambda>(l, s1).
       let (n, s2) = submit_phase policy env s1 in
       Option.bind (iodone_phase policy env s2) (\<lambda>(d, s3).
         Option.bind (cancel_phase policy env s3) (\<lambda>s4.
           Some (\<lparr>loop_step = 0, launched = l, submitted = n, reaped = d\<rparr>, s4))))"

text \<open>\<open>run\<close> for a policy with \<open>weakly_parallel\<close>: it returns after its first step, before the
  progress of that step is added.\<close>

definition run_weakly :: "run_policy \<Rightarrow> ('k, 'z) exec_scheme run_env
    \<Rightarrow> ('k, 'z) exec_scheme \<Rightarrow> (run_progress_info \<times> ('k, 'z) exec_scheme) option" where
  "run_weakly policy env s =
     (if runloop_must_have_stopped s then Some (progress_call 0 run_progress_zero, s)
      else Option.bind (run_step policy env s)
        (\<lambda>(one, s1). Some (progress_call 1 run_progress_zero, s1)))"

definition submit_destructive_command :: "('k, 'z) exec_scheme run_env
    \<Rightarrow> ('k, 'z) exec_scheme \<Rightarrow> ('k, 'z) exec_scheme result" where
  "submit_destructive_command env s =
     (let s1 = snd (uring_submit env s); (sqe, s2) = uring_get_sqe env s1
      in if sqe = null then Inl Null_deref
         else Inr (snd (uring_submit env (uring_prep_cancel env sqe null (ASYNC_CANCEL_ANY env)
                (uring_sqe_set_data env sqe (noop env) s2)))))"

definition terminal_policy :: run_policy where
  "terminal_policy = default_policy\<lparr>concurrent := False, weakly_parallel := True, terminal := True\<rparr>"

definition transfer_policy :: run_policy where
  "transfer_policy = default_policy\<lparr>concurrent := False, weakly_parallel := True, transfer := True\<rparr>"

definition inplace_terminal_run :: "('k, 'z) exec_scheme run_env
    \<Rightarrow> ('k, 'z) exec_scheme \<Rightarrow> ('k, 'z) exec_scheme result option" where
  "inplace_terminal_run env s =
     (case submit_destructive_command env s of
        Inl e \<Rightarrow> Some (Inl e)
      | Inr s1 \<Rightarrow> map_option (\<lambda>(info, s2). Inr s2) (run_weakly terminal_policy env s1))"

definition transfer_run :: "('k, 'z) exec_scheme run_env
    \<Rightarrow> ('k, 'z) exec_scheme \<Rightarrow> ('k, 'z) exec_scheme result option" where
  "transfer_run env s =
     (case submit_destructive_command env s of
        Inl e \<Rightarrow> Some (Inl e)
      | Inr s1 \<Rightarrow> map_option (\<lambda>(info, s2). Inr s2) (run_weakly transfer_policy env s1))"

text \<open>\<open>terminal_run\<close>: ask the other threads to stop, wait until this is the only local context left,
  then cancel in place.\<close>

partial_function (option) wait_running :: "('k, 'z) exec_scheme run_env
    \<Rightarrow> ('k, 'z) exec_scheme \<Rightarrow> ('k, 'z) exec_scheme option" where
  "wait_running env s =
     (if running_local s > 1 then wait_running env (thread_yield env s) else Some s)"

definition terminal_run :: "('k, 'z) exec_scheme run_env
    \<Rightarrow> ('k, 'z) exec_scheme \<Rightarrow> ('k, 'z) exec_scheme result option" where
  "terminal_run env s =
     Option.bind (wait_running env (s\<lparr>remote_stop_requested := True\<rparr>)) (inplace_terminal_run env)"

section \<open>The loop\<close>

partial_function (option) run_steps :: "run_policy \<Rightarrow> ('k, 'z) exec_scheme run_env
    \<Rightarrow> run_progress_info \<Rightarrow> size_t \<Rightarrow> ('k, 'z) exec_scheme
    \<Rightarrow> (run_progress_info \<times> ('k, 'z) exec_scheme) result option" where
  "run_steps policy env info step s =
     Option.bind (run_step policy env s) (\<lambda>(one, s1).
       if weakly_parallel policy then Some (Inr (progress_call step info, s1))
       else let any_progress = (launched one \<noteq> 0 \<or> submitted one \<noteq> 0 \<or> reaped one \<noteq> 0);
                info1 = progress_add info one
         in if weakly_concurrent policy \<and> any_progress then Some (Inr (progress_call step info1, s1))
            else if external_stop_requested env s1 then Some (Inr (progress_call step info1, s1))
            else if \<not> detached policy \<and> remote_stop_requested s1
            then map_option (\<lambda>r. and_then r (\<lambda>s2.
                   Inr (progress_call step info1, s2\<lparr>runloop_must_have_stopped := True\<rparr>)))
                 (inplace_terminal_run env s1)
            else if autoquit policy \<and> local_inflight s1 = 0
            then Some (Inr (progress_call step info1, s1))
            else let s2 = (if \<not> busyloop policy \<and> \<not> any_progress then thread_yield env s1 else s1)
              in run_steps policy env info1 (step + 1) (s2\<lparr>walltime_step := walltime_step s2 + 1\<rparr>))"

definition run_exec :: "run_policy \<Rightarrow> ('k, 'z) exec_scheme run_env \<Rightarrow> ('k, 'z) exec_scheme
    \<Rightarrow> (run_progress_info \<times> ('k, 'z) exec_scheme) result option" where
  "run_exec policy env s =
     (if runloop_must_have_stopped s then Some (Inr (progress_call 0 run_progress_zero, s))
      else run_steps policy env run_progress_zero 1 s)"

text \<open>The two descriptions of a weakly parallel run agree.\<close>

lemma run_exec_weakly_parallel:
  "weakly_parallel policy \<Longrightarrow> run_exec policy env s = map_option Inr (run_weakly policy env s)"
  by (cases "run_step policy env s") (auto simp: run_exec_def run_weakly_def run_steps.simps)

lemma policies [simp]:
  "terminal terminal_policy" "weakly_parallel terminal_policy" "\<not> transfer terminal_policy"
  "p_launch terminal_policy" "p_submit terminal_policy" "p_iodone terminal_policy"
  "\<not> locality terminal_policy" "\<not> blocking terminal_policy" "\<not> waitable terminal_policy"
  "transfer transfer_policy" "weakly_parallel transfer_policy" "\<not> terminal transfer_policy"
  "p_launch transfer_policy" "p_submit transfer_policy" "p_iodone transfer_policy"
  "\<not> locality transfer_policy" "\<not> blocking transfer_policy" "\<not> waitable transfer_policy"
  "policy_static_assert terminal_policy" "policy_static_assert transfer_policy"
  "policy_static_assert default_policy"
  by (simp_all add: terminal_policy_def transfer_policy_def default_policy_def
      policy_static_assert_def)

end
