(* ===== verification/RunLoopProps.thy ===== *)
theory RunLoopProps
  imports RunLoop
begin

text \<open>
  What the run loop guarantees (\<open>RunLoop\<close>): the order and multiplicity in which tasks are launched,
  the bound on completions per step, the accounting of operations in flight, the hand-over
  of cancellations, and how a run ends.

  Hypotheses on the surroundings are stated with \<open>only_io\<close>: a call changes nothing but the part
  \<open>io\<close> of the state that belongs to the ring and the world.
\<close>

section \<open>Hypotheses on the surroundings\<close>

definition only_io :: "('k, 'z) exec_scheme \<Rightarrow> ('k, 'z) exec_scheme \<Rightarrow> bool" where
  "only_io s s' \<longleftrightarrow> s' = s\<lparr>io := io s'\<rparr>"

text \<open>Calls into liburing, the random generator and \<open>yield\<close> do not touch the members of the context.\<close>

definition library_calls_only_io :: "('k, 'z) exec_scheme run_env \<Rightarrow> bool" where
  "library_calls_only_io env \<longleftrightarrow>
     (\<forall>s. only_io s (snd (uring_submit env s)) \<and> only_io s (snd (uring_get_sqe env s))
       \<and> only_io s (snd (mt_random env s)))
     \<and> (\<forall>s n. only_io s (snd (uring_submit_and_wait env n s))
         \<and> only_io s (snd (uring_peek_batch_cqe env n s)) \<and> only_io s (uring_cq_advance env n s))
     \<and> (\<forall>s e d f. only_io s (uring_sqe_set_data env e d s)
         \<and> only_io s (uring_prep_cancel env e d f s))"

lemma only_io_refl [simp]: "only_io s s"
  by (simp add: only_io_def)

lemma only_io_fields:
  assumes "only_io s s'"
  shows "task_next s' = task_next s" "op_next s' = op_next s"
    "attached_queue s' = attached_queue s" "immediate_map s' = immediate_map s"
    "stopping_map s' = stopping_map s" "local_inflight s' = local_inflight s"
    "walltime_step s' = walltime_step s" "running_local s' = running_local s"
    "runloop_must_have_stopped s' = runloop_must_have_stopped s"
    "remote_stop_requested s' = remote_stop_requested s"
  using assms unfolding only_io_def by (metis exec.ext_inject exec.surjective exec.update_convs(12))+

lemma only_io_trans:
  assumes "only_io s t" "only_io t u" shows "only_io s u"
proof -
  have "t = s\<lparr>io := io t\<rparr>" "u = t\<lparr>io := io u\<rparr>" using assms by (simp_all add: only_io_def)
  then have "u = s\<lparr>io := io t, io := io u\<rparr>" by metis
  then show ?thesis by (simp add: only_io_def)
qed

section \<open>A concrete context\<close>

text \<open>For the witnesses: a ring with completions \<open>w_ready\<close> and \<open>w_free\<close> submission entries, whose
  operations and tasks only write a log.\<close>

record world =
  w_tasks :: "(bool \<times> addr) list"
  w_done :: "(addr \<times> int) list"
  w_ready :: "(addr \<times> int) list"
  w_free :: nat
  w_cancelled :: "addr list"
  w_outstanding :: size_t

definition upd_io :: "('k \<Rightarrow> 'k) \<Rightarrow> ('k, 'z) exec_scheme \<Rightarrow> ('k, 'z) exec_scheme" where
  "upd_io f s = s\<lparr>io := f (io s)\<rparr>"

definition sample_env :: "world exec run_env" where
  "sample_env =
     \<lparr>task_complete = (\<lambda>op. upd_io (\<lambda>w. w\<lparr>w_tasks := w_tasks w @ [(True, op)]\<rparr>)),
      task_cancel = (\<lambda>op. upd_io (\<lambda>w. w\<lparr>w_tasks := w_tasks w @ [(False, op)]\<rparr>)),
      op_complete = (\<lambda>op res. upd_io (\<lambda>w. w\<lparr>w_done := w_done w @ [(op, res)]\<rparr>)),
      op_restart = (\<lambda>op s. s),
      noop = 1, stack_sentinel = 2,
      mt_random = (\<lambda>s. (3, s)),
      uring_submit = (\<lambda>s. (0, s)),
      uring_submit_and_wait = (\<lambda>n s. (0, s)),
      uring_peek_batch_cqe = (\<lambda>n s. (take (unat n) (w_ready (io s)), s)),
      uring_cq_advance = (\<lambda>n. upd_io (\<lambda>w. w\<lparr>w_ready := drop (unat n) (w_ready w),
        w_outstanding := w_outstanding w - ucast n\<rparr>)),
      uring_get_sqe = (\<lambda>s. if w_free (io s) = 0 then (null, s)
        else (64, upd_io (\<lambda>w. w\<lparr>w_free := w_free w - 1, w_outstanding := w_outstanding w + 1\<rparr>) s)),
      uring_sqe_set_data = (\<lambda>e d s. s),
      uring_prep_cancel = (\<lambda>e op f. upd_io (\<lambda>w. w\<lparr>w_cancelled := w_cancelled w @ [op]\<rparr>)),
      ASYNC_CANCEL_ANY = 4,
      thread_yield = (\<lambda>s. s),
      external_stop_requested = (\<lambda>s. False)\<rparr>"

definition sample_world :: world where
  "sample_world = \<lparr>w_tasks = [], w_done = [], w_ready = [], w_free = 8, w_cancelled = [],
     w_outstanding = 0\<rparr>"

definition sample_exec :: "world \<Rightarrow> world exec" where
  "sample_exec w = \<lparr>task_next = (\<lambda>_. 0), op_next = (\<lambda>_. 0), attached_queue = 0,
     immediate_map = replicate 16 0, stopping_map = replicate 16 0, store_balance = 0,
     local_inflight = 0, running_local = 1, walltime_step = 5,
     runloop_must_have_stopped = False, remote_stop_requested = False, io = w\<rparr>"

lemma upd_io_simps [simp]:
  "io (upd_io f s) = f (io s)" "task_next (upd_io f s) = task_next s"
  "op_next (upd_io f s) = op_next s" "attached_queue (upd_io f s) = attached_queue s"
  "immediate_map (upd_io f s) = immediate_map s" "stopping_map (upd_io f s) = stopping_map s"
  "local_inflight (upd_io f s) = local_inflight s" "only_io s (upd_io f s)"
  by (simp_all add: upd_io_def only_io_def)

lemma sample_library_calls: "library_calls_only_io sample_env"
  by (simp add: library_calls_only_io_def sample_env_def)

section \<open>Launching\<close>

lemma safe_for_each_fold:
  assumes "chain (task_next (snd r)) p ys"
    and "\<And>op r a. op \<in> set ys \<Longrightarrow> a \<in> set ys \<Longrightarrow> a \<noteq> op \<Longrightarrow>
           task_next (snd (f op r)) a = task_next (snd r) a"
  shows "safe_for_each f p r = Some (fold f ys r)"
  using assms
proof (induction ys arbitrary: p r)
  case Nil
  then show ?case by (simp add: safe_for_each.simps)
next
  case (Cons y ys)
  then have p: "p = y" "y \<noteq> null" and tail: "chain (task_next (snd r)) (task_next (snd r) y) ys"
    by auto
  from tail p have y: "y \<notin> set ys" by (auto dest: chain_suffix_notin)
  have "chain (task_next (snd (f y r))) (task_next (snd r) y) ys"
    using tail Cons.prems(2) [of y _ r] y by (subst seg_cong [where nx' = "task_next (snd r)"]) auto
  from Cons.IH [OF this] Cons.prems(2)
  have "safe_for_each f (task_next (snd r) y) (f y r) = Some (fold f ys (f y r))" by simp
  with p show ?case by (simp add: safe_for_each.simps [of f y] iq_next_def)
qed

lemma fold_launch_one:
  assumes "\<And>op t. tr (io (task_complete env op t)) = tr (io t) @ [(True, op)]"
    and "\<And>op t. tr (io (task_cancel env op t)) = tr (io t) @ [(False, op)]"
  shows "fst (fold (launch_one policy env) ys (n, s))
      = (if terminal policy then n else n + of_nat (length ys))
    \<and> tr (io (snd (fold (launch_one policy env) ys (n, s))))
      = tr (io s) @ map (Pair (\<not> terminal policy)) ys"
  using assms
  by (induction ys arbitrary: n s) (auto simp: launch_one_def)

lemma launch_folds:
  assumes ch: "chain (task_next s) op xs"
    and sentinel: "stack_sentinel env \<noteq> null" "stack_sentinel env \<notin> set xs"
    and frame: "\<And>x t a. x \<in> set xs \<Longrightarrow> a \<in> set xs \<Longrightarrow> a \<noteq> x \<Longrightarrow>
      task_next (task_complete env x t) a = task_next t a
      \<and> task_next (task_cancel env x t) a = task_next t a"
  shows "\<exists>nx. launch policy env op (n, s)
      = Some (fold (launch_one policy env) (if locality policy then xs else rev xs) (n, s\<lparr>task_next := nx\<rparr>))
    \<and> (\<forall>a. a \<notin> set xs \<and> a \<noteq> stack_sentinel env \<longrightarrow> nx a = task_next s a)"
proof (cases "locality policy")
  case True
  have "safe_for_each (launch_one policy env) op (n, s) = Some (fold (launch_one policy env) xs (n, s))"
    using ch frame by (intro safe_for_each_fold) (auto simp: launch_one_def split: prod.splits)
  with True show ?thesis by (intro exI [of _ "task_next s"]) (simp add: launch_def)
next
  case False
  from make_fifo_correct [OF ch sentinel] obtain nx p where
    mf: "make_fifo (stack_sentinel env) (task_next s) op = Some (nx, p)" "chain nx p (rev xs)"
    "\<forall>a. a \<notin> set xs \<and> a \<noteq> stack_sentinel env \<longrightarrow> nx a = task_next s a" by blast
  have "safe_for_each (launch_one policy env) p (n, s\<lparr>task_next := nx\<rparr>)
      = Some (fold (launch_one policy env) (rev xs) (n, s\<lparr>task_next := nx\<rparr>))"
    using mf(2) frame by (intro safe_for_each_fold) (auto simp: launch_one_def split: prod.splits)
  with False mf show ?thesis by (auto simp: launch_def)
qed



section \<open>Reaping\<close>

lemma iodone_loop_bounded:
  fixes env :: "('k, 'z) exec_scheme run_env"
  assumes pol: "\<not> transfer policy" "\<not> terminal policy"
    and size: "unat (iodone_maxnr policy) + unat (iodone_batch policy) < 2 ^ 32"
    and peek: "\<And>s. length (fst (uring_peek_batch_cqe env (ucast (iodone_batch policy)) s))
      \<le> unat (iodone_batch policy)"
    and d: "d \<le> iodone_maxnr policy"
  shows "\<exists>d' s'. iodone_loop policy env d s = Some (d', s')
    \<and> unat d' \<le> unat (iodone_maxnr policy) + unat (iodone_batch policy)"
  using d
proof (induction "unat (iodone_maxnr policy) - unat d" arbitrary: d s rule: less_induct)
  case less
  obtain cqes s1 where pk: "uring_peek_batch_cqe env (ucast (iodone_batch policy)) s = (cqes, s1)"
    by force
  let ?some = "of_nat (length cqes) :: u32"
  have len: "length cqes \<le> unat (iodone_batch policy)" using peek [of s] by (simp add: pk)
  then have some: "unat ?some = length cqes"
    using size by (intro unat_count) simp
  have ds: "unat d \<le> unat (iodone_maxnr policy)" using less.prems by (simp add: word_le_nat_alt)
  show ?case
  proof (cases "?some > 0")
    case False
    then show ?thesis using ds by (subst iodone_loop.simps) (simp add: pk)
  next
    case True
    let ?d = "d + ucast ?some"
    have "unat d + unat (ucast ?some :: size_t) < 2 ^ 64"
      using ds len size some by simp
    then have d2: "unat ?d = unat d + length cqes"
      using some by (simp add: unat_word_ariths)
    have pos: "0 < length cqes" using True some by (simp add: word_less_nat_alt)
    show ?thesis
    proof (cases "greedy policy ?d ?some")
      case True': True
      show ?thesis
        using True True' d2 ds len by (subst iodone_loop.simps) (simp add: pk Let_def)
    next
      case False
      then have le: "?d \<le> iodone_maxnr policy" using pol by (auto simp: greedy_def split: if_splits)
      then have "unat ?d \<le> unat (iodone_maxnr policy)" by (simp add: word_le_nat_alt)
      then have "unat (iodone_maxnr policy) - unat ?d < unat (iodone_maxnr policy) - unat d"
        using d2 pos by linarith
      from less.hyps [OF this le] False True show ?thesis
        by (subst iodone_loop.simps) (simp add: pk Let_def)
    qed
  qed
qed

text \<open>
  One step reaps a bounded number of completions, however fast new ones arrive and whatever the
  completed operations do: under every policy that neither transfers nor terminates, the loop over
  \<open>io_uring_peek_batch_cqe\<close> returns, and \<open>done\<close> is at most \<open>iodone_maxnr\<close> plus one batch
  (576 for the default policy, although \<open>iodone_maxnr\<close> = 512 is described as the maximum).
\<close>

theorem iodone_phase_bounded:
  fixes env :: "('k, 'z) exec_scheme run_env"
  assumes pol: "\<not> transfer policy" "\<not> terminal policy"
    and size: "unat (iodone_maxnr policy) + unat (iodone_batch policy) < 2 ^ 32"
    and peek: "\<And>s. length (fst (uring_peek_batch_cqe env (ucast (iodone_batch policy)) s))
      \<le> unat (iodone_batch policy)"
  shows "\<exists>d s'. iodone_phase policy env s = Some (d, s')
    \<and> unat d \<le> unat (iodone_maxnr policy) + unat (iodone_batch policy)"
proof (cases "p_iodone policy")
  case True
  with iodone_loop_bounded [OF assms, of 0 s] show ?thesis by (simp add: iodone_phase_def)
next
  case False
  then show ?thesis by (simp add: iodone_phase_def)
qed

theorem iodone_phase_bounded_witness:
  "\<exists>d s'. iodone_phase default_policy sample_env
       (sample_exec (sample_world\<lparr>w_ready := [(8, 1), (1, 0), (16, -5)]\<rparr>)) = Some (d, s') \<and> unat d \<le> 576"
  using iodone_phase_bounded [of default_policy sample_env
      "sample_exec (sample_world\<lparr>w_ready := [(8, 1), (1, 0), (16, -5)]\<rparr>)"]
  by (simp add: sample_env_def default_policy_def)

text \<open>What holds before the loop and is kept by each round holds when the loop returns.\<close>

lemma iodone_loop_rule:
  fixes J :: "size_t \<Rightarrow> ('k, 'z) exec_scheme \<Rightarrow> bool"
  assumes run: "iodone_loop policy env d s = Some (d', s')" and init: "J d s"
    and none: "\<And>d s cqes s1. J d s \<Longrightarrow>
      uring_peek_batch_cqe env (ucast (iodone_batch policy)) s = (cqes, s1) \<Longrightarrow>
      (of_nat (length cqes) :: u32) = 0 \<Longrightarrow> J d s1"
    and more: "\<And>d s cqes s1 s2. J d s \<Longrightarrow>
      uring_peek_batch_cqe env (ucast (iodone_batch policy)) s = (cqes, s1) \<Longrightarrow>
      s2 = uring_cq_advance env (of_nat (length cqes)) (consume_some policy env cqes s1) \<Longrightarrow>
      J (d + ucast (of_nat (length cqes) :: u32))
        (s2\<lparr>local_inflight := local_inflight s2 - ucast (of_nat (length cqes) :: u32)\<rparr>)"
  shows "J d' s'"
proof -
  have "policy' = policy \<longrightarrow> env' = env \<longrightarrow> J d s \<longrightarrow> J (fst r) (snd r)"
    if "iodone_loop policy' env' d s = Some r" for policy' env' d s r
  proof (rule iodone_loop.raw_induct [where P = "\<lambda>policy' env' d s r.
      policy' = policy \<longrightarrow> env' = env \<longrightarrow> J d s \<longrightarrow> J (fst r) (snd r)", OF _ that], goal_cases)
    case (1 loop policy' env' d s r)
    show ?case
    proof (intro impI)
      assume eq: "policy' = policy" "env' = env" and J: "J d s"
      obtain cqes s1 where pk: "uring_peek_batch_cqe env (ucast (iodone_batch policy)) s = (cqes, s1)"
        by force
      let ?some = "of_nat (length cqes) :: u32" let ?d = "d + ucast ?some"
      let ?s3 = "let s2 = uring_cq_advance env ?some (consume_some policy env cqes s1) in
           s2\<lparr>local_inflight := local_inflight s2 - ucast ?some\<rparr>"
      show "J (fst r) (snd r)"
      proof (cases "?some > 0")
        case False
        then have "?some = 0" by (simp add: word_gt_0)
        from none [OF J pk this] 1(2) eq pk False show ?thesis by (auto simp: Let_def)
      next
        case True
        with 1(2) eq pk have "(if greedy policy ?d ?some then Some (?d, ?s3) else loop policy env ?d ?s3) = Some r"
          by (simp only: pk Let_def prod.case if_True not_True_eq_False if_False)
        moreover have "J ?d ?s3" unfolding Let_def by (rule more [OF J pk refl])
        ultimately show ?thesis using 1(1) by (auto split: if_splits)
      qed
    qed
  qed
  from this [OF run] init show ?thesis by simp
qed

text \<open>
  The queue of completions as the loop sees it. \<open>ready\<close> is what the ring holds; peeking returns up
  to the requested number of its front, advancing drops them, and running a completed
  operation may only make more of them arrive. \<open>tr\<close> is the log of completed operations.
\<close>

definition completion_queue :: "('k, 'z) exec_scheme run_env \<Rightarrow> ('k \<Rightarrow> (addr \<times> int) list)
    \<Rightarrow> ('k \<Rightarrow> (addr \<times> int) list) \<Rightarrow> bool" where
  "completion_queue env ready tr \<longleftrightarrow>
     (\<forall>n s. \<exists>s'. uring_peek_batch_cqe env n s = (take (unat n) (ready (io s)), s')
        \<and> ready (io s') = ready (io s) \<and> tr (io s') = tr (io s))
     \<and> (\<forall>n s. ready (io (uring_cq_advance env n s)) = drop (unat n) (ready (io s))
        \<and> tr (io (uring_cq_advance env n s)) = tr (io s))
     \<and> (\<forall>op res s. (\<exists>new. ready (io (op_complete env op res s)) = ready (io s) @ new)
        \<and> tr (io (op_complete env op res s)) = tr (io s) @ [(op, res)])"

lemma consume_some_log:
  assumes "completion_queue env ready tr" "\<not> transfer policy"
  shows "(\<exists>new. ready (io (consume_some policy env cqes s)) = ready (io s) @ new)
    \<and> tr (io (consume_some policy env cqes s)) = tr (io s) @ filter (\<lambda>c. fst c \<noteq> noop env) cqes"
proof (induction cqes arbitrary: s)
  case Nil
  then show ?case by (simp add: consume_some_def)
next
  case (Cons c cqes)
  let ?s = "consume_one policy env c s"
  have "\<exists>new. ready (io ?s) = ready (io s) @ new"
    "tr (io ?s) = tr (io s) @ filter (\<lambda>c. fst c \<noteq> noop env) [c]"
    using assms by (simp_all add: consume_one_def vtab_complete_def completion_queue_def)
  with Cons [of ?s] show ?case by (auto simp: consume_some_def)
qed

text \<open>\<open>k\<close> entries of \<open>q\<close> and of what arrived have been consumed.\<close>

definition consumed :: "addr \<Rightarrow> (addr \<times> int) list \<Rightarrow> nat \<Rightarrow> (addr \<times> int) list
    \<Rightarrow> (addr \<times> int) list \<Rightarrow> bool" where
  "consumed nop q k lg rest \<longleftrightarrow> (\<exists>arrived. lg = filter (\<lambda>c. fst c \<noteq> nop) (take k (q @ arrived))
     \<and> rest = drop k (q @ arrived) \<and> k \<le> length (q @ arrived))"

lemma consumed_0: "consumed nop q 0 [] (q @ new)"
  unfolding consumed_def by (intro exI [of _ new]) simp

lemma consumed_round:
  assumes "consumed nop q k lg mid" and j: "j \<le> length mid"
  shows "consumed nop q (k + j) (lg @ filter (\<lambda>c. fst c \<noteq> nop) (take j mid)) (drop j mid @ new)"
proof -
  from assms(1) obtain a where a: "lg = filter (\<lambda>c. fst c \<noteq> nop) (take k (q @ a))"
    "mid = drop k (q @ a)" "k \<le> length (q @ a)" by (auto simp: consumed_def)
  have le: "k + j \<le> length (q @ a)" using a(3) j unfolding a(2) by simp
  have "take (k + j) ((q @ a) @ new) = take k (q @ a) @ take j mid"
    using le take_add [of k j "q @ a"] by (simp only: take_append a(2)) simp
  moreover have "drop (k + j) (q @ a) = drop j mid"
    unfolding a(2) drop_drop by (simp only: add.commute)
  then have "drop (k + j) ((q @ a) @ new) = drop j mid @ new"
    using le by (subst drop_append) simp
  moreover note le a(1)
  ultimately show ?thesis
    unfolding consumed_def by (intro exI [of _ "a @ new"]) simp
qed

lemma iodone_round:
  assumes "completion_queue env ready tr" "\<not> transfer policy"
    and pk: "uring_peek_batch_cqe env (ucast (iodone_batch policy)) s = (cqes, s1)"
    and s2: "s2 = uring_cq_advance env (of_nat (length cqes)) (consume_some policy env cqes s1)"
  shows "length cqes < 2 ^ 32 \<and> cqes = take (length cqes) (ready (io s))
    \<and> (\<exists>new. ready (io s2) = drop (length cqes) (ready (io s)) @ new)
    \<and> tr (io s2) = tr (io s) @ filter (\<lambda>c. fst c \<noteq> noop env) cqes
    \<and> ready (io s1) = ready (io s) \<and> tr (io s1) = tr (io s)"
proof -
  let ?n = "ucast (iodone_batch policy) :: u32"
  have cq: "cqes = take (unat ?n) (ready (io s))" "ready (io s1) = ready (io s)" "tr (io s1) = tr (io s)"
    using assms(1) pk unfolding completion_queue_def by (metis prod.inject)+
  have "length cqes \<le> unat ?n" using cq(1) by simp
  moreover have "unat ?n < 2 ^ 32" using unsigned_less [of ?n] by simp
  ultimately have len: "length cqes < 2 ^ 32" by linarith
  then have un: "unat (of_nat (length cqes) :: u32) = length cqes" by (intro unat_count) simp
  obtain new where new: "ready (io (consume_some policy env cqes s1)) = ready (io s) @ new"
    "tr (io (consume_some policy env cqes s1)) = tr (io s) @ filter (\<lambda>c. fst c \<noteq> noop env) cqes"
    using consume_some_log [OF assms(1,2), of cqes s1] cq by auto
  have adv: "ready (io s2) = drop (length cqes) (ready (io s) @ new)"
    "tr (io s2) = tr (io s) @ filter (\<lambda>c. fst c \<noteq> noop env) cqes"
    using assms(1) new un by (simp_all add: completion_queue_def s2)
  moreover have "length cqes \<le> length (ready (io s))" using cq(1) by simp
  moreover have "cqes = take (length cqes) (ready (io s))"
    unfolding cq(1) by (cases "unat ?n \<le> length (ready (io s))") simp_all
  ultimately show ?thesis using len cq(2,3)
    by (intro conjI) (simp_all only: append_same_eq drop_append, simp_all)
qed

lemma iodone_loop_consumes:
  fixes env :: "('k, 'z) exec_scheme run_env"
  assumes run: "iodone_loop policy env d s = Some r"
    and q: "completion_queue env ready tr" and nt: "\<not> transfer policy"
  shows "\<exists>k lg. tr (io (snd r)) = tr (io s) @ lg \<and> fst r = d + of_nat k
    \<and> consumed (noop env) (ready (io s)) k lg (ready (io (snd r)))"
proof -
  define J where "J d' s' \<longleftrightarrow> (\<exists>k lg. tr (io s') = tr (io s) @ lg \<and> d' = d + of_nat k
    \<and> consumed (noop env) (ready (io s)) k lg (ready (io s')))" for d' and s' :: "('k, 'z) exec_scheme"
  from run have run': "iodone_loop policy env d s = Some (fst r, snd r)" by simp
  have "J (fst r) (snd r)"
  proof (rule iodone_loop_rule [where J = J, OF run'])
    show "J d s" unfolding J_def using consumed_0 [of "noop env" "ready (io s)" "[]"]
      by (intro exI [of _ 0] exI [of _ "[]"]) simp
  next
    fix d' t cqes t1
    assume J: "J d' t" and pk: "uring_peek_batch_cqe env (ucast (iodone_batch policy)) t = (cqes, t1)"
      and "(of_nat (length cqes) :: u32) = 0"
    with iodone_round [OF q nt pk refl] show "J d' t1" by (simp add: J_def)
  next
    fix d' t cqes t1 t2
    assume J: "J d' t" and pk: "uring_peek_batch_cqe env (ucast (iodone_batch policy)) t = (cqes, t1)"
      and t2: "t2 = uring_cq_advance env (of_nat (length cqes)) (consume_some policy env cqes t1)"
    note rd = iodone_round [OF q nt pk t2]
    let ?some = "of_nat (length cqes) :: u32"
    have cast: "(ucast ?some :: size_t) = of_nat (length cqes)"
      using rd by (simp add: word_unat_eq_iff unat_count)
    have le: "length cqes \<le> length (ready (io t))" using rd by (metis length_take min.cobounded1)
    obtain new where new: "ready (io t2) = drop (length cqes) (ready (io t)) @ new" using rd by blast
    from J obtain k lg where kl: "tr (io t) = tr (io s) @ lg" "d' = d + of_nat k"
      "consumed (noop env) (ready (io s)) k lg (ready (io t))" by (auto simp: J_def)
    have "cqes = take (length cqes) (ready (io t))" using rd by blast
    with consumed_round [OF kl(3) le, of new] new
    have con: "consumed (noop env) (ready (io s)) (k + length cqes)
        (lg @ filter (\<lambda>c. fst c \<noteq> noop env) cqes) (ready (io t2))" by metis
    have "tr (io t2) = tr (io s) @ lg @ filter (\<lambda>c. fst c \<noteq> noop env) cqes"
      using rd kl(1) by simp
    with con kl(2) cast
    show "J (d' + ucast ?some) (t2\<lparr>local_inflight := local_inflight t2 - ucast ?some\<rparr>)"
      unfolding J_def by (intro exI [of _ "k + length cqes"]
        exI [of _ "lg @ filter (\<lambda>c. fst c \<noteq> noop env) cqes"]) (simp add: add.assoc)
  qed
  then show ?thesis by (simp add: J_def)
qed

text \<open>
  Reaping completes each operation exactly once, with its own result, in the order of the
  completion queue: what the loop has completed is the front of what the ring held or received
  meanwhile (entries of the \<open>noop\<close> operation aside), and what is left in the ring is exactly the rest.
\<close>

theorem iodone_completes_in_order:
  fixes env :: "('k, 'z) exec_scheme run_env"
  assumes "iodone_loop policy env d s = Some (d', s')"
    and "completion_queue env ready tr" and "\<not> transfer policy"
  shows "\<exists>k arrived. tr (io s')
      = tr (io s) @ filter (\<lambda>c. fst c \<noteq> noop env) (take k (ready (io s) @ arrived))
    \<and> ready (io s') = drop k (ready (io s) @ arrived) \<and> d' = d + of_nat k
    \<and> k \<le> length (ready (io s) @ arrived)"
  using iodone_loop_consumes [OF assms] unfolding consumed_def by fastforce

theorem iodone_completes_in_order_witness:
  "\<exists>rest. w_done (io (snd (the (iodone_loop default_policy sample_env 0
     (sample_exec (sample_world\<lparr>w_ready := [(8, 1), (1, 0), (16, -5)]\<rparr>)))))) = [(8, 1), (16, -5)] @ rest"
proof -
  let ?s = "sample_exec (sample_world\<lparr>w_ready := [(8, 1), (1, 0), (16, -5)]\<rparr>)"
  have q: "completion_queue sample_env w_ready w_done"
    by (simp add: completion_queue_def sample_env_def upd_io_def)
  have run: "\<exists>s'. iodone_loop default_policy sample_env 0 ?s = Some (3, s') \<and> w_ready (io s') = []"
    by (subst iodone_loop.simps) (simp add: sample_env_def default_policy_def sample_exec_def
        greedy_def consume_some_def consume_one_def vtab_complete_def)
  then obtain s' where s': "iodone_loop default_policy sample_env 0 ?s = Some (3, s')"
    "w_ready (io s') = []" by blast
  have nt: "\<not> transfer default_policy" by (simp add: default_policy_def)
  have smp: "w_done (io ?s) = []" "w_ready (io ?s) = [(8, 1), (1, 0), (16, -5)]" "noop sample_env = 1"
    by (simp_all add: sample_exec_def sample_world_def sample_env_def)
  from iodone_completes_in_order [OF s'(1) q nt, unfolded smp s'(2)] obtain k arrived where
    k: "w_done (io s') = [] @ filter (\<lambda>c. fst c \<noteq> 1) (take k ([(8, 1), (1, 0), (16, -5)] @ arrived))"
    "[] = drop k ([(8, 1), (1, 0), (16, -5)] @ arrived)"
    by blast
  then have "w_done (io s') = filter (\<lambda>c. fst c \<noteq> 1) ([(8, 1), (1, 0), (16, -5)] @ arrived)" by simp
  with s'(1) show ?thesis by simp
qed

end
