(* ===== verification/RunLoopEnd.thy ===== *)
theory RunLoopEnd
  imports RunLoopProps
begin

text \<open>
  More of the run loop's guarantees (\<open>RunLoop\<close>): handing over cancellations without losing any,
  the accounting of operations in flight, and the end of a context: what a terminal run reaches,
  what is left once a loop has seen the stop request, and why a run returns.
\<close>

section \<open>Cancellation requests\<close>

text \<open>The submission queue has \<open>free\<close> entries left; \<open>canc\<close> logs the targets of cancel requests.\<close>

definition sq_supply :: "('k, 'z) exec_scheme run_env \<Rightarrow> ('k \<Rightarrow> nat) \<Rightarrow> ('k \<Rightarrow> addr list) \<Rightarrow> bool" where
  "sq_supply env free canc \<longleftrightarrow>
     (\<forall>s. only_io s (snd (uring_get_sqe env s))
        \<and> (fst (uring_get_sqe env s) = null \<longleftrightarrow> free (io s) = 0)
        \<and> free (io (snd (uring_get_sqe env s))) = free (io s) - 1
        \<and> canc (io (snd (uring_get_sqe env s))) = canc (io s))
     \<and> (\<forall>e d s. only_io s (uring_sqe_set_data env e d s)
        \<and> free (io (uring_sqe_set_data env e d s)) = free (io s)
        \<and> canc (io (uring_sqe_set_data env e d s)) = canc (io s))
     \<and> (\<forall>e op f s. only_io s (uring_prep_cancel env e op f s)
        \<and> free (io (uring_prep_cancel env e op f s)) = free (io s)
        \<and> canc (io (uring_prep_cancel env e op f s)) = canc (io s) @ [op])"

lemma cancel_loop_step:
  assumes sup: "sq_supply env free canc" and op: "op \<noteq> null"
  shows "\<exists>s1. only_io s s1 \<and> free (io s1) = free (io s) - 1 \<and> canc (io s1) = canc (io s) @ [op]
      \<and> (0 < free (io s) \<longrightarrow> cancel_loop env i op s = cancel_loop env i (op_next s op)
           (s1\<lparr>local_inflight := local_inflight s1 + 1, op_next := (op_next s)(op := null)\<rparr>))"
    and "\<exists>s1. only_io s s1 \<and> canc (io s1) = canc (io s)
      \<and> (free (io s) = 0 \<longrightarrow> cancel_loop env i op s = stopping_push_all i op (\<lambda>node. node \<noteq> null) s1)"
proof -
  obtain sqe s1 where g: "uring_get_sqe env s = (sqe, s1)" by force
  let ?s2 = "uring_prep_cancel env sqe op 0 (uring_sqe_set_data env sqe (noop env) s1)"
  have s1: "only_io s s1" "sqe = null \<longleftrightarrow> free (io s) = 0" "free (io s1) = free (io s) - 1"
    "canc (io s1) = canc (io s)"
    using sup g unfolding sq_supply_def by (metis fst_conv snd_conv)+
  have s2: "only_io s1 ?s2" "free (io ?s2) = free (io s1)" "canc (io ?s2) = canc (io s1) @ [op]"
    using sup only_io_trans unfolding sq_supply_def by metis+
  have s12: "only_io s ?s2" by (rule only_io_trans [OF s1(1) s2(1)])
  then have nx: "op_next ?s2 = op_next s" by (rule only_io_fields)
  have "cancel_loop env i op s = cancel_loop env i (op_next s op)
      (?s2\<lparr>local_inflight := local_inflight ?s2 + 1, op_next := (op_next s)(op := null)\<rparr>)"
    if "0 < free (io s)"
    using that op s1(2) by (subst cancel_loop.simps) (simp add: g nx Let_def iq_next_def iq_clear_def)
  with s12 s1 s2 show "\<exists>s1. only_io s s1 \<and> free (io s1) = free (io s) - 1 \<and> canc (io s1) = canc (io s) @ [op]
      \<and> (0 < free (io s) \<longrightarrow> cancel_loop env i op s = cancel_loop env i (op_next s op)
           (s1\<lparr>local_inflight := local_inflight s1 + 1, op_next := (op_next s)(op := null)\<rparr>))"
    by (intro exI [of _ ?s2]) simp
  have "cancel_loop env i op s = stopping_push_all i op (\<lambda>node. node \<noteq> null) s1"
    if "free (io s) = 0"
    using that op s1(2) by (subst cancel_loop.simps) (simp add: g)
  with s1 show "\<exists>s1. only_io s s1 \<and> canc (io s1) = canc (io s)
      \<and> (free (io s) = 0 \<longrightarrow> cancel_loop env i op s = stopping_push_all i op (\<lambda>node. node \<noteq> null) s1)"
    by (intro exI [of _ s1]) simp
qed

lemma cancel_loop_hands_over:
  fixes s :: "('k, 'z) exec_scheme"
  assumes sup: "sq_supply env free canc"
    and "chain (op_next s) op xs" "i < length (stopping_map s)" "stopping_map s ! i = null"
  shows "\<exists>s'. cancel_loop env i op s = Some s'
    \<and> canc (io s') = canc (io s) @ take (free (io s)) xs
    \<and> chain (op_next s') (stopping_map s' ! i) (drop (free (io s)) xs)
    \<and> local_inflight s' = local_inflight s + of_nat (min (free (io s)) (length xs))
    \<and> (\<forall>j. j \<noteq> i \<longrightarrow> stopping_map s' ! j = stopping_map s ! j)
    \<and> length (stopping_map s') = length (stopping_map s)
    \<and> (\<forall>a. a \<notin> set xs \<longrightarrow> op_next s' a = op_next s a)
    \<and> (\<forall>a \<in> set (take (free (io s)) xs). op_next s' a = null)"
  using assms(2-)
proof (induction xs arbitrary: op s)
  case Nil
  then show ?case by (simp add: cancel_loop.simps)
next
  case (Cons x xs)
  then have op: "op = x" "x \<noteq> null" and tail: "chain (op_next s) (op_next s x) xs" by auto
  then have x: "x \<notin> set xs" by (auto dest: chain_suffix_notin)
  show ?case
  proof (cases "free (io s)")
    case 0
    from cancel_loop_step(2) [OF sup op(2), of s i] 0 obtain s1 where s1: "only_io s s1"
      "canc (io s1) = canc (io s)"
      "cancel_loop env i x s = stopping_push_all i x (\<lambda>node. node \<noteq> null) s1" by blast
    note f = only_io_fields [OF s1(1)]
    have "chain (op_next s) x (x # xs)" using Cons.prems(1) op by simp
    from push_all_nonnull_id [OF this, of null "[]"] obtain nx p where
      "iq_push_all x (\<lambda>node. node \<noteq> null) (op_next s, null) = Some (nx, p)"
      "chain nx p (x # xs)" "\<forall>a. a \<notin> set (x # xs) \<longrightarrow> nx a = op_next s a" by auto
    with s1 op 0 Cons.prems(2,3) show ?thesis
      by (simp add: stopping_push_all_def f)
  next
    case (Suc n)
    from cancel_loop_step(1) [OF sup op(2), of s i] Suc obtain s1 where s1: "only_io s s1"
      "free (io s1) = n" "canc (io s1) = canc (io s) @ [x]"
      "cancel_loop env i x s = cancel_loop env i (op_next s x)
         (s1\<lparr>local_inflight := local_inflight s1 + 1, op_next := (op_next s)(x := null)\<rparr>)" by auto
    note f = only_io_fields [OF s1(1)]
    let ?s2 = "s1\<lparr>local_inflight := local_inflight s1 + 1, op_next := (op_next s)(x := null)\<rparr>"
    have "chain (op_next ?s2) (op_next s x) xs" "i < length (stopping_map ?s2)" "stopping_map ?s2 ! i = null"
      using tail x Cons.prems by (simp_all add: f)
    from Cons.IH [OF this] s1 op x Suc show ?thesis by (auto simp: f)
  qed
qed

text \<open>
  C10. Cancellation requests are handed over without loss: one step takes the bucket
  of the stopping map that is due, and makes a cancel request for each of its operations, in
  order, as long as submission entries are left; each of them counts as in flight; the operations
  that found no entry are back in the bucket, and the other buckets and their links are untouched.
\<close>

theorem cancel_phase_hands_over:
  fixes s :: "('k, 'z) exec_scheme"
  assumes sup: "sq_supply env free canc" and nb: "\<not> blocking policy"
    and wf: "map_holds (op_next s, stopping_map s) xss"
  defines "i \<equiv> robin_bucket (walltime_step s)" and "n \<equiv> free (io s)"
  shows "\<exists>s'. cancel_phase policy env s = Some s'
    \<and> canc (io s') = canc (io s) @ take n (xss ! i)
    \<and> map_holds (op_next s', stopping_map s') (xss[i := drop n (xss ! i)])
    \<and> local_inflight s' = local_inflight s + of_nat (min n (length (xss ! i)))"
proof -
  have i: "i < 16" by (simp add: i_def)
  let ?s = "s\<lparr>stopping_map := (stopping_map s)[i := null]\<rparr>"
  have wf': "length (stopping_map s) = 16" "length xss = 16" "distinct (concat xss)"
    using wf by (simp_all add: map_holds_def)
  have chs: "chain (op_next s) (stopping_map s ! j) (xss ! j)" if "j < 16" for j
    using wf that by (simp add: map_holds_def)
  have eq: "cancel_phase policy env s = cancel_loop env i (stopping_map s ! i) ?s"
    using nb by (simp add: cancel_phase_def i_def bucket_move_all_def iq_move_all_def Let_def)
  from cancel_loop_hands_over [OF sup, of ?s "stopping_map s ! i" "xss ! i" i] chs [OF i] i wf'
  obtain s' where s': "cancel_phase policy env s = Some s'"
    "canc (io s') = canc (io s) @ take n (xss ! i)"
    "chain (op_next s') (stopping_map s' ! i) (drop n (xss ! i))"
    "local_inflight s' = local_inflight s + of_nat (min n (length (xss ! i)))"
    "\<forall>j. j \<noteq> i \<longrightarrow> stopping_map s' ! j = (stopping_map s)[i := null] ! j"
    "length (stopping_map s') = 16" "\<forall>a. a \<notin> set (xss ! i) \<longrightarrow> op_next s' a = op_next s a"
    by (auto simp: eq n_def)
  have "chain (op_next s') (stopping_map s' ! j) (xss[i := drop n (xss ! i)] ! j)" if j: "j < 16" for j
  proof (cases "j = i")
    case True
    with s'(3) i wf' show ?thesis by simp
  next
    case False
    have "set (xss ! j) \<inter> set (xss ! i) = {}"
      using distinct_concat_disjoint [OF wf'(3)] False i j wf'(2) by simp
    then have "chain (op_next s') (stopping_map s ! j) (xss ! j)"
      using chs [OF j] s'(7) by (subst seg_cong [where nx' = "op_next s"]) auto
    with False s'(5) show ?thesis by simp
  qed
  moreover have "distinct (concat (xss[i := drop n (xss ! i)]))"
    using i wf' chain_distinct [OF chs [OF i]] set_drop_subset
    by (intro distinct_concat_update) (auto intro: distinct_drop dest: in_set_dropD)
  ultimately show ?thesis using s' wf' by (auto simp: map_holds_def)
qed

theorem cancel_phase_hands_over_witness:
  "\<exists>s'. cancel_phase default_policy sample_env
      ((sample_exec (sample_world\<lparr>w_free := 1\<rparr>))\<lparr>op_next := (\<lambda>_. 0)(16 := 8),
        stopping_map := (replicate 16 0)[5 := 16]\<rparr>) = Some s'
    \<and> w_cancelled (io s') = [16] \<and> local_inflight s' = 1"
proof -
  let ?s = "(sample_exec (sample_world\<lparr>w_free := 1\<rparr>))\<lparr>op_next := (\<lambda>_. 0)(16 := 8),
        stopping_map := (replicate 16 0)[5 := 16]\<rparr>"
  let ?xss = "(replicate 16 [])[5 := [16, 8]]"
  have sup: "sq_supply sample_env w_free w_cancelled"
    by (simp add: sq_supply_def sample_env_def)
  have "map_holds (bucket_push 5 8 ((\<lambda>_. 0), replicate 16 null)) ((replicate 16 [])[5 := 8 # replicate 16 [] ! 5])"
    by (rule map_holds_push [OF map_holds_empty]) simp_all
  then have "map_holds (bucket_push 5 8 ((\<lambda>_. 0), replicate 16 null)) ((replicate 16 [])[5 := [8]])" by simp
  moreover have "16 \<notin> set (concat ((replicate 16 [])[5 := [8 :: addr]]))"
    using set_update_subset_insert [of "replicate 16 []" 5 "[8 :: addr]"] by fastforce
  ultimately have "map_holds (bucket_push 5 16 (bucket_push 5 8 ((\<lambda>_. 0), replicate 16 null)))
      ((replicate 16 [])[5 := [8], 5 := 16 # (replicate 16 [])[5 := [8]] ! 5])"
    by (intro map_holds_push) simp_all
  then have wf: "map_holds (op_next ?s, stopping_map ?s) ?xss"
    by (simp add: bucket_push_def iq_push_def fun_upd_idem)
  have i: "robin_bucket (walltime_step ?s) = 5" by (simp add: sample_exec_def bucket_mod)
  have nb: "\<not> blocking default_policy" by (simp add: default_policy_def)
  from cancel_phase_hands_over [OF sup nb wf] show ?thesis
    unfolding i by (auto simp: sample_exec_def sample_world_def)
qed

section \<open>Operations in flight\<close>

text \<open>\<open>out\<close> counts the submission entries that were obtained minus the completions that were consumed.\<close>

definition exact :: "('k \<Rightarrow> size_t) \<Rightarrow> ('k, 'z) exec_scheme \<Rightarrow> bool" where
  "exact out s \<longleftrightarrow> local_inflight s = out (io s)"

text \<open>Tasks and operations keep the account (they call \<open>add_inflight\<close> for each entry they get), and
  liburing hands out one entry per successful \<open>io_uring_get_sqe\<close>.\<close>

definition accounted :: "('k, 'z) exec_scheme run_env \<Rightarrow> ('k \<Rightarrow> size_t) \<Rightarrow> bool" where
  "accounted env out \<longleftrightarrow>
     (\<forall>op s. exact out s \<longrightarrow> exact out (task_complete env op s) \<and> exact out (task_cancel env op s)
        \<and> exact out (op_restart env op s) \<and> (\<forall>res. exact out (op_complete env op res s)))
     \<and> (\<forall>s. out (io (snd (uring_submit env s))) = out (io s)
        \<and> (\<forall>n. out (io (snd (uring_submit_and_wait env n s))) = out (io s)
              \<and> out (io (snd (uring_peek_batch_cqe env n s))) = out (io s)
              \<and> out (io (uring_cq_advance env n s)) = out (io s) - ucast n)
        \<and> out (io (snd (mt_random env s))) = out (io s)
        \<and> out (io (snd (uring_get_sqe env s)))
            = out (io s) + (if fst (uring_get_sqe env s) = null then 0 else 1))
     \<and> (\<forall>s e d f. out (io (uring_sqe_set_data env e d s)) = out (io s)
        \<and> out (io (uring_prep_cancel env e d f s)) = out (io s))"

text \<open>An invariant of the calls is one of the loops.\<close>

lemma safe_for_each_inv:
  assumes "safe_for_each f p r = Some r'" "P (snd r)" "\<And>op r. P (snd r) \<Longrightarrow> P (snd (f op r))"
  shows "P (snd r')"
proof -
  have "(\<forall>op r. P (snd r) \<longrightarrow> P (snd (f op r))) \<longrightarrow> P (snd r) \<longrightarrow> P (snd r')"
  proof (rule safe_for_each.raw_induct [where P = "\<lambda>f p r r'.
      (\<forall>op r. P (snd r) \<longrightarrow> P (snd (f op r))) \<longrightarrow> P (snd r) \<longrightarrow> P (snd r')", OF _ assms(1)], goal_cases)
    case (1 loop f p r r')
    show ?case
    proof (intro impI)
      assume f: "\<forall>op r. P (snd r) \<longrightarrow> P (snd (f op r))" and r: "P (snd r)"
      show "P (snd r')"
      proof (cases "p = null")
        case True
        with 1(2) r show ?thesis by simp
      next
        case False
        with 1(2) have "loop f (iq_next (task_next (snd r)) p) (f p r) = Some r'" by simp
        from 1(1) [OF this] f r show ?thesis by blast
      qed
    qed
  qed
  with assms(2,3) show ?thesis by blast
qed

lemma launch_inv:
  assumes "launch policy env op r = Some r'" "P (snd r)"
    and "\<And>op s. P s \<Longrightarrow> P (task_complete env op s)" "\<And>op s. P s \<Longrightarrow> P (task_cancel env op s)"
    and "\<And>s nx. P s \<Longrightarrow> P (s\<lparr>task_next := nx\<rparr>)"
  shows "P (snd r')"
proof -
  have one: "P (snd (launch_one policy env op r))" if "P (snd r)" for op r
    using that assms(3,4) by (auto simp: launch_one_def split: prod.splits)
  show ?thesis
  proof (cases "locality policy")
    case True
    with assms(1) have "safe_for_each (launch_one policy env) op r = Some r'"
      by (simp add: launch_def split: prod.splits)
    from safe_for_each_inv [where P = P, OF this assms(2) one] show ?thesis .
  next
    case False
    with assms(1) obtain nx p where
      "safe_for_each (launch_one policy env) p (fst r, (snd r)\<lparr>task_next := nx\<rparr>) = Some r'"
      by (auto simp: launch_def bind_eq_Some_conv split: prod.splits)
    from safe_for_each_inv [where P = P, OF this _ one] assms(2,5) show ?thesis by simp
  qed
qed

lemma take_fields:
  "take_attached s = (attached_queue s, s\<lparr>attached_queue := null\<rparr>)"
  "take_immediate i s = (immediate_map s ! i, s\<lparr>immediate_map := (immediate_map s)[i := null]\<rparr>)"
  by (simp_all add: take_attached_def take_immediate_def iq_move_all_def bucket_move_all_def)

lemma launch_phase_cases:
  assumes "launch_phase policy env s = Some (n, s')"
  obtains "\<not> p_launch policy" "s' = s"
  | "transfer policy" "launch policy env (attached_queue s) (0, s\<lparr>attached_queue := null\<rparr>) = Some (n, s')"
  | n1 s1 n2 s2 r s3 where
    "launch policy env (attached_queue s) (0, s\<lparr>attached_queue := null\<rparr>) = Some (n1, s1)"
    "launch policy env (immediate_map s1 ! robin_bucket (walltime_step s1))
      (n1, s1\<lparr>immediate_map := (immediate_map s1)[robin_bucket (walltime_step s1) := null]\<rparr>) = Some (n2, s2)"
    "mt_random env s2 = (r, s3)"
    "launch policy env (immediate_map s3 ! unat r)
      (n2, s3\<lparr>immediate_map := (immediate_map s3)[unat r := null]\<rparr>) = Some (n, s')"
proof (cases "p_launch policy")
  case False
  with assms that(1) show ?thesis by (simp add: launch_phase_def)
next
  case True
  with assms obtain n1 s1 where l1: "launch policy env (attached_queue s) (0, s\<lparr>attached_queue := null\<rparr>) = Some (n1, s1)"
    and rest: "(if transfer policy then Some (n1, s1)
          else let (op, s3) = take_immediate (robin_bucket (walltime_step s1)) s1 in
            Option.bind (launch policy env op (n1, s3)) (\<lambda>(n, s4).
              let (r, s5) = mt_random env s4; (op, s6) = take_immediate (unat r) s5
              in launch policy env op (n, s6))) = Some (n, s')"
    by (auto simp: launch_phase_def take_fields(1) bind_eq_Some_conv)
  show ?thesis
  proof (cases "transfer policy")
    case True
    with rest l1 that(2) show ?thesis by simp
  next
    case False
    obtain n4 s4 where l2: "launch policy env (immediate_map s1 ! robin_bucket (walltime_step s1))
        (n1, s1\<lparr>immediate_map := (immediate_map s1)[robin_bucket (walltime_step s1) := null]\<rparr>) = Some (n4, s4)"
      and rest2: "(let (r, s5) = mt_random env s4; (op, s6) = take_immediate (unat r) s5
              in launch policy env op (n4, s6)) = Some (n, s')"
      using rest False by (auto simp: take_fields(2) bind_eq_Some_conv)
    obtain r s5 where r: "mt_random env s4 = (r, s5)" by force
    from rest2 have "launch policy env (immediate_map s5 ! unat r)
        (n4, s5\<lparr>immediate_map := (immediate_map s5)[unat r := null]\<rparr>) = Some (n, s')"
      by (simp add: r take_fields(2) Let_def)
    with l1 l2 r that(3) show ?thesis by blast
  qed
qed

lemma launch_phase_inv:
  assumes run: "launch_phase policy env s = Some (n, s')" and "P s"
    and calls: "\<And>op s. P s \<Longrightarrow> P (task_complete env op s)" "\<And>op s. P s \<Longrightarrow> P (task_cancel env op s)"
    and rnd: "\<And>s. P s \<Longrightarrow> P (snd (mt_random env s))"
    and nx: "\<And>s nx. P s \<Longrightarrow> P (s\<lparr>task_next := nx\<rparr>)"
    and att: "\<And>s h. P s \<Longrightarrow> P (s\<lparr>attached_queue := h\<rparr>)"
    and im: "\<And>s hs. P s \<Longrightarrow> P (s\<lparr>immediate_map := hs\<rparr>)"
  shows "P s'"
proof -
  note inv = launch_inv [where P = P, OF _ _ calls nx]
  show ?thesis
    using run
  proof (cases rule: launch_phase_cases)
    case 1
    with assms(2) show ?thesis by simp
  next
    case 2
    from inv [OF 2(2)] assms(2) att show ?thesis by simp
  next
    case (3 n1 s1 n2 s2 r s3)
    from inv [OF 3(1)] assms(2) att have "P s1" by simp
    with inv [OF 3(2)] im have "P s2" by simp
    with rnd [of s2] 3(3) have "P s3" by simp
    with inv [OF 3(4)] im show ?thesis by simp
  qed
qed

lemma run_step_cases:
  assumes "run_step policy env s = Some (info, s')"
  obtains l s1 n s2 d s3 where "launch_phase policy env s = Some (l, s1)"
    "submit_phase policy env s1 = (n, s2)" "iodone_phase policy env s2 = Some (d, s3)"
    "cancel_phase policy env s3 = Some s'"
    "info = \<lparr>loop_step = 0, launched = l, submitted = n, reaped = d\<rparr>"
proof -
  from assms obtain l s1 where l: "launch_phase policy env s = Some (l, s1)"
    and rest: "(let (n, s2) = submit_phase policy env s1 in
       Option.bind (iodone_phase policy env s2) (\<lambda>(d, s3).
         Option.bind (cancel_phase policy env s3) (\<lambda>s4.
           Some (\<lparr>loop_step = 0, launched = l, submitted = n, reaped = d\<rparr>, s4)))) = Some (info, s')"
    by (auto simp: run_step_def bind_eq_Some_conv)
  obtain n s2 where n: "submit_phase policy env s1 = (n, s2)" by force
  with rest l that show ?thesis by (auto simp: bind_eq_Some_conv)
qed

lemma iodone_loop_inv:
  assumes "iodone_loop policy env d s = Some r" "P s"
    and "\<And>n s. P s \<Longrightarrow> P (snd (uring_peek_batch_cqe env n s))"
    and "\<And>c s. P s \<Longrightarrow> P (consume_one policy env c s)"
    and "\<And>n s. P s \<Longrightarrow> P (let s2 = uring_cq_advance env n s in
           s2\<lparr>local_inflight := local_inflight s2 - ucast n\<rparr>)"
  shows "P (snd r)"
proof -
  have consume: "P (consume_some policy env cqes s)" if "P s" for cqes s
    using that unfolding consume_some_def by (induction cqes arbitrary: s) (auto intro: assms(4))
  have peek: "P s1" if "P s" "uring_peek_batch_cqe env n s = (cqes, s1)" for s n cqes s1
    using assms(3) [OF that(1), of n] that(2) by simp
  from assms(1) have "iodone_loop policy env d s = Some (fst r, snd r)" by simp
  from iodone_loop_rule [where J = "\<lambda>_. P", OF this assms(2)] show ?thesis
    using peek assms(5) [OF consume] by (simp add: Let_def)
qed

lemma stopping_push_all_only:
  "stopping_push_all i p predicate s = Some s' \<Longrightarrow> local_inflight s' = local_inflight s \<and> io s' = io s
     \<and> immediate_map s' = immediate_map s"
  by (auto simp: stopping_push_all_def)

text \<open>An invariant of handing over one operation, and of putting the rest back, is one of the loop.\<close>

lemma cancel_loop_rule:
  fixes J :: "('k, 'z) exec_scheme \<Rightarrow> bool"
  assumes run: "cancel_loop env i p s = Some s'" and init: "J s" and lib: "library_calls_only_io env"
    and full: "\<And>p s s1 s'. J s \<Longrightarrow> uring_get_sqe env s = (null, s1) \<Longrightarrow> only_io s s1 \<Longrightarrow>
      stopping_push_all i p (\<lambda>node. node \<noteq> null) s1 = Some s' \<Longrightarrow> J s'"
    and hand: "\<And>p s e s1 s2. J s \<Longrightarrow> uring_get_sqe env s = (e, s1) \<Longrightarrow> e \<noteq> null \<Longrightarrow> only_io s s2 \<Longrightarrow>
      s2 = uring_prep_cancel env e p 0 (uring_sqe_set_data env e (noop env) s1) \<Longrightarrow>
      J (s2\<lparr>local_inflight := local_inflight s2 + 1, op_next := iq_clear p (op_next s2)\<rparr>)"
  shows "J s'"
proof -
  have "env' = env \<longrightarrow> i' = i \<longrightarrow> J s \<longrightarrow> J s'"
    if "cancel_loop env' i' p s = Some s'" for env' i' p s s'
  proof (rule cancel_loop.raw_induct [where P = "\<lambda>env' i' p s s'.
      env' = env \<longrightarrow> i' = i \<longrightarrow> J s \<longrightarrow> J s'", OF _ that], goal_cases)
    case (1 loop env' i' p s s')
    show ?case
    proof (intro impI)
      assume eq: "env' = env" "i' = i" and J: "J s"
      obtain e s1 where g: "uring_get_sqe env s = (e, s1)" by force
      have o1: "only_io s s1" using lib g unfolding library_calls_only_io_def by (metis snd_conv)
      let ?s2 = "uring_prep_cancel env e p 0 (uring_sqe_set_data env e (noop env) s1)"
      have o2: "only_io s ?s2"
        using lib o1 only_io_trans unfolding library_calls_only_io_def by metis
      let ?s4 = "?s2\<lparr>local_inflight := local_inflight ?s2 + 1, op_next := iq_clear p (op_next ?s2)\<rparr>"
      show "J s'"
      proof (cases "p = null")
        case True
        with 1(2) J show ?thesis by simp
      next
        case p: False
        show ?thesis
        proof (cases "e = null")
          case True
          with 1(2) p eq g have "stopping_push_all i p (\<lambda>node. node \<noteq> null) s1 = Some s'" by simp
          from full [OF J g [unfolded True] o1 this] show ?thesis .
        next
          case False
          with 1(2) p eq g have "loop env i (iq_next (op_next ?s2) p) ?s4 = Some s'"
            by (simp add: Let_def)
          with 1(1) hand [OF J g False o2 refl] show ?thesis by blast
        qed
      qed
    qed
  qed
  with run init show ?thesis by blast
qed

lemma cancel_loop_exact:
  assumes acc: "accounted env out" and lib: "library_calls_only_io env"
    and "cancel_loop env i p s = Some r" "exact out s"
  shows "exact out r"
proof -
  have out1: "out (io s1) = out (io s) + (if e = null then 0 else 1)"
    if "uring_get_sqe env s = (e, s1)" for s e s1
    using acc that unfolding accounted_def by (metis fst_conv snd_conv)
  show ?thesis
  proof (rule cancel_loop_rule [where J = "exact out", OF assms(3,4) lib])
  fix p s s1 s'
  assume s: "exact out s" and g: "uring_get_sqe env s = (null, s1)" and o1: "only_io s s1"
    and "stopping_push_all i p (\<lambda>node. node \<noteq> null) s1 = Some s'"
  from stopping_push_all_only [OF this(4)] have s': "local_inflight s' = local_inflight s1" "io s' = io s1"
    by simp_all
  with s out1 [OF g] only_io_fields(6) [OF o1] show "exact out s'" by (simp add: exact_def)
next
  fix p s e s1 s2
  assume s: "exact out s" and g: "uring_get_sqe env s = (e, s1)" and e: "e \<noteq> null" and o2: "only_io s s2"
    and s2: "s2 = uring_prep_cancel env e p 0 (uring_sqe_set_data env e (noop env) s1)"
  have "out (io s2) = out (io s1)" using acc by (simp add: accounted_def s2)
  then show "exact out (s2\<lparr>local_inflight := local_inflight s2 + 1, op_next := iq_clear p (op_next s2)\<rparr>)"
    using s out1 [OF g] e only_io_fields(6) [OF o2] by (simp add: exact_def)
  qed
qed

lemma submit_phase_only_io: "library_calls_only_io env \<Longrightarrow> only_io s (snd (submit_phase policy env s))"
  by (auto simp: submit_phase_def library_calls_only_io_def split: prod.splits) (metis snd_conv)+

lemma submit_phase_out: "accounted env out \<Longrightarrow> out (io (snd (submit_phase policy env s))) = out (io s)"
  by (auto simp: submit_phase_def accounted_def split: prod.splits) (metis snd_conv)+

text \<open>
  C3. A step of the loop keeps \<open>_inflight\<close> exact under every policy: if it is the number of submission
  entries obtained minus the number of completions consumed before the step, it is after it, the
  entries made for cancel requests and their completions included. (The \<open>size_t\<close> arithmetic may wrap;
  the equation is modulo its range.)
\<close>

theorem run_step_inflight_exact:
  fixes s :: "('k, 'z) exec_scheme"
  assumes "run_step policy env s = Some (info, s')"
    and acc: "accounted env out" and lib: "library_calls_only_io env"
    and "local_inflight s = out (io s)"
  shows "local_inflight s' = out (io s')"
proof -
  from run_step_cases [OF assms(1)] obtain l s1 n s2 d s3 where
    l: "launch_phase policy env s = Some (l, s1)" and n: "submit_phase policy env s1 = (n, s2)"
    and d: "iodone_phase policy env s2 = Some (d, s3)" and c: "cancel_phase policy env s3 = Some s'"
    by metis
  have s: "exact out s" using assms(4) by (simp add: exact_def)
  have keep: "exact out t'" if "exact out t" "only_io t t'" "out (io t') = out (io t)" for t t' :: "('k, 'z) exec_scheme"
    using that only_io_fields [OF that(2)] by (simp add: exact_def)
  have rnd: "exact out (snd (mt_random env t))" if "exact out t" for t
    by (rule keep [OF that]) (use acc lib in \<open>simp_all add: accounted_def library_calls_only_io_def\<close>)
  have s1: "exact out s1"
    using launch_phase_inv [where P = "exact out", OF l s _ _ rnd] acc
    by (simp add: accounted_def exact_def)
  have s2: "exact out s2"
    using keep [OF s1] submit_phase_only_io [OF lib, of s1 policy] submit_phase_out [OF acc, of policy s1] n
    by simp
  have peek: "exact out (snd (uring_peek_batch_cqe env k t))" if "exact out t" for t k
    by (rule keep [OF that]) (use acc lib in \<open>simp_all add: accounted_def library_calls_only_io_def\<close>)
  have one: "exact out (consume_one policy env q t)" if "exact out t" for q t
    using that acc by (simp add: accounted_def consume_one_def vtab_complete_def vtab_restart_def)
  have adv: "exact out (let s2 = uring_cq_advance env k t in
      s2\<lparr>local_inflight := local_inflight s2 - ucast k\<rparr>)" if "exact out t" for k t
  proof -
    have "only_io t (uring_cq_advance env k t)" "out (io (uring_cq_advance env k t)) = out (io t) - ucast k"
      using acc lib by (simp_all add: accounted_def library_calls_only_io_def)
    with that show ?thesis using only_io_fields [of t "uring_cq_advance env k t"]
      by (simp add: exact_def Let_def)
  qed
  have s3: "exact out s3"
  proof (cases "p_iodone policy")
    case True
    with d iodone_loop_inv [where P = "exact out", OF _ s2 peek one adv] show ?thesis
      by (auto simp: iodone_phase_def dest!: spec)
  next
    case False
    with d s2 show ?thesis by (simp add: iodone_phase_def)
  qed
  have "exact out s'"
  proof (cases "blocking policy")
    case True
    with c s3 show ?thesis by (simp add: cancel_phase_def)
  next
    case False
    with c obtain i p t where "cancel_loop env i p t = Some s'" "exact out t"
      using s3 by (auto simp: cancel_phase_def bucket_move_all_def iq_move_all_def Let_def exact_def)
    with cancel_loop_exact [OF acc lib] show ?thesis by blast
  qed
  then show ?thesis by (simp add: exact_def)
qed

lemma sample_accounted: "accounted sample_env w_outstanding"
  by (auto simp: accounted_def exact_def sample_env_def)

theorem run_step_inflight_exact_witness:
  "\<exists>info s'. run_step default_policy sample_env (sample_exec (sample_world\<lparr>w_ready := [(8, 1)],
       w_outstanding := 0\<rparr>)) = Some (info, s') \<and> local_inflight s' = w_outstanding (io s') \<and> reaped info = 1"
proof -
  let ?s = "sample_exec (sample_world\<lparr>w_ready := [(8, 1)], w_outstanding := 0\<rparr>)"
  have "\<exists>s'. run_step default_policy sample_env ?s
      = Some (\<lparr>loop_step = 0, launched = 0, submitted = 0, reaped = 1\<rparr>, s')"
    by (simp add: run_step_def launch_phase_def take_fields launch_def make_fifo_def safe_for_each.simps
        submit_phase_def iodone_phase_def cancel_phase_def bucket_move_all_def iq_move_all_def
        default_policy_def sample_env_def sample_exec_def Let_def bucket_mod iodone_loop.simps
        consume_some_def consume_one_def vtab_complete_def greedy_def cancel_loop.simps)
  then obtain s' where run: "run_step default_policy sample_env ?s
      = Some (\<lparr>loop_step = 0, launched = 0, submitted = 0, reaped = 1\<rparr>, s')" by blast
  have "local_inflight ?s = w_outstanding (io ?s)" by (simp add: sample_exec_def)
  from run_step_inflight_exact [where out = w_outstanding, OF run sample_accounted sample_library_calls this] run
  show ?thesis by auto
qed

end
