(* ===== verification/ContextEnd.thy ===== *)
theory ContextEnd
  imports RunLoopEnd
begin

text \<open>
  How a context ends: why \<open>run()\<close> returns, what the single step of a terminal run reaches, the
  destructive command, and the destructor of \<open>io_uring_exec\<close> after a loop has seen the stop request
  (\<open>io_uring_exec_internal_run.h\<close>, \<open>io_uring_exec_internal.h\<close>). It also holds the constructor and the
  destructor of \<open>io_uring_exec_local\<close> and the destructor of \<open>io_uring_exec\<close>.
\<close>

section \<open>Constructors and destructors\<close>

text \<open>\<open>io_uring_exec_local\<close>: the count of running local contexts, without and with the check for the
  main thread.\<close>

definition local_ctor :: "('k, 'z) exec_scheme \<Rightarrow> ('k, 'z) exec_scheme" where
  "local_ctor s = s\<lparr>running_local := running_local s + 1\<rparr>"

definition local_dtor :: "('k, 'z) exec_scheme run_env \<Rightarrow> tid \<Rightarrow> tid
    \<Rightarrow> ('k, 'z) exec_scheme \<Rightarrow> ('k, 'z) exec_scheme result option" where
  "local_dtor env this_tid root_tid s =
     map_option (\<lambda>r. and_then r (\<lambda>s1.
       if this_tid = root_tid then Inr s1
       else Inr (s1\<lparr>running_local := running_local s1 - 1\<rparr>))) (transfer_run env s)"

definition exec_dtor :: "('k, 'z) exec_scheme run_env
    \<Rightarrow> ('k, 'z) exec_scheme \<Rightarrow> ('k, 'z) exec_scheme result option" where
  "exec_dtor env s =
     Option.bind (transfer_run env s)
       (\<lambda>r. case r of Inl e \<Rightarrow> Some (Inl e) | Inr s1 \<Rightarrow> terminal_run env s1)"

section \<open>The destructive command\<close>

lemma submit_destructive_only_io:
  assumes "library_calls_only_io env" "submit_destructive_command env s = Inr s'"
  shows "only_io s s'"
proof -
  let ?s1 = "snd (uring_submit env s)"
  obtain e s2 where g: "uring_get_sqe env ?s1 = (e, s2)" by force
  let ?s3 = "uring_sqe_set_data env e (noop env) s2"
  let ?s4 = "uring_prep_cancel env e null (ASYNC_CANCEL_ANY env) ?s3"
  have s': "s' = snd (uring_submit env ?s4)"
    using assms(2) g by (simp add: submit_destructive_command_def Let_def split: if_splits)
  have "only_io s ?s1" "only_io ?s1 s2" "only_io s2 ?s3" "only_io ?s3 ?s4" "only_io ?s4 s'"
    using assms(1) g s' unfolding library_calls_only_io_def by (simp_all, metis snd_conv)
  then show ?thesis by (blast intro: only_io_trans)
qed

text \<open>
  The destructive command is not accounted for: it obtains a submission entry without
  \<open>add_inflight()\<close>, so afterwards one more completion is owed than \<open>_inflight\<close> says, and
  consuming it takes a count of zero to the largest \<open>size_t\<close>.
\<close>

theorem destructive_command_unaccounted:
  fixes s :: "('k, 'z) exec_scheme"
  assumes "submit_destructive_command env s = Inr s'"
    and acc: "accounted env out" and lib: "library_calls_only_io env"
    and "local_inflight s = out (io s)"
  shows "out (io s') = local_inflight s' + 1"
proof -
  let ?s1 = "snd (uring_submit env s)"
  obtain e s2 where g: "uring_get_sqe env ?s1 = (e, s2)" by force
  with assms(1) have e: "e \<noteq> null"
    and s': "s' = snd (uring_submit env (uring_prep_cancel env e null (ASYNC_CANCEL_ANY env)
                (uring_sqe_set_data env e (noop env) s2)))"
    by (simp_all add: submit_destructive_command_def Let_def split: if_splits)
  have a1: "out (io (snd (uring_submit env t))) = out (io t)" for t
    using acc by (simp only: accounted_def)
  have a2: "out (io (uring_sqe_set_data env e d t)) = out (io t)"
    "out (io (uring_prep_cancel env e d f t)) = out (io t)" for e d f t
    using acc by (simp_all only: accounted_def)
  have "out (io (snd (uring_get_sqe env ?s1))) = out (io ?s1)
      + (if fst (uring_get_sqe env ?s1) = null then 0 else 1)"
    using acc unfolding accounted_def by blast
  with g e have "out (io s2) = out (io ?s1) + 1" by simp
  then have "out (io s') = out (io s) + 1" by (simp only: s' a1 a2)
  then show ?thesis
    using only_io_fields [OF submit_destructive_only_io [OF lib assms(1)]] assms(4) by simp
qed

theorem destructive_command_unaccounted_witness:
  "\<exists>s'. submit_destructive_command sample_env (sample_exec sample_world) = Inr s'
     \<and> w_outstanding (io s') = local_inflight s' + 1"
proof -
  have "\<exists>s'. submit_destructive_command sample_env (sample_exec sample_world) = Inr s'"
    by (simp add: submit_destructive_command_def sample_env_def sample_exec_def sample_world_def)
  then obtain s' where s': "submit_destructive_command sample_env (sample_exec sample_world) = Inr s'"
    by blast
  have "local_inflight (sample_exec sample_world) = w_outstanding (io (sample_exec sample_world))"
    by (simp add: sample_exec_def sample_world_def)
  from destructive_command_unaccounted [where out = w_outstanding,
      OF s' sample_accounted sample_library_calls this] s'
  show ?thesis by blast
qed

section \<open>A terminal run\<close>

lemma cancel_loop_immediate:
  assumes "library_calls_only_io env" "cancel_loop env i p s = Some r"
  shows "immediate_map r = immediate_map s"
proof (rule cancel_loop_rule [OF assms(2) _ assms(1)])
  show "immediate_map s = immediate_map s" ..
qed (auto simp: only_io_fields(4) dest!: stopping_push_all_only)

lemma launch_phase_two_buckets:
  assumes run: "launch_phase policy env s = Some (n, s')" and lib: "library_calls_only_io env"
    and calls: "\<And>op t. immediate_map (task_complete env op t) = immediate_map t"
      "\<And>op t. immediate_map (task_cancel env op t) = immediate_map t"
  shows "\<exists>a b. \<forall>i. i \<noteq> a \<and> i \<noteq> b \<longrightarrow> immediate_map s' ! i = immediate_map s ! i"
proof -
  have keep: "immediate_map (snd r') = immediate_map (snd r)" if "launch policy env op r = Some r'" for op r r'
    using launch_inv [where P = "\<lambda>t. immediate_map t = immediate_map (snd r)", OF that] calls by simp
  show ?thesis
    using run
  proof (cases rule: launch_phase_cases)
    case 1
    then show ?thesis by simp
  next
    case 2
    with keep [OF 2(2)] show ?thesis by simp
  next
    case (3 n1 s1 n2 s2 r s3)
    have m3: "immediate_map s3 = immediate_map s2"
      using lib 3(3) only_io_fields(4) unfolding library_calls_only_io_def by (metis snd_conv)
    show ?thesis
      using keep [OF 3(1)] keep [OF 3(2)] keep [OF 3(4)] m3
      by (intro exI [of _ "robin_bucket (walltime_step s1)"] exI [of _ "unat r"]) simp
  qed
qed

text \<open>
  A terminal run ("Cancel All") is a single step and reaches at most two buckets of the shared
  task map: whatever the tasks and operations do, as long as they schedule nothing new, all the
  other buckets hold the same tasks as before, which are then neither completed nor cancelled.
\<close>

theorem terminal_run_reaches_two_buckets:
  fixes s :: "('k, 'z) exec_scheme"
  assumes run: "inplace_terminal_run env s = Some (Inr s')" and lib: "library_calls_only_io env"
    and calls: "\<And>op t. immediate_map (task_complete env op t) = immediate_map t"
      "\<And>op t. immediate_map (task_cancel env op t) = immediate_map t"
      "\<And>op res t. immediate_map (op_complete env op res t) = immediate_map t"
  shows "\<exists>a b. \<forall>i. i \<noteq> a \<and> i \<noteq> b \<longrightarrow> immediate_map s' ! i = immediate_map s ! i"
proof -
  from run obtain s1 info where d: "submit_destructive_command env s = Inr s1"
    and w: "run_weakly terminal_policy env s1 = Some (info, s')"
    by (auto simp: inplace_terminal_run_def split: sum.splits)
  have m1: "immediate_map s1 = immediate_map s"
    using only_io_fields(4) [OF submit_destructive_only_io [OF lib d]] .
  show ?thesis
  proof (cases "runloop_must_have_stopped s1")
    case True
    with w m1 show ?thesis by (simp add: run_weakly_def)
  next
    case False
    with w obtain one where "run_step terminal_policy env s1 = Some (one, s')"
      by (auto simp: run_weakly_def bind_eq_Some_conv)
    then show ?thesis
    proof (cases rule: run_step_cases)
      case (1 l s2 n s3 k s4)
      have m3: "immediate_map s3 = immediate_map s2"
        using submit_phase_only_io [OF lib, of s2 terminal_policy] 1(2) only_io_fields(4) by (metis snd_conv)
      have ring: "immediate_map (snd (uring_peek_batch_cqe env n t)) = immediate_map t"
        "immediate_map (uring_cq_advance env n t) = immediate_map t" for n and t :: "('k, 'z) exec_scheme"
        using lib by (intro only_io_fields(4), simp add: library_calls_only_io_def)+
      have "immediate_map (snd (k, s4)) = immediate_map s3"
      proof (rule iodone_loop_inv [where P = "\<lambda>t. immediate_map t = immediate_map s3"])
        show "iodone_loop terminal_policy env 0 s3 = Some (k, s4)" using 1(3) by (simp add: iodone_phase_def)
      next
        fix c and t :: "('k, 'z) exec_scheme"
        assume "immediate_map t = immediate_map s3"
        then show "immediate_map (consume_one terminal_policy env c t) = immediate_map s3"
          using calls(3) by (simp add: consume_one_def vtab_complete_def)
      qed (simp_all add: ring Let_def)
      moreover from 1(4) obtain i p t where "cancel_loop env i p t = Some s'" "immediate_map t = immediate_map s4"
        by (auto simp: cancel_phase_def bucket_move_all_def iq_move_all_def Let_def)
      then have "immediate_map s' = immediate_map s4" using cancel_loop_immediate [OF lib] by metis
      ultimately show ?thesis
        using launch_phase_two_buckets [OF 1(1) lib calls(1,2)] m1 m3 by simp
    qed
  qed
qed

lemmas sample_run_simps = run_step_def launch_phase_def take_fields launch_def make_fifo_def
  safe_for_each.simps submit_phase_def iodone_phase_def cancel_phase_def bucket_move_all_def
  iq_move_all_def sample_env_def sample_exec_def sample_world_def Let_def bucket_mod
  iodone_loop.simps consume_some_def consume_one_def vtab_complete_def greedy_def cancel_loop.simps

theorem terminal_run_reaches_two_buckets_witness:
  "\<exists>s'. inplace_terminal_run sample_env
      ((sample_exec sample_world)\<lparr>immediate_map := (replicate 16 0)[7 := 8, 8 := 16, 9 := 24]\<rparr>) = Some (Inr s')
    \<and> (\<exists>i \<in> {7, 8, 9}. immediate_map s' ! i \<noteq> null)"
proof -
  let ?s = "(sample_exec sample_world)\<lparr>immediate_map := (replicate 16 0)[7 := 8, 8 := 16, 9 := 24]\<rparr>"
  have "\<exists>s'. inplace_terminal_run sample_env ?s = Some (Inr s')"
    by (simp add: inplace_terminal_run_def submit_destructive_command_def run_weakly_def
        sample_run_simps terminal_policy_def default_policy_def upd_io_def)
  then obtain s' where run: "inplace_terminal_run sample_env ?s = Some (Inr s')" by blast
  have "immediate_map (task_complete sample_env op t) = immediate_map t"
    "immediate_map (task_cancel sample_env op t) = immediate_map t"
    "immediate_map (op_complete sample_env op res t) = immediate_map t" for op res t
    by (simp_all add: sample_env_def)
  from terminal_run_reaches_two_buckets [OF run sample_library_calls this] obtain a b where
    ab: "\<forall>i. i \<noteq> a \<and> i \<noteq> b \<longrightarrow> immediate_map s' ! i = immediate_map ?s ! i" by blast
  have "\<exists>i \<in> {7, 8, 9}. i \<noteq> a \<and> i \<noteq> b" by auto
  then obtain i where "i \<in> {7, 8, 9}" "immediate_map s' ! i = immediate_map ?s ! i" using ab by blast
  moreover from this have "immediate_map ?s ! i \<noteq> null" by auto
  ultimately show ?thesis using run by metis
qed

section \<open>After a loop has stopped\<close>

lemma stopped_weak_run:
  "runloop_must_have_stopped s \<Longrightarrow> run_weakly policy env s = Some (run_progress_zero, s)"
  by (simp add: run_weakly_def progress_call_def run_progress_zero_def)

lemma submit_destructive_some:
  "fst (uring_get_sqe env (snd (uring_submit env s))) \<noteq> null \<Longrightarrow>
   \<exists>s'. submit_destructive_command env s = Inr s'"
  by (auto simp: submit_destructive_command_def Let_def split: prod.splits)

text \<open>
  A context whose own loop has once seen the stop request cancels nothing in its destructor: the
  two runs of \<open>~io_uring_exec()\<close> return at once, because the loop is not allowed to run again, and
  whatever is left in the task queues and in the stopping map is neither completed nor cancelled; only
  the stop flag and the ring change.
\<close>

theorem destructor_after_stop_cancels_nothing:
  fixes s :: "('k, 'z) exec_scheme"
  assumes "runloop_must_have_stopped s" and "running_local s \<le> 1"
    and lib: "library_calls_only_io env" and sqe: "\<And>t. fst (uring_get_sqe env t) \<noteq> null"
  shows "\<exists>s'. exec_dtor env s = Some (Inr s')
    \<and> s' = s\<lparr>remote_stop_requested := True, io := io s'\<rparr>"
proof -
  obtain s1 where d1: "submit_destructive_command env s = Inr s1"
    using submit_destructive_some [OF sqe] by blast
  have o1: "only_io s s1" by (rule submit_destructive_only_io [OF lib d1])
  have t: "transfer_run env s = Some (Inr s1)"
    unfolding transfer_run_def d1 using stopped_weak_run [of s1] only_io_fields(9) [OF o1] assms(1) by simp
  let ?s2 = "s1\<lparr>remote_stop_requested := True\<rparr>"
  have "running_local ?s2 \<le> 1" using only_io_fields(8) [OF o1] assms(2) by simp
  then have w: "wait_running env ?s2 = Some ?s2"
    by (subst wait_running.simps) (simp only: not_less [symmetric] if_False)
  obtain s3 where d3: "submit_destructive_command env ?s2 = Inr s3"
    using submit_destructive_some [OF sqe] by blast
  have o3: "only_io ?s2 s3" by (rule submit_destructive_only_io [OF lib d3])
  have "runloop_must_have_stopped s3"
    using only_io_fields(9) [OF o3] only_io_fields(9) [OF o1] assms(1) by simp
  then have "terminal_run env s1 = Some (Inr s3)"
    unfolding terminal_run_def w by (simp add: inplace_terminal_run_def d3 stopped_weak_run)
  then have "exec_dtor env s = Some (Inr s3)" unfolding exec_dtor_def t by simp
  moreover have "s3 = s\<lparr>remote_stop_requested := True, io := io s3\<rparr>"
  proof -
    have "s3 = s1\<lparr>remote_stop_requested := True, io := io s3\<rparr>" using o3 by (simp add: only_io_def)
    also have "\<dots> = s\<lparr>io := io s1\<rparr>\<lparr>remote_stop_requested := True, io := io s3\<rparr>"
      using o1 unfolding only_io_def by (rule arg_cong)
    also have "\<dots> = s\<lparr>remote_stop_requested := True, io := io s3\<rparr>" by simp
    finally show ?thesis .
  qed
  ultimately show ?thesis by (intro exI [of _ s3] conjI)
qed

theorem destructor_after_stop_cancels_nothing_witness:
  "\<exists>s'. exec_dtor (sample_env\<lparr>uring_get_sqe := (\<lambda>s. (64, s))\<rparr>)
      ((sample_exec sample_world)\<lparr>runloop_must_have_stopped := True, attached_queue := 8\<rparr>) = Some (Inr s')
    \<and> attached_queue s' = 8"
proof -
  let ?env = "sample_env\<lparr>uring_get_sqe := (\<lambda>s. (64, s))\<rparr>"
  let ?s = "(sample_exec sample_world)\<lparr>runloop_must_have_stopped := True, attached_queue := 8\<rparr>"
  have lib: "library_calls_only_io ?env"
    using sample_library_calls by (simp add: library_calls_only_io_def)
  have "runloop_must_have_stopped ?s" "running_local ?s \<le> 1" "fst (uring_get_sqe ?env t) \<noteq> null" for t
    by (simp_all add: sample_exec_def)
  from destructor_after_stop_cancels_nothing [OF this(1,2) lib this(3)] obtain s' where
    run: "exec_dtor ?env ?s = Some (Inr s')" and eq: "s' = ?s\<lparr>remote_stop_requested := True, io := io s'\<rparr>"
    by blast
  from eq have "attached_queue s' = attached_queue (?s\<lparr>remote_stop_requested := True, io := io s'\<rparr>)"
    by (rule arg_cong)
  then have "attached_queue s' = 8" by simp
  with run show ?thesis by blast
qed

section \<open>Why a run returns\<close>

definition stopped_by_remote :: "('k, 'z) exec_scheme run_env \<Rightarrow> ('k, 'z) exec_scheme \<Rightarrow> bool" where
  "stopped_by_remote env s' \<longleftrightarrow> (\<exists>t s2. remote_stop_requested t
     \<and> inplace_terminal_run env t = Some (Inr s2) \<and> s' = s2\<lparr>runloop_must_have_stopped := True\<rparr>)"

definition run_reason :: "run_policy \<Rightarrow> ('k, 'z) exec_scheme run_env \<Rightarrow> ('k, 'z) exec_scheme \<Rightarrow> bool" where
  "run_reason policy env s' \<longleftrightarrow> external_stop_requested env s'
     \<or> (autoquit policy \<and> local_inflight s' = 0) \<or> (\<not> detached policy \<and> stopped_by_remote env s')"

lemma run_steps_reason:
  assumes "run_steps policy env info step s = Some r"
    and "\<not> weakly_parallel policy" "\<not> weakly_concurrent policy"
  shows "case r of Inl e \<Rightarrow> True | Inr (info', s') \<Rightarrow> run_reason policy env s'"
proof -
  have "\<not> weakly_parallel policy \<longrightarrow> \<not> weakly_concurrent policy \<longrightarrow>
      (case r of Inl e \<Rightarrow> True | Inr (info', s') \<Rightarrow> run_reason policy env s')"
  proof (rule run_steps.raw_induct [where P = "\<lambda>policy env info step s r.
      \<not> weakly_parallel policy \<longrightarrow> \<not> weakly_concurrent policy \<longrightarrow>
      (case r of Inl e \<Rightarrow> True | Inr (info', s') \<Rightarrow> run_reason policy env s')", OF _ assms(1)], goal_cases)
    case (1 loop policy env info step s r)
    show ?case
    proof (intro impI)
      assume pol: "\<not> weakly_parallel policy" "\<not> weakly_concurrent policy"
      obtain one s1 where step: "run_step policy env s = Some (one, s1)"
        using 1(2) by (auto simp: bind_eq_Some_conv)
      let ?any = "launched one \<noteq> 0 \<or> submitted one \<noteq> 0 \<or> reaped one \<noteq> 0"
      let ?info = "progress_add info one"
      let ?s2 = "if \<not> busyloop policy \<and> \<not> ?any then thread_yield env s1 else s1"
      have body: "(if external_stop_requested env s1 then Some (Inr (progress_call step ?info, s1))
            else if \<not> detached policy \<and> remote_stop_requested s1
            then map_option (\<lambda>r. and_then r (\<lambda>s2.
                   Inr (progress_call step ?info, s2\<lparr>runloop_must_have_stopped := True\<rparr>)))
                 (inplace_terminal_run env s1)
            else if autoquit policy \<and> local_inflight s1 = 0
            then Some (Inr (progress_call step ?info, s1))
            else loop policy env ?info (step + 1) (?s2\<lparr>walltime_step := walltime_step ?s2 + 1\<rparr>)) = Some r"
        using 1(2) unfolding step Let_def by (simp only: bind.simps prod.case pol if_False simp_thms)
      consider "external_stop_requested env s1" "r = Inr (progress_call step ?info, s1)"
        | t where "\<not> detached policy" "remote_stop_requested s1" "inplace_terminal_run env s1 = Some t"
            "r = and_then t (\<lambda>s2. Inr (progress_call step ?info, s2\<lparr>runloop_must_have_stopped := True\<rparr>))"
        | "autoquit policy" "local_inflight s1 = 0" "r = Inr (progress_call step ?info, s1)"
        | "loop policy env ?info (step + 1) (?s2\<lparr>walltime_step := walltime_step ?s2 + 1\<rparr>) = Some r"
        using body by (metis (no_types, lifting) map_option_eq_Some option.inject)
      then show "case r of Inl e \<Rightarrow> True | Inr (info', s') \<Rightarrow> run_reason policy env s'"
      proof cases
        case 1
        then show ?thesis by (simp add: run_reason_def)
      next
        case (2 t)
        then show ?thesis by (cases t) (auto simp: run_reason_def stopped_by_remote_def)
      next
        case 3
        then show ?thesis by (simp add: run_reason_def)
      next
        case 4
        from 1(1) [OF 4] pol show ?thesis by blast
      qed
    qed
  qed
  with assms(2,3) show ?thesis by blast
qed

text \<open>
  C28. A concurrent run that was not stopped before returns for one of three reasons only: its own stop
  token was signalled, its policy is \<open>autoquit\<close> and nothing is in flight, or (unless
  \<open>detached\<close>) the context's stop was requested. In the last case the terminal run has been executed
  and every later run of this loop, under any policy, returns at once without progress.
\<close>

theorem run_returns_for_a_reason:
  fixes s :: "('k, 'z) exec_scheme"
  assumes "run_exec policy env s = Some (Inr (info, s'))"
    and "policy_static_assert policy" and "concurrent policy" and "\<not> runloop_must_have_stopped s"
  shows "external_stop_requested env s' \<or> (autoquit policy \<and> local_inflight s' = 0)
    \<or> (\<not> detached policy \<and> stopped_by_remote env s'
        \<and> (\<forall>policy'. run_exec policy' env s' = Some (Inr (run_progress_zero, s'))))"
proof -
  have pol: "\<not> weakly_parallel policy" "\<not> weakly_concurrent policy"
    using assms(2,3)
    by (cases "weakly_parallel policy"; cases "weakly_concurrent policy"; simp add: policy_static_assert_def)+
  have "run_steps policy env run_progress_zero 1 s = Some (Inr (info, s'))"
    using assms(1,4) by (simp add: run_exec_def)
  from run_steps_reason [OF this pol] have "run_reason policy env s'" by simp
  moreover have "run_exec policy' env s' = Some (Inr (run_progress_zero, s'))"
    if "stopped_by_remote env s'" for policy'
    using that by (auto simp: stopped_by_remote_def run_exec_def progress_call_def run_progress_zero_def)
  ultimately show ?thesis by (auto simp: run_reason_def)
qed

theorem run_returns_for_a_reason_witness:
  "\<exists>info s'. run_exec default_policy sample_env ((sample_exec sample_world)\<lparr>remote_stop_requested := True\<rparr>)
      = Some (Inr (info, s')) \<and> stopped_by_remote sample_env s'"
proof -
  let ?s = "(sample_exec sample_world)\<lparr>remote_stop_requested := True\<rparr>"
  have "\<exists>info s'. run_exec default_policy sample_env ?s = Some (Inr (info, s'))"
    by (simp add: run_exec_def run_steps.simps inplace_terminal_run_def submit_destructive_command_def
        run_weakly_def sample_run_simps terminal_policy_def default_policy_def upd_io_def)
  then obtain info s' where run: "run_exec default_policy sample_env ?s = Some (Inr (info, s'))" by blast
  have "concurrent default_policy" "\<not> runloop_must_have_stopped ?s"
    "\<not> external_stop_requested sample_env s'" "\<not> autoquit default_policy"
    by (simp_all add: default_policy_def sample_exec_def sample_env_def)
  with run_returns_for_a_reason [OF run] run show ?thesis by auto
qed

text \<open>
  A weakly parallel run reports no progress: it returns before the counters of its step are added,
  so \<open>launched\<close>, \<open>submitted\<close> and \<open>done\<close> are zero whatever it did.
\<close>

theorem weakly_parallel_progress_lost:
  fixes s :: "('k, 'z) exec_scheme"
  assumes "weakly_parallel policy" and "run_exec policy env s = Some (Inr (info, s'))"
  shows "launched info = 0 \<and> submitted info = 0 \<and> reaped info = 0"
  using assms(2) unfolding run_exec_weakly_parallel [OF assms(1)]
  by (auto simp: run_weakly_def progress_call_def run_progress_zero_def bind_eq_Some_conv split: if_splits)

theorem weakly_parallel_progress_lost_witness:
  "\<exists>info s'. run_exec terminal_policy sample_env (sample_exec (sample_world\<lparr>w_ready := [(8, 1)]\<rparr>))
      = Some (Inr (info, s')) \<and> reaped info = 0 \<and> w_done (io s') = [(8, 1)]"
proof -
  have "\<exists>info s'. run_exec terminal_policy sample_env (sample_exec (sample_world\<lparr>w_ready := [(8, 1)]\<rparr>))
      = Some (Inr (info, s')) \<and> w_done (io s') = [(8, 1)]"
    by (simp add: run_exec_def run_steps.simps sample_run_simps terminal_policy_def default_policy_def upd_io_def)
  then obtain info s' where
    run: "run_exec terminal_policy sample_env (sample_exec (sample_world\<lparr>w_ready := [(8, 1)]\<rparr>))
      = Some (Inr (info, s'))" "w_done (io s') = [(8, 1)]" by blast
  from weakly_parallel_progress_lost [OF _ run(1)] run show ?thesis by auto
qed

end
