(* ===== verification/LocalContext.thy ===== *)
theory LocalContext
  imports Prelude
begin

text \<open>
  The thread-local contexts of \<open>io_uring_exec\<close> (\<open>uring_exec/io_uring_exec_internal.h\<close>): which
  \<open>io_uring_exec_local\<close> a call of \<open>get_local()\<close> returns, how \<open>_running_local\<close> counts them, and that
  the destructor, which waits for this count, leaves no local context behind whose root is gone.

  Objects are told apart by identity, not by address. \<open>Unique\<close>, the type that the constructor's template
  argument differs in, is a tag: one for every place of the program that constructs a context. The rings
  of the contexts are in \<open>Setup\<close>, the runs of the destructors in \<open>ContextEnd\<close>.
\<close>

section \<open>Contexts and their local contexts\<close>

record exec_obj =
  ex_tag :: nat
  ex_thread_id :: tid
  ex_running_local :: size_t

record local_obj =
  lo_tag :: nat
  lo_tid :: tid
  lo_root :: nat
  lo_root_tid :: tid

text \<open>The live contexts, and the thread-local objects, the newest first.\<close>

record contexts =
  execs :: "nat \<Rightarrow> exec_obj option"
  locals :: "local_obj list"

definition exec_ctor :: "nat \<Rightarrow> tid \<Rightarrow> nat \<Rightarrow> contexts \<Rightarrow> contexts" where
  "exec_ctor unique this_tid c st = st\<lparr>execs := (execs st)(c \<mapsto>
     \<lparr>ex_tag = unique, ex_thread_id = this_tid, ex_running_local = 0\<rparr>)\<rparr>"

text \<open>The constructor of \<open>io_uring_exec_local\<close>, as far as it concerns the root.\<close>

definition local_obj_ctor :: "tid \<Rightarrow> nat \<Rightarrow> exec_obj \<Rightarrow> contexts \<Rightarrow> local_obj \<times> contexts" where
  "local_obj_ctor this_tid root e st =
     (let l = \<lparr>lo_tag = ex_tag e, lo_tid = this_tid, lo_root = root, lo_root_tid = ex_thread_id e\<rparr>
      in (l, st\<lparr>execs := (execs st)(root \<mapsto> e\<lparr>ex_running_local := ex_running_local e + 1\<rparr>)\<rparr>))"

text \<open>\<open>get_local()\<close>: the function behind \<open>_remote_handle\<close> holds one object per instantiation and thread,
  constructed by the first call.\<close>

definition find_local :: "nat \<Rightarrow> tid \<Rightarrow> local_obj list \<Rightarrow> local_obj option" where
  "find_local unique this_tid = List.find (\<lambda>l. lo_tag l = unique \<and> lo_tid l = this_tid)"

definition get_local :: "tid \<Rightarrow> nat \<Rightarrow> contexts \<Rightarrow> (local_obj \<times> contexts) result" where
  "get_local this_tid c st = (case execs st c of
     None \<Rightarrow> Inl Dangling
   | Some e \<Rightarrow> (case find_local (ex_tag e) this_tid (locals st) of
       Some l \<Rightarrow> Inr (l, st)
     | None \<Rightarrow> let (l, st1) = local_obj_ctor this_tid c e st in Inr (l, st1\<lparr>locals := l # locals st1\<rparr>)))"

text \<open>The destructor of \<open>io_uring_exec_local\<close> after its transfer run, and all of a thread's at its end.\<close>

definition local_obj_dtor :: "local_obj \<Rightarrow> contexts \<Rightarrow> contexts result" where
  "local_obj_dtor l st =
     (if lo_tid l = lo_root_tid l then Inr st
      else case execs st (lo_root l) of
        None \<Rightarrow> Inl Dangling
      | Some e \<Rightarrow> Inr (st\<lparr>execs := (execs st)(lo_root l \<mapsto> e\<lparr>ex_running_local := ex_running_local e - 1\<rparr>)\<rparr>))"

fun drop_locals :: "local_obj list \<Rightarrow> contexts \<Rightarrow> contexts result" where
  "drop_locals [] st = Inr st"
| "drop_locals (l # ls) st = and_then (local_obj_dtor l st) (drop_locals ls)"

definition thread_exit :: "tid \<Rightarrow> contexts \<Rightarrow> contexts result" where
  "thread_exit t st = and_then (drop_locals (filter (\<lambda>l. lo_tid l = t) (locals st)) st)
     (\<lambda>st1. Inr (st1\<lparr>locals := filter (\<lambda>l. lo_tid l \<noteq> t) (locals st1)\<rparr>))"

text \<open>The condition that ends the wait of \<open>terminal_run()\<close>.\<close>

definition wait_over :: "nat \<Rightarrow> contexts \<Rightarrow> bool" where
  "wait_over c st = (case execs st c of None \<Rightarrow> False | Some e \<Rightarrow> \<not> ex_running_local e > 1)"

section \<open>Threads\<close>

text \<open>What the program may do. \<open>own\<close> says whether contexts are destroyed only by the thread that
  constructed them. \<open>left\<close> is bookkeeping: the local contexts whose destructor skipped the
  decrement because they belong to the thread of the constructor.\<close>

record machine =
  ctx :: contexts
  exited :: "tid set"
  used_tags :: "nat set"
  used_objs :: "nat set"
  ending :: "nat \<Rightarrow> tid option"
  left :: "nat \<Rightarrow> nat"

definition machine_init :: machine where
  "machine_init = \<lparr>ctx = \<lparr>execs = (\<lambda>_. None), locals = []\<rparr>, exited = {}, used_tags = {}, used_objs = {},
     ending = (\<lambda>_. None), left = (\<lambda>_. 0)\<rparr>"

definition running_thread :: "tid set \<Rightarrow> machine \<Rightarrow> tid \<Rightarrow> bool" where
  "running_thread T w t \<longleftrightarrow> t \<in> T \<and> t \<notin> exited w \<and> (\<forall>c. ending w c \<noteq> Some t)"

definition has_local :: "machine \<Rightarrow> tid \<Rightarrow> nat \<Rightarrow> bool" where
  "has_local w t c \<longleftrightarrow> (\<exists>l \<in> set (locals (ctx w)). lo_tid l = t \<and> lo_root l = c)"

definition locals_of :: "nat \<Rightarrow> tid \<Rightarrow> local_obj list \<Rightarrow> local_obj list" where
  "locals_of c t = filter (\<lambda>l. lo_root l = c \<and> lo_tid l = t)"

inductive machine_step :: "bool \<Rightarrow> tid set \<Rightarrow> machine \<Rightarrow> machine \<Rightarrow> bool" for own T where
  construct: "running_thread T w t \<Longrightarrow> c \<notin> used_objs w \<Longrightarrow> unique \<notin> used_tags w \<Longrightarrow>
    machine_step own T w (w\<lparr>ctx := exec_ctor unique t c (ctx w), used_objs := insert c (used_objs w),
      used_tags := insert unique (used_tags w)\<rparr>)"
| call_local: "running_thread T w t \<Longrightarrow> ending w c = None \<or> has_local w t c \<Longrightarrow>
    get_local t c (ctx w) = Inr (l, st) \<Longrightarrow> machine_step own T w (w\<lparr>ctx := st\<rparr>)"
| exit_thread: "running_thread T w t \<Longrightarrow> thread_exit t (ctx w) = Inr st \<Longrightarrow>
    machine_step own T w (w\<lparr>ctx := st, exited := insert t (exited w),
      left := (\<lambda>c. left w c + (case execs (ctx w) c of None \<Rightarrow> 0
        | Some e \<Rightarrow> if ex_thread_id e = t then length (locals_of c t (locals (ctx w))) else 0))\<rparr>)"
| begin_dtor: "running_thread T w t \<Longrightarrow> ending w c = None \<Longrightarrow> execs (ctx w) c = Some e \<Longrightarrow>
    (own \<longrightarrow> t = ex_thread_id e) \<Longrightarrow> get_local t c (ctx w) = Inr (l, st) \<Longrightarrow>
    machine_step own T w (w\<lparr>ctx := st, ending := (ending w)(c \<mapsto> t)\<rparr>)"
| end_dtor: "ending w c = Some t \<Longrightarrow> wait_over c (ctx w) \<Longrightarrow>
    machine_step own T w (w\<lparr>ctx := (ctx w)\<lparr>execs := (execs (ctx w))(c := None)\<rparr>, ending := (ending w)(c := None)\<rparr>)"

inductive reachable_machine :: "bool \<Rightarrow> tid set \<Rightarrow> machine \<Rightarrow> bool" for own T where
  machine_start: "reachable_machine own T machine_init"
| machine_next: "reachable_machine own T w \<Longrightarrow> machine_step own T w w' \<Longrightarrow> reachable_machine own T w'"

section \<open>Lemmas on the operations\<close>

lemma find_local_SomeD:
  "find_local unique t ls = Some l \<Longrightarrow> l \<in> set ls \<and> lo_tag l = unique \<and> lo_tid l = t"
  by (auto simp: find_local_def find_Some_iff)

lemma find_local_None: "find_local unique t ls = None \<longleftrightarrow> (\<forall>l \<in> set ls. \<not> (lo_tag l = unique \<and> lo_tid l = t))"
  by (auto simp: find_local_def find_None_iff)

lemma get_local_cases:
  assumes "get_local t c st = Inr (l, st')"
  obtains (old) e where "execs st c = Some e" "st' = st" "l \<in> set (locals st)" "lo_tag l = ex_tag e" "lo_tid l = t"
    | (new) e where "execs st c = Some e" "\<forall>l \<in> set (locals st). \<not> (lo_tag l = ex_tag e \<and> lo_tid l = t)"
        "l = \<lparr>lo_tag = ex_tag e, lo_tid = t, lo_root = c, lo_root_tid = ex_thread_id e\<rparr>"
        "execs st' = (execs st)(c \<mapsto> e\<lparr>ex_running_local := ex_running_local e + 1\<rparr>)" "locals st' = l # locals st"
proof (cases "execs st c")
  case None
  with assms show ?thesis by (simp add: get_local_def)
next
  case (Some e)
  show ?thesis
  proof (cases "find_local (ex_tag e) t (locals st)")
    case None
    show ?thesis
    proof (rule new)
      show "execs st c = Some e" by (fact Some)
      show "\<forall>l \<in> set (locals st). \<not> (lo_tag l = ex_tag e \<and> lo_tid l = t)"
        using None unfolding find_local_None .
      show "l = \<lparr>lo_tag = ex_tag e, lo_tid = t, lo_root = c, lo_root_tid = ex_thread_id e\<rparr>"
        and "execs st' = (execs st)(c \<mapsto> e\<lparr>ex_running_local := ex_running_local e + 1\<rparr>)"
        and "locals st' = l # locals st"
        using assms Some None by (auto simp: get_local_def local_obj_ctor_def Let_def)
    qed
  next
    case (Some l')
    from old [OF \<open>execs st c = Some e\<close>] find_local_SomeD [OF Some] assms Some \<open>execs st c = Some e\<close>
    show ?thesis by (simp add: get_local_def)
  qed
qed

text \<open>A second call returns the same object and changes nothing.\<close>

lemma get_local_again:
  assumes "get_local t c st = Inr (l, st')" shows "get_local t c st' = Inr (l, st')"
  using assms
proof (cases rule: get_local_cases)
  case (new e)
  then show ?thesis by (simp add: get_local_def find_local_def)
qed (use assms in simp)

text \<open>The end of a thread subtracts its local contexts from the counters of their roots, except where
  the root was constructed by this thread.\<close>

definition uncounted :: "nat \<Rightarrow> local_obj list \<Rightarrow> nat" where
  "uncounted c ls = length (filter (\<lambda>l. lo_root l = c \<and> lo_tid l \<noteq> lo_root_tid l) ls)"

lemma uncounted_Cons:
  "uncounted c (l # ls) = (if lo_root l = c \<and> lo_tid l \<noteq> lo_root_tid l then 1 else 0) + uncounted c ls"
  by (simp add: uncounted_def)

lemma drop_locals_effect:
  assumes "\<forall>l \<in> set ls. lo_tid l = lo_root_tid l \<or> execs st (lo_root l) \<noteq> None"
  shows "\<exists>st'. drop_locals ls st = Inr st' \<and> locals st' = locals st
    \<and> (\<forall>c. execs st' c = map_option (\<lambda>e. e\<lparr>ex_running_local := ex_running_local e - of_nat (uncounted c ls)\<rparr>) (execs st c))"
  using assms
proof (induction ls arbitrary: st)
  case Nil
  then show ?case by (simp add: uncounted_def option.map_ident)
next
  case (Cons l ls)
  show ?case
  proof (cases "lo_tid l = lo_root_tid l")
    case True
    with Cons.IH [of st] Cons.prems show ?thesis by (simp add: local_obj_dtor_def uncounted_Cons)
  next
    case False
    with Cons.prems obtain e where e: "execs st (lo_root l) = Some e" by auto
    let ?st = "st\<lparr>execs := (execs st)(lo_root l \<mapsto> e\<lparr>ex_running_local := ex_running_local e - 1\<rparr>)\<rparr>"
    have "\<forall>l \<in> set ls. lo_tid l = lo_root_tid l \<or> execs ?st (lo_root l) \<noteq> None" using Cons.prems by auto
    from Cons.IH [OF this] obtain st' where st': "drop_locals ls ?st = Inr st'" "locals st' = locals st"
      "\<forall>c. execs st' c = map_option (\<lambda>e. e\<lparr>ex_running_local := ex_running_local e - of_nat (uncounted c ls)\<rparr>) (execs ?st c)"
      by auto
    have "execs st' c = map_option (\<lambda>e. e\<lparr>ex_running_local := ex_running_local e - of_nat (uncounted c (l # ls))\<rparr>) (execs st c)" for c
      using st'(3) False e by (cases "c = lo_root l") (simp_all add: uncounted_Cons algebra_simps)
    with st' False e show ?thesis by (simp add: local_obj_dtor_def)
  qed
qed

lemma thread_exit_effect:
  assumes "\<forall>l \<in> set (locals st). lo_tid l = t \<longrightarrow> lo_tid l = lo_root_tid l \<or> execs st (lo_root l) \<noteq> None"
  obtains st' where "thread_exit t st = Inr st'" "locals st' = filter (\<lambda>l. lo_tid l \<noteq> t) (locals st)"
    "\<And>c. execs st' c = map_option (\<lambda>e. e\<lparr>ex_running_local := ex_running_local e
        - of_nat (uncounted c (filter (\<lambda>l. lo_tid l = t) (locals st)))\<rparr>) (execs st c)"
proof -
  have "\<forall>l \<in> set (filter (\<lambda>l. lo_tid l = t) (locals st)). lo_tid l = lo_root_tid l \<or> execs st (lo_root l) \<noteq> None"
    using assms by auto
  from drop_locals_effect [OF this] that show ?thesis by (auto simp: thread_exit_def)
qed

section \<open>The invariant\<close>

definition locals_with :: "nat \<Rightarrow> contexts \<Rightarrow> nat" where
  "locals_with c st = length (filter (\<lambda>l. lo_root l = c) (locals st))"

definition local_inv :: "bool \<Rightarrow> tid set \<Rightarrow> machine \<Rightarrow> local_obj \<Rightarrow> bool" where
  "local_inv own T w l \<longleftrightarrow> lo_tid l \<in> T \<and> lo_tid l \<notin> exited w \<and> lo_tag l \<in> used_tags w \<and> lo_root l \<in> used_objs w
     \<and> (case execs (ctx w) (lo_root l) of Some e \<Rightarrow> lo_tag l = ex_tag e \<and> lo_root_tid l = ex_thread_id e
        | None \<Rightarrow> own \<longrightarrow> lo_tid l = lo_root_tid l)"

definition exec_inv :: "machine \<Rightarrow> nat \<Rightarrow> exec_obj \<Rightarrow> bool" where
  "exec_inv w c e \<longleftrightarrow> c \<in> used_objs w \<and> ex_tag e \<in> used_tags w
     \<and> ex_running_local e = of_nat (locals_with c (ctx w) + left w c)
     \<and> left w c \<le> 1 \<and> (left w c > 0 \<longrightarrow> ex_thread_id e \<in> exited w)
     \<and> (\<forall>l \<in> set (locals (ctx w)). lo_tag l = ex_tag e \<longrightarrow> lo_root l = c)
     \<and> (\<forall>c' e'. execs (ctx w) c' = Some e' \<longrightarrow> ex_tag e' = ex_tag e \<longrightarrow> c' = c)"

definition ending_inv :: "bool \<Rightarrow> tid set \<Rightarrow> machine \<Rightarrow> nat \<Rightarrow> tid \<Rightarrow> bool" where
  "ending_inv own T w c t \<longleftrightarrow> t \<in> T \<and> t \<notin> exited w \<and> has_local w t c
     \<and> (\<exists>e. execs (ctx w) c = Some e \<and> (own \<longrightarrow> t = ex_thread_id e))"

definition machine_inv :: "bool \<Rightarrow> tid set \<Rightarrow> machine \<Rightarrow> bool" where
  "machine_inv own T w \<longleftrightarrow> distinct (map (\<lambda>l. (lo_tag l, lo_tid l)) (locals (ctx w)))
     \<and> (\<forall>l \<in> set (locals (ctx w)). local_inv own T w l)
     \<and> (\<forall>c e. execs (ctx w) c = Some e \<longrightarrow> exec_inv w c e)
     \<and> (\<forall>c t. ending w c = Some t \<longrightarrow> ending_inv own T w c t)
     \<and> (\<forall>c. c \<notin> used_objs w \<longrightarrow> left w c = 0)"

lemma machine_invI:
  assumes "distinct (map (\<lambda>l. (lo_tag l, lo_tid l)) (locals (ctx w)))"
    and "\<And>l. l \<in> set (locals (ctx w)) \<Longrightarrow> local_inv own T w l"
    and "\<And>c e. execs (ctx w) c = Some e \<Longrightarrow> exec_inv w c e"
    and "\<And>c t. ending w c = Some t \<Longrightarrow> ending_inv own T w c t"
    and "\<And>c. c \<notin> used_objs w \<Longrightarrow> left w c = 0"
  shows "machine_inv own T w"
  using assms by (simp add: machine_inv_def)

lemma machine_invD:
  assumes "machine_inv own T w"
  shows "distinct (map (\<lambda>l. (lo_tag l, lo_tid l)) (locals (ctx w)))"
    and "l \<in> set (locals (ctx w)) \<Longrightarrow> local_inv own T w l"
    and "execs (ctx w) c = Some e \<Longrightarrow> exec_inv w c e"
    and "ending w c = Some t \<Longrightarrow> ending_inv own T w c t"
    and "c \<notin> used_objs w \<Longrightarrow> left w c = 0"
  using assms by (simp_all add: machine_inv_def)

lemma exec_invD:
  assumes "exec_inv w c e"
  shows "c \<in> used_objs w" "ex_tag e \<in> used_tags w"
    and "ex_running_local e = of_nat (locals_with c (ctx w) + left w c)" "left w c \<le> 1"
    and "left w c > 0 \<Longrightarrow> ex_thread_id e \<in> exited w"
    and "l \<in> set (locals (ctx w)) \<Longrightarrow> lo_tag l = ex_tag e \<Longrightarrow> lo_root l = c"
    and "execs (ctx w) c' = Some e' \<Longrightarrow> ex_tag e' = ex_tag e \<Longrightarrow> c' = c"
  using assms unfolding exec_inv_def by blast+

lemma inv_construct:
  assumes inv: "machine_inv own T w" and c: "c \<notin> used_objs w" and unique: "unique \<notin> used_tags w"
  shows "machine_inv own T (w\<lparr>ctx := exec_ctor unique t c (ctx w), used_objs := insert c (used_objs w),
      used_tags := insert unique (used_tags w)\<rparr>)"
proof -
  note D = machine_invD [OF inv]
  have root: "lo_root l \<noteq> c" "lo_tag l \<noteq> unique" if "l \<in> set (locals (ctx w))" for l
    using D(2) [OF that] c unique by (auto simp: local_inv_def)
  have dead: "execs (ctx w) c = None" using D(3) [of c] c by (cases "execs (ctx w) c") (auto simp: exec_inv_def)
  have none: "locals_with c (ctx w) = 0" using root by (auto simp: locals_with_def filter_empty_conv)
  have tags: "ex_tag e \<noteq> unique" if "execs (ctx w) c' = Some e" for c' e
    using D(3) [OF that] unique by (auto simp: exec_inv_def)
  let ?e = "\<lparr>ex_tag = unique, ex_thread_id = t, ex_running_local = 0\<rparr>"
  let ?w = "w\<lparr>ctx := exec_ctor unique t c (ctx w), used_objs := insert c (used_objs w),
      used_tags := insert unique (used_tags w)\<rparr>"
  have ex: "execs (ctx ?w) = (execs (ctx w))(c \<mapsto> ?e)" and lo: "locals (ctx ?w) = locals (ctx w)"
    by (simp_all add: exec_ctor_def)
  have other: "c' \<noteq> c" if "execs (ctx w) c' = Some e" for c' e using that dead by auto
  show ?thesis
  proof (rule machine_invI, goal_cases)
    case 1 then show ?case using D(1) unfolding lo .
  next
    case (2 l)
    then have l: "l \<in> set (locals (ctx w))" unfolding lo .
    with D(2) [OF l] root(1) [OF l] show ?case by (simp add: local_inv_def exec_ctor_def)
  next
    case (3 c' e)
    show ?case
    proof (cases "c' = c")
      case True
      with 3 have e: "e = ?e" by (simp add: exec_ctor_def)
      have "\<forall>c' e'. execs (ctx ?w) c' = Some e' \<longrightarrow> ex_tag e' = unique \<longrightarrow> c' = c"
        using tags unfolding ex by (auto split: if_splits)
      with none D(5) [OF c] root(2) show ?thesis
        unfolding exec_inv_def lo locals_with_def True e by (auto simp: lo)
    next
      case False
      with 3 have e: "execs (ctx w) c' = Some e" by (simp add: exec_ctor_def)
      have "\<forall>c'' e'. execs (ctx ?w) c'' = Some e' \<longrightarrow> ex_tag e' = ex_tag e \<longrightarrow> c'' = c'"
        using D(3) [OF e] tags [OF e] unfolding ex exec_inv_def by (auto split: if_splits)
      with D(3) [OF e] show ?thesis
        unfolding exec_inv_def locals_with_def lo by simp
    qed
  next
    case (4 c' t')
    then have "ending_inv own T w c' t'" using D(4) by simp
    with other [of c'] show ?case unfolding ending_inv_def has_local_def lo ex by auto
  next
    case (5 c') then show ?case using D(5) [of c'] by simp
  qed
qed

lemma has_local_mono:
  "set (locals (ctx w)) \<subseteq> set (locals (ctx w')) \<Longrightarrow> has_local w t c \<Longrightarrow> has_local w' t c"
  by (auto simp: has_local_def)

text \<open>A new local context is counted by its root and by no other.\<close>

lemma get_local_exec_inv:
  assumes inv: "machine_inv own T w" and e: "execs (ctx w) c = Some e"
    and l: "lo_tag l = ex_tag e" "lo_root l = c" and locals: "locals st = l # locals (ctx w)"
    and execs: "execs st = (execs (ctx w))(c \<mapsto> e\<lparr>ex_running_local := ex_running_local e + 1\<rparr>)"
    and e': "execs st c' = Some e'"
  shows "exec_inv (w\<lparr>ctx := st\<rparr>) c' e'"
proof -
  note D = machine_invD [OF inv]
  obtain f where f: "execs (ctx w) c' = Some f" "ex_tag e' = ex_tag f" "ex_thread_id e' = ex_thread_id f"
      "ex_running_local e' = ex_running_local f + (if c' = c then 1 else 0)"
    using e' e execs by (cases "c' = c") auto
  note F = D(3) [OF f(1), unfolded exec_inv_def]
  have same: "ex_tag f = ex_tag e \<Longrightarrow> c' = c" using F e by metis
  have "locals_with c' st = locals_with c' (ctx w) + (if c' = c then 1 else 0)"
    by (simp add: locals_with_def locals l)
  then have "ex_running_local e' = of_nat (locals_with c' st + left w c')" using F f(4) by simp
  moreover have "\<forall>l' \<in> set (locals st). lo_tag l' = ex_tag e' \<longrightarrow> lo_root l' = c'"
    using F f(2) same l by (simp add: locals)
  moreover have "d = c'" if "execs st d = Some g" "ex_tag g = ex_tag e'" for d g
  proof -
    from that(1) e execs obtain h where "execs (ctx w) d = Some h" "ex_tag g = ex_tag h"
      by (cases "d = c") auto
    with F f(2) that(2) show ?thesis by metis
  qed
  ultimately show ?thesis using F f(2,3) by (simp add: exec_inv_def)
qed

lemma inv_get_local:
  assumes inv: "machine_inv own T w" and t: "t \<in> T" "t \<notin> exited w" and gl: "get_local t c (ctx w) = Inr (l, st)"
  shows "machine_inv own T (w\<lparr>ctx := st\<rparr>)" and "has_local (w\<lparr>ctx := st\<rparr>) t c" and "lo_root l = c"
proof -
  note D = machine_invD [OF inv]
  have "machine_inv own T (w\<lparr>ctx := st\<rparr>) \<and> has_local (w\<lparr>ctx := st\<rparr>) t c \<and> lo_root l = c"
    using gl
  proof (cases rule: get_local_cases)
    case (old e)
    have "lo_root l = c" using D(3) [OF old(1)] old(3,4) unfolding exec_inv_def by blast
    with old inv show ?thesis by (auto simp: has_local_def)
  next
    case (new e)
    let ?w = "w\<lparr>ctx := st\<rparr>" let ?e = "e\<lparr>ex_running_local := ex_running_local e + 1\<rparr>"
    note E = D(3) [OF new(1)]
    have l: "lo_tag l = ex_tag e" "lo_tid l = t" "lo_root l = c" "lo_root_tid l = ex_thread_id e"
      by (simp_all add: new(3))
    have ctx: "execs (ctx ?w) = (execs (ctx w))(c \<mapsto> ?e)" "locals (ctx ?w) = l # locals (ctx w)"
      using new(4,5) by simp_all
    have "machine_inv own T ?w"
    proof (rule machine_invI, goal_cases)
      case 1
      have "(lo_tag l, lo_tid l) \<notin> set (map (\<lambda>l. (lo_tag l, lo_tid l)) (locals (ctx w)))"
        using new(2) by (auto simp: l)
      with D(1) show ?case unfolding ctx by simp
    next
      case (2 l')
      then consider "l' = l" | "l' \<in> set (locals (ctx w))" by (auto simp: new(5))
      then show ?case
      proof cases
        case 1
        with E t show ?thesis by (simp add: local_inv_def exec_inv_def l new(4))
      next
        case 2
        from D(2) [OF this] new(1,4) show ?thesis
          by (cases "lo_root l' = c") (auto simp: local_inv_def)
      qed
    next
      case (3 c' e')
      then show ?case by (intro get_local_exec_inv [OF inv new(1) l(1,3) new(5,4)]) simp
    next
      case (4 c' t')
      then have ei: "ending_inv own T w c' t'" using D(4) by simp
      have "set (locals (ctx w)) \<subseteq> set (locals (ctx ?w))" by (auto simp: new(5))
      moreover have "\<exists>g. execs (ctx ?w) c' = Some g \<and> ex_thread_id g = ex_thread_id f"
        if "execs (ctx w) c' = Some f" for f using that new(1,4) by (cases "c' = c") simp_all
      ultimately show ?case
        using ei has_local_mono [of w ?w] unfolding ending_inv_def by (simp, metis)
    next
      case (5 c')
      then show ?case using D(5) by simp
    qed
    then show ?thesis using l by (auto simp: has_local_def new(5))
  qed
  then show "machine_inv own T (w\<lparr>ctx := st\<rparr>)" and "has_local (w\<lparr>ctx := st\<rparr>) t c" and "lo_root l = c" by blast+
qed

lemma locals_of_le_1:
  assumes inv: "machine_inv own T w" and e: "execs (ctx w) c = Some e"
  shows "length (locals_of c t (locals (ctx w))) \<le> 1"
proof -
  let ?ls = "locals_of c t (locals (ctx w))"
  have "(lo_tag l, lo_tid l) = (ex_tag e, t)" if "l \<in> set ?ls" for l
    using that machine_invD(2) [OF inv, of l] e by (auto simp: locals_of_def local_inv_def)
  then have "set (map (\<lambda>l. (lo_tag l, lo_tid l)) ?ls) \<subseteq> {(ex_tag e, t)}" by auto
  moreover have "distinct (map (\<lambda>l. (lo_tag l, lo_tid l)) ?ls)"
    using machine_invD(1) [OF inv] unfolding locals_of_def by (rule distinct_map_filter)
  ultimately have "length (map (\<lambda>l. (lo_tag l, lo_tid l)) ?ls) \<le> card {(ex_tag e, t)}"
    by (metis card_mono distinct_card finite.emptyI finite_insert)
  then show ?thesis by simp
qed

lemma split_by_thread:
  "length (filter (\<lambda>l. lo_root l = c) ls)
     = length (filter (\<lambda>l. lo_root l = c) (filter (\<lambda>l. lo_tid l \<noteq> t) ls)) + length (locals_of c t ls)"
  by (induction ls) (auto simp: locals_of_def)

text \<open>The end of a thread keeps the count of each root.\<close>

lemma exit_exec_inv:
  assumes inv: "machine_inv own T w" and t: "running_thread T w t"
    and lo: "locals st = filter (\<lambda>l. lo_tid l \<noteq> t) (locals (ctx w))"
    and keep: "\<And>c e. execs st c = Some e \<Longrightarrow> \<exists>f. execs (ctx w) c = Some f \<and> ex_tag e = ex_tag f \<and> ex_thread_id e = ex_thread_id f
      \<and> ex_running_local e = ex_running_local f - of_nat (uncounted c (filter (\<lambda>l. lo_tid l = t) (locals (ctx w))))"
    and e: "execs st c = Some e"
  shows "exec_inv (w\<lparr>ctx := st, exited := insert t (exited w),
      left := (\<lambda>c. left w c + (case execs (ctx w) c of None \<Rightarrow> 0
        | Some e \<Rightarrow> if ex_thread_id e = t then length (locals_of c t (locals (ctx w))) else 0))\<rparr>) c e" (is "exec_inv ?w c e")
proof -
  note D = machine_invD [OF inv]
  let ?mine = "filter (\<lambda>l. lo_tid l = t) (locals (ctx w))"
  from keep [OF e] obtain f where f: "execs (ctx w) c = Some f" "ex_tag e = ex_tag f" "ex_thread_id e = ex_thread_id f"
    "ex_running_local e = ex_running_local f - of_nat (uncounted c ?mine)" by auto
  note F = exec_invD [OF D(3) [OF f(1)]]
  let ?n = "length (locals_of c t (locals (ctx w)))"
  have roots: "lo_root_tid l = ex_thread_id f" if "l \<in> set (locals (ctx w))" "lo_root l = c" for l
    using D(2) [OF that(1)] that(2) f(1) by (simp add: local_inv_def)
  have un: "uncounted c ?mine = (if ex_thread_id f = t then 0 else ?n)"
  proof -
    have "filter (\<lambda>l. lo_root l = c \<and> lo_tid l \<noteq> lo_root_tid l) ?mine
        = (if ex_thread_id f = t then [] else locals_of c t (locals (ctx w)))"
      using roots by (auto simp: locals_of_def filter_empty_conv intro!: filter_cong)
    then show ?thesis by (simp add: uncounted_def)
  qed
  have sp: "locals_with c (ctx w) = locals_with c st + ?n"
    using split_by_thread [of c "locals (ctx w)" t] by (simp add: locals_with_def lo)
  have le: "?n \<le> 1" by (rule locals_of_le_1 [OF inv f(1)])
  have lw: "left ?w c = left w c + (if ex_thread_id f = t then ?n else 0)" by (simp add: f(1))
  have zero: "ex_thread_id f = t \<Longrightarrow> left w c = 0" using F(5) t unfolding running_thread_def by (cases "left w c = 0") auto
  have "ex_running_local e = of_nat (locals_with c st + left ?w c)"
    unfolding f(4) un lw F(3) sp by simp
  moreover have "left ?w c \<le> 1" unfolding lw using F(4) le zero by auto
  moreover have "left ?w c > 0 \<longrightarrow> ex_thread_id e \<in> exited ?w"
    unfolding lw f(3) using F(5) by (cases "ex_thread_id f = t") simp_all
  moreover have "\<forall>l \<in> set (locals st). lo_tag l = ex_tag e \<longrightarrow> lo_root l = c"
    using F(6) unfolding f(2) lo by simp
  moreover have "d = c" if "execs st d = Some g" "ex_tag g = ex_tag e" for d g
    using keep [OF that(1)] F(7) that(2) f(2) by metis
  ultimately show ?thesis using F(1,2) f(2) unfolding exec_inv_def by simp
qed

lemma inv_exit:
  assumes inv: "machine_inv own T w" and t: "running_thread T w t" and ex: "thread_exit t (ctx w) = Inr st"
    and roots: "\<forall>l \<in> set (locals (ctx w)). lo_tid l = t \<longrightarrow> lo_tid l = lo_root_tid l \<or> execs (ctx w) (lo_root l) \<noteq> None"
  shows "machine_inv own T (w\<lparr>ctx := st, exited := insert t (exited w),
      left := (\<lambda>c. left w c + (case execs (ctx w) c of None \<Rightarrow> 0
        | Some e \<Rightarrow> if ex_thread_id e = t then length (locals_of c t (locals (ctx w))) else 0))\<rparr>)" (is "machine_inv own T ?w")
proof -
  note D = machine_invD [OF inv]
  let ?mine = "filter (\<lambda>l. lo_tid l = t) (locals (ctx w))"
  from thread_exit_effect [OF roots] obtain st' where st': "thread_exit t (ctx w) = Inr st'"
    "locals st' = filter (\<lambda>l. lo_tid l \<noteq> t) (locals (ctx w))"
    "\<And>c. execs st' c = map_option (\<lambda>e. e\<lparr>ex_running_local := ex_running_local e - of_nat (uncounted c ?mine)\<rparr>) (execs (ctx w) c)"
    by blast
  have "st' = st" using st'(1) ex by simp
  with st' have lo: "locals st = filter (\<lambda>l. lo_tid l \<noteq> t) (locals (ctx w))"
    and ec: "\<And>c. execs st c = map_option (\<lambda>e. e\<lparr>ex_running_local := ex_running_local e - of_nat (uncounted c ?mine)\<rparr>) (execs (ctx w) c)"
    by simp_all
  have keep: "\<exists>f. execs (ctx w) c = Some f \<and> ex_tag e = ex_tag f \<and> ex_thread_id e = ex_thread_id f
      \<and> ex_running_local e = ex_running_local f - of_nat (uncounted c ?mine)" if "execs st c = Some e" for c e
    using that unfolding ec by auto
  show ?thesis
  proof (rule machine_invI, goal_cases)
    case 1
    have "distinct (map (\<lambda>l. (lo_tag l, lo_tid l)) (filter (\<lambda>l. lo_tid l \<noteq> t) (locals (ctx w))))"
      using D(1) by (rule distinct_map_filter)
    then show ?case by (simp add: lo)
  next
    case (2 l)
    then have l: "l \<in> set (locals (ctx w))" "lo_tid l \<noteq> t" by (simp_all add: lo)
    with D(2) [OF l(1)] show ?case by (simp add: local_inv_def ec option.case_eq_if) (simp add: option.map_sel)
  next
    case (3 c e)
    then show ?case by (intro exit_exec_inv [OF inv t lo keep]) simp_all
  next
    case (4 c t')
    then have ei: "ending_inv own T w c t'" and "ending w c = Some t'" using D(4) by simp_all
    with t have "t' \<noteq> t" by (auto simp: running_thread_def)
    with ei show ?case
      unfolding ending_inv_def has_local_def by (auto simp: lo ec)
  next
    case (5 c)
    have "execs (ctx w) c = None" if "c \<notin> used_objs w"
      using D(3) [of c] that by (cases "execs (ctx w) c") (auto simp: exec_inv_def)
    with 5 D(5) [of c] show ?case by simp
  qed
qed

text \<open>A context has at most one local context per thread, so the counter does not wrap around.\<close>

lemma locals_with_bound:
  assumes inv: "machine_inv own T w" and fin: "finite T" and e: "execs (ctx w) c = Some e"
  shows "locals_with c (ctx w) \<le> card T"
proof -
  let ?ls = "filter (\<lambda>l. lo_root l = c) (locals (ctx w))"
  have tag: "lo_tag l = ex_tag e" and tid: "lo_tid l \<in> T" if "l \<in> set ?ls" for l
    using that machine_invD(2) [OF inv, of l] e by (auto simp: local_inv_def)
  have "distinct (map (\<lambda>l. (lo_tag l, lo_tid l)) ?ls)"
    using machine_invD(1) [OF inv] by (rule distinct_map_filter)
  moreover have "map (\<lambda>l. (lo_tag l, lo_tid l)) ?ls = map (Pair (ex_tag e)) (map lo_tid ?ls)"
    using tag by simp
  ultimately have "distinct (map lo_tid ?ls)" using distinct_map by metis
  then have "length (map lo_tid ?ls) = card (set (map lo_tid ?ls))" by (rule distinct_card [symmetric])
  also have "\<dots> \<le> card T" using tid by (intro card_mono fin) auto
  finally show ?thesis by (simp add: locals_with_def)
qed

lemma running_count:
  assumes inv: "machine_inv own T w" and fin: "finite T" "card T + 1 < 2 ^ 64" and e: "execs (ctx w) c = Some e"
  shows "unat (ex_running_local e) = locals_with c (ctx w) + left w c"
proof -
  note E = exec_invD [OF machine_invD(3) [OF inv e]]
  have "locals_with c (ctx w) + left w c < 2 ^ 64"
    using locals_with_bound [OF inv fin(1) e] E(4) fin(2) by linarith
  then show ?thesis unfolding E(3) by (intro unat_count) simp
qed

lemma wait_over_count:
  assumes inv: "machine_inv own T w" and fin: "finite T" "card T + 1 < 2 ^ 64" and e: "execs (ctx w) c = Some e"
  shows "wait_over c (ctx w) \<longleftrightarrow> locals_with c (ctx w) + left w c \<le> 1"
  using e by (simp add: wait_over_def not_less word_le_nat_alt running_count [OF assms])

text \<open>The destructor of the constructing thread goes on exactly when it has the only local context.\<close>

lemma wait_over_own:
  assumes inv: "machine_inv True T w" and fin: "finite T" "card T + 1 < 2 ^ 64" and en: "ending w c = Some t"
  shows "wait_over c (ctx w) \<longleftrightarrow> (\<forall>l \<in> set (locals (ctx w)). lo_root l = c \<longrightarrow> lo_tid l = t)"
proof -
  from machine_invD(4) [OF inv en] obtain e l0 where e: "execs (ctx w) c = Some e" and t: "t = ex_thread_id e" "t \<notin> exited w"
    and l0: "l0 \<in> set (locals (ctx w))" "lo_tid l0 = t" "lo_root l0 = c" by (auto simp: ending_inv_def has_local_def)
  note E = exec_invD [OF machine_invD(3) [OF inv e]]
  have left: "left w c = 0" using E(5) t by (cases "left w c") auto
  let ?rest = "filter (\<lambda>l. lo_root l = c) (filter (\<lambda>l. lo_tid l \<noteq> t) (locals (ctx w)))"
  have "l0 \<in> set (locals_of c t (locals (ctx w)))" using l0 by (simp add: locals_of_def)
  then have "length (locals_of c t (locals (ctx w))) = 1"
    using locals_of_le_1 [OF inv e, of t] by (cases "locals_of c t (locals (ctx w))") auto
  then have "locals_with c (ctx w) = length ?rest + 1"
    using split_by_thread [of c "locals (ctx w)" t] by (simp add: locals_with_def)
  then have "wait_over c (ctx w) \<longleftrightarrow> ?rest = []"
    unfolding wait_over_count [OF inv fin e] left by simp
  also have "\<dots> \<longleftrightarrow> (\<forall>l \<in> set (locals (ctx w)). lo_root l = c \<longrightarrow> lo_tid l = t)"
    by (auto simp: filter_empty_conv)
  finally show ?thesis .
qed

lemma inv_end:
  assumes inv: "machine_inv own T w" and fin: "finite T" "card T + 1 < 2 ^ 64"
    and en: "ending w c = Some t" and over: "wait_over c (ctx w)"
  shows "machine_inv own T (w\<lparr>ctx := (ctx w)\<lparr>execs := (execs (ctx w))(c := None)\<rparr>, ending := (ending w)(c := None)\<rparr>)"
proof -
  note D = machine_invD [OF inv]
  have mine: "lo_tid l = lo_root_tid l" if own and l: "l \<in> set (locals (ctx w))" "lo_root l = c" for l
  proof -
    from that inv have inv': "machine_inv True T w" by simp
    from D(4) [OF en] \<open>own\<close> obtain e where "execs (ctx w) c = Some e" "t = ex_thread_id e" by (auto simp: ending_inv_def)
    moreover have "lo_tid l = t" using wait_over_own [OF inv' fin en] over l by blast
    ultimately show ?thesis using D(2) [OF l(1)] l(2) by (simp add: local_inv_def)
  qed
  show ?thesis
  proof (rule machine_invI, goal_cases)
    case 1 then show ?case using D(1) by simp
  next
    case (2 l)
    then have l: "l \<in> set (locals (ctx w))" by simp
    with D(2) [OF l] mine [of l] show ?case by (simp add: local_inv_def)
  next
    case (3 c' e)
    then have "execs (ctx w) c' = Some e" by (simp split: if_splits)
    from exec_invD [OF D(3) [OF this]] show ?case
      unfolding exec_inv_def by (simp add: locals_with_def)
  next
    case (4 c' t')
    then have "c' \<noteq> c" "ending_inv own T w c' t'" using D(4) by (simp_all split: if_splits)
    then show ?case by (simp add: ending_inv_def has_local_def)
  next
    case (5 c') then show ?case using D(5) by simp
  qed
qed

lemma dead_roots:
  assumes "machine_inv True T w"
  shows "\<forall>l \<in> set (locals (ctx w)). lo_tid l = t \<longrightarrow> lo_tid l = lo_root_tid l \<or> execs (ctx w) (lo_root l) \<noteq> None"
proof (intro ballI impI)
  fix l assume "l \<in> set (locals (ctx w))"
  from machine_invD(2) [OF assms this]
  show "lo_tid l = lo_root_tid l \<or> execs (ctx w) (lo_root l) \<noteq> None"
    by (cases "execs (ctx w) (lo_root l)") (simp_all add: local_inv_def)
qed

lemma roots_if_exit:
  assumes "thread_exit t st = Inr st'"
  shows "\<forall>l \<in> set (locals st). lo_tid l = t \<longrightarrow> lo_tid l = lo_root_tid l \<or> execs st (lo_root l) \<noteq> None"
proof -
  have "drop_locals ls u = Inr u' \<Longrightarrow> \<forall>l \<in> set ls. lo_tid l = lo_root_tid l \<or> execs u (lo_root l) \<noteq> None" for ls u u'
  proof (induction ls arbitrary: u)
    case (Cons l ls)
    then obtain v where v: "local_obj_dtor l u = Inr v" "drop_locals ls v = Inr u'" by auto
    then have "execs v d \<noteq> None \<longleftrightarrow> execs u d \<noteq> None" "lo_tid l = lo_root_tid l \<or> execs u (lo_root l) \<noteq> None" for d
      by (auto simp: local_obj_dtor_def split: if_splits option.splits)
    with Cons.IH [OF v(2)] show ?case by auto
  qed simp
  from this [of "filter (\<lambda>l. lo_tid l = t) (locals st)" st] assms show ?thesis by (auto simp: thread_exit_def)
qed

lemma machine_step_inv:
  assumes "machine_step own T w w'" "machine_inv own T w" "finite T" "card T + 1 < 2 ^ 64"
  shows "machine_inv own T w'"
  using assms
proof (cases rule: machine_step.cases)
  case (construct t c unique)
  show ?thesis unfolding construct(1) by (rule inv_construct [OF assms(2) construct(3,4)])
next
  case (call_local t c l st)
  have "t \<in> T" "t \<notin> exited w" using call_local(2) by (simp_all add: running_thread_def)
  then show ?thesis unfolding call_local(1) by (rule inv_get_local(1) [OF assms(2) _ _ call_local(4)])
next
  case (exit_thread t st)
  show ?thesis unfolding exit_thread(1)
    by (rule inv_exit [OF assms(2) exit_thread(2,3) roots_if_exit [OF exit_thread(3)]])
next
  case (begin_dtor t c e l st)
  then have t: "t \<in> T" "t \<notin> exited w" by (simp_all add: running_thread_def)
  let ?w = "w\<lparr>ctx := st\<rparr>"
  note g = inv_get_local [OF assms(2) t begin_dtor(6)]
  note D = machine_invD [OF g(1)]
  from begin_dtor(6) have "\<exists>f. execs st c = Some f \<and> ex_thread_id f = ex_thread_id e"
    by (cases rule: get_local_cases) (use begin_dtor(4) in auto)
  with g(2) begin_dtor(5) t have new: "ending_inv own T ?w c t" by (auto simp: ending_inv_def)
  show ?thesis
    unfolding begin_dtor(1)
  proof (rule machine_invI, goal_cases)
    case (4 c' t')
    with D(4) [of c' t'] new have "ending_inv own T ?w c' t'" by (simp split: if_splits)
    then show ?case by (simp add: ending_inv_def has_local_def)
  next
    case (3 c' e')
    have "exec_inv (w\<lparr>ctx := st, ending := (ending w)(c \<mapsto> t)\<rparr>) c' e' = exec_inv ?w c' e'"
      by (simp add: exec_inv_def)
    with 3 D(3) [of c' e'] show ?case by simp
  next
    case (2 l)
    then have "local_inv own T ?w l" using D(2) by simp
    then show ?case by (simp add: local_inv_def)
  qed (use D(1,5) in simp_all)
next
  case (end_dtor c t)
  show ?thesis unfolding end_dtor(1) by (rule inv_end [OF assms(2-4) end_dtor(2,3)])
qed

lemma machine_init_inv: "machine_inv own T machine_init"
  by (simp add: machine_inv_def machine_init_def)

lemma reachable_inv:
  assumes "reachable_machine own T w" "finite T" "card T + 1 < 2 ^ 64"
  shows "machine_inv own T w"
  using assms(1) by induction (use machine_init_inv machine_step_inv assms(2,3) in \<open>blast+\<close>)

text \<open>The documented misuse: contexts that one place of the program constructs in turn (a loop) have one tag,
  and the thread that used the first one gets its local context, with the first one as root, from the
  second one as well. The counter of the second stays at zero.\<close>

lemma same_site_shares_local:
  assumes first: "get_local t a (exec_ctor unique t a st) = Inr (l, st1)"
    and dead: "st2 = st1\<lparr>execs := (execs st1)(a := None)\<rparr>" and new: "b \<noteq> a"
  shows "\<exists>e. get_local t b (exec_ctor unique t b st2) = Inr (l, exec_ctor unique t b st2)
    \<and> execs (exec_ctor unique t b st2) b = Some e \<and> ex_running_local e = 0"
proof -
  from first have "find_local unique t (locals st1) = Some l"
    by (auto simp: get_local_def exec_ctor_def local_obj_ctor_def find_local_def Let_def split: option.splits)
  then show ?thesis by (simp add: get_local_def exec_ctor_def dead)
qed

section \<open>Properties\<close>

text \<open>A context of thread 1, used by threads 1 and 2, whose destructor has begun: in the thread of its
  constructor, or (for \<open>elsewhere\<close>) in thread 2.\<close>

definition sample_exec_obj :: exec_obj where
  "sample_exec_obj = \<lparr>ex_tag = 7, ex_thread_id = 1, ex_running_local = 2\<rparr>"

definition sample_locals :: "tid \<Rightarrow> tid \<Rightarrow> local_obj list" where
  "sample_locals t u = [\<lparr>lo_tag = 7, lo_tid = u, lo_root = 0, lo_root_tid = 1\<rparr>,
     \<lparr>lo_tag = 7, lo_tid = t, lo_root = 0, lo_root_tid = 1\<rparr>]"

definition sample_machine :: "tid \<Rightarrow> tid \<Rightarrow> machine" where
  "sample_machine t u = \<lparr>ctx = \<lparr>execs = (\<lambda>_. None)(0 \<mapsto> sample_exec_obj), locals = sample_locals t u\<rparr>,
     exited = {}, used_tags = {7}, used_objs = {0}, ending = (\<lambda>_. None)(0 \<mapsto> u), left = (\<lambda>_. 0)\<rparr>"

lemma sample_machine_reachable:
  assumes tu: "(t, u) = (2, 1) \<or> \<not> own \<and> (t, u) = (1, 2)"
  shows "reachable_machine own {1, 2} (sample_machine t u)"
proof -
  have T: "t \<in> {1, 2}" "u \<in> {1, 2}" "t \<noteq> u" using tu by auto
  let ?c1 = "exec_ctor 7 1 0 \<lparr>execs = (\<lambda>_. None), locals = []\<rparr>"
  let ?w1 = "machine_init\<lparr>ctx := ?c1, used_objs := {0}, used_tags := {7}\<rparr>"
  let ?c2 = "\<lparr>execs = (\<lambda>_. None)(0 \<mapsto> sample_exec_obj\<lparr>ex_running_local := 1\<rparr>),
     locals = [\<lparr>lo_tag = 7, lo_tid = t, lo_root = 0, lo_root_tid = 1\<rparr>]\<rparr>"
  have idle: "running_thread {1, 2} (w\<lparr>ctx := x\<rparr>) v = running_thread {1, 2} w v" for w x v
    by (simp add: running_thread_def)
  have "machine_step own {1, 2} machine_init ?w1"
    using machine_step.construct [of "{1, 2}" machine_init 1 0 7 own]
    by (simp add: machine_init_def running_thread_def)
  then have r1: "reachable_machine own {1, 2} ?w1" by (rule machine_next [OF machine_start])
  have run1: "running_thread {1, 2} ?w1 v" if "v \<in> {1, 2}" for v
    using that by (simp add: running_thread_def machine_init_def)
  have "get_local t 0 (ctx ?w1) = Inr (hd (locals ?c2), ?c2)"
    by (simp add: get_local_def exec_ctor_def find_local_def local_obj_ctor_def Let_def sample_exec_obj_def)
  from call_local [OF run1 [OF T(1)] _ this, of own]
  have r2: "reachable_machine own {1, 2} (?w1\<lparr>ctx := ?c2\<rparr>)"
    by (intro machine_next [OF r1]) (simp add: machine_init_def)
  have gl: "get_local u 0 (ctx (?w1\<lparr>ctx := ?c2\<rparr>)) = Inr (hd (sample_locals t u),
      \<lparr>execs = (\<lambda>_. None)(0 \<mapsto> sample_exec_obj), locals = sample_locals t u\<rparr>)"
    using T(3) by (simp add: get_local_def find_local_def local_obj_ctor_def Let_def sample_exec_obj_def sample_locals_def)
  have "running_thread {1, 2} (?w1\<lparr>ctx := ?c2\<rparr>) u" using run1 [OF T(2)] by (simp add: running_thread_def)
  from begin_dtor [OF this _ _ _ gl, of "sample_exec_obj\<lparr>ex_running_local := 1\<rparr>" own] tu
  show ?thesis
    by (intro machine_next [OF r2]) (auto simp: machine_init_def sample_machine_def sample_exec_obj_def)
qed



text \<open>
  C7. The wait of the destructor ends exactly when it should: the thread that constructed the context and
  destroys it goes on past \<open>_running_local > 1\<close> if and only if no other thread has a local context of it
  left; in particular once every other thread has ended.
\<close>

theorem destructor_waits_for_other_threads:
  assumes "reachable_machine True T w" and "finite T" and "card T + 1 < 2 ^ 64" and "ending w c = Some t"
  shows "(wait_over c (ctx w) \<longleftrightarrow> (\<forall>l \<in> set (locals (ctx w)). lo_root l = c \<longrightarrow> lo_tid l = t))
    \<and> (T - {t} \<subseteq> exited w \<longrightarrow> wait_over c (ctx w))"
proof -
  note inv = reachable_inv [OF assms(1-3)]
  have "lo_tid l = t" if "T - {t} \<subseteq> exited w" "l \<in> set (locals (ctx w))" for l
    using machine_invD(2) [OF inv that(2)] that(1) by (auto simp: local_inv_def)
  with wait_over_own [OF inv assms(2-4)] show ?thesis by blast
qed

theorem destructor_waits_for_other_threads_witness:
  "\<not> wait_over 0 (ctx (sample_machine 2 1))"
proof -
  have "ending (sample_machine 2 1) 0 = Some 1" by (simp add: sample_machine_def)
  moreover have "reachable_machine True {1, 2} (sample_machine 2 1)" by (rule sample_machine_reachable) simp
  ultimately show ?thesis
    using destructor_waits_for_other_threads [of "{1, 2}" "sample_machine 2 1" 0 1] by (simp add: sample_machine_def sample_locals_def)
qed

text \<open>What keeps the count above one.\<close>

definition stuck_ending :: "tid set \<Rightarrow> nat \<Rightarrow> tid \<Rightarrow> tid \<Rightarrow> machine \<Rightarrow> bool" where
  "stuck_ending T c t r w \<longleftrightarrow> machine_inv False T w \<and> ending w c = Some t
     \<and> (\<exists>e. execs (ctx w) c = Some e \<and> ex_thread_id e = r) \<and> (has_local w r c \<or> left w c > 0)"

lemma stuck_not_over:
  assumes st: "stuck_ending T c t r w" and fin: "finite T" "card T + 1 < 2 ^ 64" and tr: "t \<noteq> r"
  shows "\<not> wait_over c (ctx w)"
proof -
  from st obtain e where inv: "machine_inv False T w" and e: "execs (ctx w) c = Some e"
    and en: "ending w c = Some t" and r: "has_local w r c \<or> left w c > 0" by (auto simp: stuck_ending_def)
  from machine_invD(4) [OF inv en] obtain l0 where l0: "l0 \<in> set (locals (ctx w))" "lo_tid l0 = t" "lo_root l0 = c"
    by (auto simp: ending_inv_def has_local_def)
  let ?ls = "filter (\<lambda>l. lo_root l = c) (locals (ctx w))"
  from r have "1 < locals_with c (ctx w) + left w c"
  proof
    assume "has_local w r c"
    then obtain l1 where "l1 \<in> set ?ls" "lo_tid l1 = r" by (auto simp: has_local_def)
    with l0 tr have "{l0, l1} \<subseteq> set ?ls" "l0 \<noteq> l1" by auto
    then have "card {l0, l1} \<le> length ?ls" by (meson List.finite_set card_length card_mono le_trans)
    with \<open>l0 \<noteq> l1\<close> show ?thesis by (simp add: locals_with_def)
  next
    assume "left w c > 0"
    moreover have "?ls \<noteq> []" using l0 by (auto simp: filter_empty_conv)
    ultimately show ?thesis by (cases ?ls) (simp_all add: locals_with_def)
  qed
  then show ?thesis using wait_over_count [OF inv fin e] by simp
qed

lemma get_local_keeps:
  assumes "get_local u d st = Inr (l, st')" "execs st c = Some e"
  shows "\<exists>f. execs st' c = Some f \<and> ex_thread_id f = ex_thread_id e" "set (locals st) \<subseteq> set (locals st')"
  using assms(1)
proof (atomize (full), cases rule: get_local_cases)
  case (new f)
  then show "(\<exists>f. execs st' c = Some f \<and> ex_thread_id f = ex_thread_id e) \<and> set (locals st) \<subseteq> set (locals st')"
    using assms(2) by (cases "c = d") auto
qed (use assms(2) in simp)

lemma stuck_step:
  assumes st: "stuck_ending T c t r w" and step: "machine_step False T w w'"
    and fin: "finite T" "card T + 1 < 2 ^ 64" and tr: "t \<noteq> r"
  shows "stuck_ending T c t r w'"
proof -
  from st obtain e where inv: "machine_inv False T w" and e: "execs (ctx w) c = Some e" "ex_thread_id e = r"
    and en: "ending w c = Some t" and r: "has_local w r c \<or> left w c > 0" by (auto simp: stuck_ending_def)
  note inv' = machine_step_inv [OF step inv fin]
  from step have "ending w' c = Some t \<and> (\<exists>f. execs (ctx w') c = Some f \<and> ex_thread_id f = r)
      \<and> (has_local w' r c \<or> left w' c > 0)"
  proof (cases rule: machine_step.cases)
    case (construct u d unique)
    have "d \<noteq> c" using construct(3) exec_invD(1) [OF machine_invD(3) [OF inv e(1)]] by blast
    with e r en show ?thesis by (simp add: construct(1) exec_ctor_def has_local_def)
  next
    case (call_local u d l st)
    from get_local_keeps [OF call_local(4) e(1)] e(2) r en show ?thesis
      by (auto simp: call_local(1) has_local_def)
  next
    case (exit_thread u st)
    from thread_exit_effect [OF roots_if_exit [OF exit_thread(3)]] obtain st' where
      st': "thread_exit u (ctx w) = Inr st'" "locals st' = filter (\<lambda>l. lo_tid l \<noteq> u) (locals (ctx w))"
      "\<And>d. execs st' d = map_option (\<lambda>e. e\<lparr>ex_running_local := ex_running_local e
        - of_nat (uncounted d (filter (\<lambda>l. lo_tid l = u) (locals (ctx w))))\<rparr>) (execs (ctx w) d)" by blast
    have "st' = st" using st'(1) exit_thread(3) by simp
    with st' e have ex: "\<exists>f. execs st c = Some f \<and> ex_thread_id f = r" by auto
    have "has_local w' r c \<or> left w' c > 0"
    proof (cases "u = r")
      case True
      then have "has_local w r c \<Longrightarrow> locals_of c r (locals (ctx w)) \<noteq> []"
        by (auto simp: has_local_def locals_of_def filter_empty_conv)
      with r e True show ?thesis by (auto simp: exit_thread(1))
    next
      case False
      with r \<open>st' = st\<close> st'(2) show ?thesis by (auto simp: exit_thread(1) has_local_def)
    qed
    with ex en show ?thesis by (simp add: exit_thread(1))
  next
    case (begin_dtor u d f l st)
    have "d \<noteq> c" using begin_dtor(3) en by auto
    with get_local_keeps [OF begin_dtor(6) e(1)] e(2) r en show ?thesis
      by (auto simp: begin_dtor(1) has_local_def)
  next
    case (end_dtor d u)
    have "d \<noteq> c" using stuck_not_over [OF st fin tr] end_dtor(3) by blast
    with e r en show ?thesis by (simp add: end_dtor(1) has_local_def)
  qed
  with inv' show ?thesis by (auto simp: stuck_ending_def)
qed

text \<open>
  C8. A context must be destroyed by the thread that constructed it. If that thread has used its local
  context and another thread runs the destructor, the destructor waits forever: the local context of
  the constructing thread is never subtracted from \<open>_running_local\<close>, not even when that thread ends,
  so in every later state the count is above one.
\<close>

theorem destructor_elsewhere_never_ends:
  assumes "reachable_machine False T w" and "finite T" and "card T + 1 < 2 ^ 64"
    and "ending w c = Some t" and "execs (ctx w) c = Some e" and "t \<noteq> ex_thread_id e"
    and "has_local w (ex_thread_id e) c" and "(machine_step False T)\<^sup>*\<^sup>* w w'"
  shows "ending w' c = Some t \<and> \<not> wait_over c (ctx w')"
proof -
  have start: "stuck_ending T c t (ex_thread_id e) w"
    using reachable_inv [OF assms(1-3)] assms(4,5,7) by (auto simp: stuck_ending_def)
  from assms(8) have "stuck_ending T c t (ex_thread_id e) w'"
    by induction (use start stuck_step [OF _ _ assms(2,3,6)] in blast)+
  with stuck_not_over [OF this assms(2,3,6)] show ?thesis by (simp add: stuck_ending_def)
qed

theorem destructor_elsewhere_never_ends_witness:
  "\<not> wait_over 0 (ctx (sample_machine 1 2))"
proof -
  let ?w = "sample_machine 1 2"
  have "reachable_machine False {1, 2} ?w" by (rule sample_machine_reachable) simp
  moreover have "ending ?w 0 = Some 2" "execs (ctx ?w) 0 = Some sample_exec_obj" "2 \<noteq> ex_thread_id sample_exec_obj"
    "has_local ?w (ex_thread_id sample_exec_obj) 0"
    by (simp_all add: sample_machine_def sample_exec_obj_def has_local_def sample_locals_def)
  ultimately show ?thesis
    using destructor_elsewhere_never_ends [of "{1, 2}" ?w 0 2 sample_exec_obj ?w] by simp
qed

end
