(* ===== verification/ExecOperation.thy ===== *)
theory ExecOperation
  imports RunLoopEnd
begin

text \<open>
  The operation states of the sender library: \<open>io_uring_exec_operation\<close>
  (\<open>uring_exec/io_uring_exec_operation.h\<close>) and the scheduler's operation
  (\<open>trivial_scheduler::operation\<close> in \<open>io_uring_exec_internal.h\<close>).

  The state extends \<open>exec\<close> by the operation objects, by address, the stop tokens of their
  receivers and the log of the completion signals. A completion signal ends the life of the operation
  (the receiver may destroy it), so the object is gone afterwards and touching it again is the fault
  \<open>Dangling\<close>: signalling twice is not possible without a fault. \<open>F\<close> is the
  \<open>io_uring_prep_*\<close> function applied to the stored arguments, and \<open>spawn\<close> is
  \<open>exec::async_scope::spawn\<close> of the restart sender, which may throw (\<open>None\<close>).
\<close>

section \<open>State\<close>

datatype signal =
    Set_value int
  | Set_stopped
  | Set_error int
  | Set_current_exception

record exec_op =
  is_timer :: bool
  unstoppable :: bool
  stop_callback :: bool

record 'k op_exec = "'k exec" +
  ops :: "addr \<Rightarrow> exec_op option"
  stop_token :: "addr \<Rightarrow> bool"
  signals :: "(addr \<times> signal) list"

definition get_op :: "addr \<Rightarrow> 'k op_exec \<Rightarrow> exec_op result" where
  "get_op self s = (case ops s self of None \<Rightarrow> Inl Dangling | Some oo \<Rightarrow> Inr oo)"

definition put_op :: "addr \<Rightarrow> exec_op \<Rightarrow> 'k op_exec \<Rightarrow> 'k op_exec" where
  "put_op self oo s = s\<lparr>ops := (ops s)(self \<mapsto> oo)\<rparr>"

text \<open>\<open>stdexec::set_value\<close>, \<open>set_stopped\<close>, \<open>set_error\<close>: the receiver is used up.\<close>

definition set_signal :: "addr \<Rightarrow> signal \<Rightarrow> 'k op_exec \<Rightarrow> 'k op_exec result" where
  "set_signal self sig s = and_then (get_op self s)
     (\<lambda>oo. Inr (s\<lparr>ops := (ops s)(self := None), signals := signals s @ [(self, sig)]\<rparr>))"

section \<open>Stop requests\<close>

definition op_stop_requested :: "addr \<Rightarrow> 'k op_exec \<Rightarrow> bool result" where
  "op_stop_requested self s = and_then (get_op self s)
     (\<lambda>oo. Inr (\<not> unstoppable oo \<and> stop_token s self))"

text \<open>\<open>cancellation::operator()\<close>: push the operation to its bucket of the stopping map.\<close>

definition cancellation :: "addr \<Rightarrow> 'k op_exec \<Rightarrow> 'k op_exec" where
  "cancellation self s =
     (let (nx, hs) = bucket_push (element_bucket self) self (op_next s, stopping_map s)
      in s\<lparr>op_next := nx, stopping_map := hs\<rparr>)"

text \<open>Constructing a stop callback on a token whose stop is already requested runs it at once.\<close>

definition install_stoppable_callback :: "addr \<Rightarrow> 'k op_exec \<Rightarrow> 'k op_exec result" where
  "install_stoppable_callback self s = and_then (get_op self s)
     (\<lambda>oo. if unstoppable oo then Inr s
       else let s1 = put_op self (oo\<lparr>stop_callback := True\<rparr>) s
         in Inr (if stop_token s self then cancellation self s1 else s1))"

text \<open>A queue operation that does not return is a fault here; on well-formed queues it does not happen
  (see \<open>uninstall_removes_only_self\<close>).\<close>

definition returned :: "'a option \<Rightarrow> 'a result" where
  "returned r = (case r of None \<Rightarrow> Inl Terminated | Some x \<Rightarrow> Inr x)"

definition uninstall_stoppable_callback :: "addr \<Rightarrow> 'k op_exec \<Rightarrow> 'k op_exec result" where
  "uninstall_stoppable_callback self s = and_then (get_op self s)
     (\<lambda>oo. if unstoppable oo then Inr s
       else let s1 = put_op self (oo\<lparr>stop_callback := False\<rparr>) s;
                i = element_bucket self;
                (op, (nx, hs)) = bucket_move_all i (op_next s1, stopping_map s1);
                s2 = s1\<lparr>op_next := nx, stopping_map := hs\<rparr>
         in if op = null then Inr s2
            else and_then (returned (stopping_push_all i op (\<lambda>node. node \<noteq> null \<and> node \<noteq> self) s2))
              (\<lambda>s3. returned (stopping_push_all i (iq_next (op_next s3) self) (\<lambda>node. node \<noteq> null) s3)))"

section \<open>start and the virtual functions\<close>

definition async_restart :: "(addr \<Rightarrow> 'k op_exec \<Rightarrow> 'k op_exec option) \<Rightarrow> addr
    \<Rightarrow> 'k op_exec \<Rightarrow> 'k op_exec result" where
  "async_restart spawn self s = and_then (get_op self s)
     (\<lambda>oo. case spawn self s of
         Some s1 \<Rightarrow> Inr s1
       | None \<Rightarrow> set_signal self Set_current_exception s)"

definition op_start :: "'k op_exec run_env \<Rightarrow> (addr \<Rightarrow> addr \<Rightarrow> 'k op_exec \<Rightarrow> 'k op_exec)
    \<Rightarrow> (addr \<Rightarrow> 'k op_exec \<Rightarrow> 'k op_exec option) \<Rightarrow> addr \<Rightarrow> 'k op_exec \<Rightarrow> 'k op_exec result" where
  "op_start env F spawn self s = and_then (op_stop_requested self s)
     (\<lambda>stop. if stop then set_signal self Set_stopped s
       else let (sqe, s1) = uring_get_sqe env s
         in if sqe \<noteq> null
            then let s2 = s1\<lparr>local_inflight := local_inflight s1 + 1\<rparr>;
                     s3 = F self sqe (uring_sqe_set_data env sqe self s2)
              in install_stoppable_callback self s3
            else async_restart spawn self s1)"

text \<open>The classification at the end of \<open>vtab.complete\<close>.\<close>

definition completion_signal :: "bool \<Rightarrow> int \<Rightarrow> signal" where
  "completion_signal timer cqe_res =
     (if timer \<and> (cqe_res = - ETIME \<or> cqe_res = - ETIMEDOUT) then Set_value cqe_res
      else if cqe_res \<ge> 0 then Set_value cqe_res
      else if cqe_res = - ECANCELED then Set_stopped
      else Set_error (- cqe_res))"

definition vtable_complete :: "addr \<Rightarrow> int \<Rightarrow> 'k op_exec \<Rightarrow> 'k op_exec result" where
  "vtable_complete self cqe_res s = and_then (uninstall_stoppable_callback self s)
     (\<lambda>s1. and_then (get_op self s1)
       (\<lambda>oo. set_signal self (completion_signal (is_timer oo) cqe_res) s1))"

definition vtable_cancel :: "addr \<Rightarrow> 'k op_exec \<Rightarrow> 'k op_exec result" where
  "vtable_cancel self s = and_then (uninstall_stoppable_callback self s) (set_signal self Set_stopped)"

definition vtable_restart :: "(addr \<Rightarrow> 'k op_exec \<Rightarrow> 'k op_exec option) \<Rightarrow> addr
    \<Rightarrow> 'k op_exec \<Rightarrow> 'k op_exec result" where
  "vtable_restart spawn self s = and_then (uninstall_stoppable_callback self s) (async_restart spawn self)"

section \<open>The scheduler's operation\<close>

text \<open>\<open>trivial_scheduler::operation\<close> carries no result (0 stands for it); its \<open>start\<close> pushes it to the
  attached queue of a local context or round robin to the shared map.\<close>

definition schedule_start_local :: "addr \<Rightarrow> 'k op_exec \<Rightarrow> 'k op_exec" where
  "schedule_start_local self s =
     (let (nx, h) = iq_push self (task_next s, attached_queue s)
      in s\<lparr>task_next := nx, attached_queue := h\<rparr>)"

definition schedule_start :: "addr \<Rightarrow> 'k op_exec \<Rightarrow> 'k op_exec" where
  "schedule_start self s =
     (let (b, (nx, hs)) = start_operation self (store_balance s, (task_next s, immediate_map s))
      in s\<lparr>store_balance := b, task_next := nx, immediate_map := hs\<rparr>)"

definition schedule_complete :: "addr \<Rightarrow> 'k op_exec \<Rightarrow> 'k op_exec result" where
  "schedule_complete self s = and_then (op_stop_requested self s)
     (\<lambda>stop. set_signal self (if stop then Set_stopped else Set_value 0) s)"

definition schedule_cancel :: "addr \<Rightarrow> 'k op_exec \<Rightarrow> 'k op_exec result" where
  "schedule_cancel self s = set_signal self Set_stopped s"

lemmas op_defs = get_op_def put_op_def set_signal_def op_stop_requested_def returned_def

section \<open>Lemmas\<close>

text \<open>A bucket is well formed for \<open>self\<close>: its nodes are \<open>xs\<close>, and the link of an operation that is
  not in it is null (operations are created unlinked, and the run loop clears what it takes).\<close>

definition bucket_ok :: "addr \<Rightarrow> addr list \<Rightarrow> 'k op_exec \<Rightarrow> bool" where
  "bucket_ok self xs s \<longleftrightarrow> self \<noteq> null \<and> length (stopping_map s) = 16
     \<and> chain (op_next s) (stopping_map s ! element_bucket self) xs
     \<and> (self \<notin> set xs \<longrightarrow> op_next s self = null)"

lemma takeWhile_until:
  "self \<notin> set as \<Longrightarrow> null \<notin> set as \<Longrightarrow>
   takeWhile (\<lambda>node. node \<noteq> null \<and> node \<noteq> self) (as @ self # bs) = as"
  "self \<notin> set as \<Longrightarrow> null \<notin> set as \<Longrightarrow> takeWhile (\<lambda>node. node \<noteq> null \<and> node \<noteq> self) as = as"
  by (induction as) auto

lemma stopping_push_all_chain:
  assumes "chain (op_next s) first xs" "chain (op_next s) (stopping_map s ! i) ys"
    and "set xs \<inter> set ys = {}" "\<not> predicate null" "i < length (stopping_map s)"
  shows "\<exists>nx p. stopping_push_all i first predicate s
      = Some (s\<lparr>op_next := nx, stopping_map := (stopping_map s)[i := p]\<rparr>)
    \<and> chain nx p (takeWhile predicate xs @ ys)
    \<and> (\<forall>a. a \<notin> set (takeWhile predicate xs) \<longrightarrow> nx a = op_next s a)"
proof -
  from push_all_correct [where predicate = predicate, OF assms(1-4)] obtain nx p where
    "iq_push_all first predicate (op_next s, stopping_map s ! i) = Some (nx, p)"
    "chain nx p (takeWhile predicate xs @ ys)"
    "\<forall>a. a \<notin> set (takeWhile predicate xs) \<longrightarrow> nx a = op_next s a" by blast
  then show ?thesis by (auto simp: stopping_push_all_def)
qed

text \<open>The two splices of \<open>uninstall_stoppable_callback\<close>, on the emptied bucket: the nodes before \<open>self\<close>,
  then those after it.\<close>

abbreviation before_node :: "addr \<Rightarrow> addr list \<Rightarrow> addr list" where
  "before_node self xs \<equiv> takeWhile (\<lambda>x. x \<noteq> self) xs"

abbreviation after_node :: "addr \<Rightarrow> addr list \<Rightarrow> addr list" where
  "after_node self xs \<equiv> tl (dropWhile (\<lambda>x. x \<noteq> self) xs)"

lemma chain_after_node:
  assumes "chain nx p xs" "self \<in> set xs" shows "chain nx (nx self) (after_node self xs)"
proof -
  from assms(2) obtain as bs where xs: "xs = as @ self # bs" "self \<notin> set as" by (meson split_list_first)
  then have "after_node self xs = bs" by (simp add: dropWhile_append)
  with assms(1) xs show ?thesis by auto
qed

lemma around_node_disjoint:
  "distinct xs \<Longrightarrow> set (before_node self xs) \<inter> set (after_node self xs) = {}"
proof -
  assume "distinct xs"
  moreover have "xs = before_node self xs @ dropWhile (\<lambda>x. x \<noteq> self) xs" by simp
  ultimately have "set (before_node self xs) \<inter> set (dropWhile (\<lambda>x. x \<noteq> self) xs) = {}"
    by (metis distinct_append)
  moreover have "set (tl ys) \<subseteq> set ys" for ys :: "addr list" by (cases ys) auto
  ultimately show ?thesis by blast
qed

lemma unlinked_set:
  "distinct xs \<Longrightarrow>
   set (if self \<in> set xs then tl (dropWhile (\<lambda>x. x \<noteq> self) xs) @ takeWhile (\<lambda>x. x \<noteq> self) xs else xs)
     = set xs - {self}"
proof (cases "self \<in> set xs")
  case True
  assume dist: "distinct xs"
  from True obtain as bs where xs: "xs = as @ self # bs" and nself: "self \<notin> set as"
    by (meson split_list_first)
  have "takeWhile (\<lambda>x. x \<noteq> self) xs = as" unfolding xs using nself by (subst takeWhile_append) auto
  moreover have "dropWhile (\<lambda>x. x \<noteq> self) xs = self # bs"
    unfolding xs using nself by (subst dropWhile_append) auto
  moreover have "self \<notin> set bs" using dist by (simp add: xs)
  ultimately show ?thesis using True nself by (auto simp: xs)
qed simp

lemma first_splice:
  assumes ch: "chain (op_next s) op xs" and null: "stopping_map s ! i = null" and i: "i < length (stopping_map s)"
  shows "\<exists>nx p. stopping_push_all i op (\<lambda>node. node \<noteq> null \<and> node \<noteq> self) s
      = Some (s\<lparr>op_next := nx, stopping_map := (stopping_map s)[i := p]\<rparr>)
    \<and> chain nx p (before_node self xs) \<and> (\<forall>a. a \<notin> set (before_node self xs) \<longrightarrow> nx a = op_next s a)"
proof -
  have "takeWhile (\<lambda>node. node \<noteq> null \<and> node \<noteq> self) xs = before_node self xs"
    using seg_nonnull [OF ch] by (intro takeWhile_cong) auto
  with stopping_push_all_chain [OF ch, of i "[]" "\<lambda>node. node \<noteq> null \<and> node \<noteq> self"] null i show ?thesis by simp
qed

lemma second_splice:
  assumes "chain (op_next s) first bs" "chain (op_next s) (stopping_map s ! i) as"
    and "set bs \<inter> set as = {}" and "i < length (stopping_map s)"
  shows "\<exists>nx p. stopping_push_all i first (\<lambda>node. node \<noteq> null) s
      = Some (s\<lparr>op_next := nx, stopping_map := (stopping_map s)[i := p]\<rparr>)
    \<and> chain nx p (bs @ as) \<and> (\<forall>a. a \<notin> set bs \<longrightarrow> nx a = op_next s a)"
proof -
  have "takeWhile (\<lambda>node. node \<noteq> null) bs = bs"
    using seg_nonnull [OF assms(1)] by (auto simp: takeWhile_eq_all_conv)
  with stopping_push_all_chain [OF assms(1-3), of "\<lambda>node. node \<noteq> null"] assms(4) show ?thesis by simp
qed

lemma uninstall_splices:
  fixes s2 :: "'k op_exec"
  assumes ch: "chain (op_next s2) op xs" and null: "stopping_map s2 ! i = null"
    and i: "i < length (stopping_map s2)" and self: "self \<notin> set xs \<longrightarrow> op_next s2 self = null"
  shows "\<exists>nx p. and_then (returned (stopping_push_all i op (\<lambda>node. node \<noteq> null \<and> node \<noteq> self) s2))
        (\<lambda>s3. returned (stopping_push_all i (iq_next (op_next s3) self) (\<lambda>node. node \<noteq> null) s3))
      = Inr (s2\<lparr>op_next := nx, stopping_map := (stopping_map s2)[i := p]\<rparr>)
    \<and> chain nx p (if self \<in> set xs then tl (dropWhile (\<lambda>x. x \<noteq> self) xs) @ takeWhile (\<lambda>x. x \<noteq> self) xs else xs)
    \<and> (\<forall>a. a \<notin> set xs - {self} \<longrightarrow> nx a = op_next s2 a)"
proof -
  let ?as = "before_node self xs" let ?bs = "if self \<in> set xs then after_node self xs else []"
  from first_splice [OF ch null i, of self] obtain nx1 p1 where p1: "stopping_push_all i op (\<lambda>node. node \<noteq> null \<and> node \<noteq> self) s2
      = Some (s2\<lparr>op_next := nx1, stopping_map := (stopping_map s2)[i := p1]\<rparr>)"
    "chain nx1 p1 ?as" "\<forall>a. a \<notin> set ?as \<longrightarrow> nx1 a = op_next s2 a" by blast
  define s3 where "s3 = s2\<lparr>op_next := nx1, stopping_map := (stopping_map s2)[i := p1]\<rparr>"
  have s3: "op_next s3 = nx1" "stopping_map s3 ! i = p1" "i < length (stopping_map s3)" using i by (simp_all add: s3_def)
  have disj: "set ?bs \<inter> set ?as = {}" using around_node_disjoint [OF chain_distinct [OF ch], of self] by auto
  have all: "?as = xs" if "self \<notin> set xs" using that by (auto simp: takeWhile_eq_all_conv)
  have set: "set ?bs \<union> set ?as = set xs - {self}"
  proof (cases "self \<in> set xs")
    case True
    then show ?thesis using unlinked_set [OF chain_distinct [OF ch], of self] by simp
  next
    case False
    then show ?thesis unfolding all [OF False] by simp
  qed
  have "nx1 self = op_next s2 self" using p1(3) by (auto dest: set_takeWhileD)
  moreover have "chain (op_next s2) (op_next s2 self) ?bs" using chain_after_node [OF ch] self by simp
  moreover have "chain nx1 (op_next s2 self) ?bs = chain (op_next s2) (op_next s2 self) ?bs"
    by (rule seg_cong) (use p1(3) disj in blast)
  ultimately have "chain (op_next s3) (nx1 self) ?bs" by (simp only: s3)
  from second_splice [OF this _ disj s3(3)] p1(2) obtain nx2 p2 where p2:
    "stopping_push_all i (nx1 self) (\<lambda>node. node \<noteq> null) s3
      = Some (s3\<lparr>op_next := nx2, stopping_map := (stopping_map s3)[i := p2]\<rparr>)"
    "chain nx2 p2 (?bs @ ?as)" "\<forall>a. a \<notin> set ?bs \<longrightarrow> nx2 a = nx1 a" by (auto simp only: s3)
  have "?bs @ ?as = (if self \<in> set xs then after_node self xs @ ?as else xs)"
    by (simp add: takeWhile_eq_all_conv) (metis all)
  moreover have "nx2 a = op_next s2 a" if "a \<notin> set xs - {self}" for a
    using that p2(3) p1(3) unfolding set [symmetric] by auto
  ultimately show ?thesis
    using p1(1) p2(1,2) by (intro exI [of _ nx2] exI [of _ p2]) (simp add: returned_def iq_next_def s3_def)
qed

lemma uninstall_unlinks:
  fixes s :: "'k op_exec"
  assumes op: "ops s self = Some oo" and stp: "\<not> unstoppable oo" and ok: "bucket_ok self xs s"
  shows "\<exists>nx p. uninstall_stoppable_callback self s
      = Inr (s\<lparr>ops := (ops s)(self \<mapsto> oo\<lparr>stop_callback := False\<rparr>), op_next := nx,
          stopping_map := (stopping_map s)[element_bucket self := p]\<rparr>)
    \<and> chain nx p (if self \<in> set xs then tl (dropWhile (\<lambda>x. x \<noteq> self) xs) @ takeWhile (\<lambda>x. x \<noteq> self) xs else xs)
    \<and> (\<forall>a. a \<notin> set xs - {self} \<longrightarrow> nx a = op_next s a)"
proof -
  let ?i = "element_bucket self" and ?op = "stopping_map s ! element_bucket self"
  define s2 where "s2 = s\<lparr>ops := (ops s)(self \<mapsto> oo\<lparr>stop_callback := False\<rparr>),
    stopping_map := (stopping_map s)[?i := null]\<rparr>"
  have len: "length (stopping_map s) = 16" and ch: "chain (op_next s) ?op xs"
    and slf: "self \<notin> set xs \<longrightarrow> op_next s self = null"
    using ok by (auto simp: bucket_ok_def)
  have eq: "uninstall_stoppable_callback self s = (if ?op = null then Inr s2
      else and_then (returned (stopping_push_all ?i ?op (\<lambda>node. node \<noteq> null \<and> node \<noteq> self) s2))
        (\<lambda>s3. returned (stopping_push_all ?i (iq_next (op_next s3) self) (\<lambda>node. node \<noteq> null) s3)))"
    using op stp by (simp add: uninstall_stoppable_callback_def get_op_def put_op_def s2_def
        bucket_move_all_def iq_move_all_def Let_def)
  have fin: "s2\<lparr>op_next := nx, stopping_map := (stopping_map s2)[?i := p]\<rparr>
      = s\<lparr>ops := (ops s)(self \<mapsto> oo\<lparr>stop_callback := False\<rparr>), op_next := nx,
          stopping_map := (stopping_map s)[?i := p]\<rparr>" for nx p
    by (simp add: s2_def)
  show ?thesis
  proof (cases "?op = null")
    case True
    with ch have "xs = []" by simp
    moreover have "s2 = s2\<lparr>op_next := op_next s, stopping_map := (stopping_map s2)[?i := null]\<rparr>"
      by (simp add: s2_def)
    ultimately show ?thesis
      unfolding eq using True fin [where nx = "op_next s" and p = null]
      by (intro exI [of _ "op_next s"] exI [of _ null]) simp
  next
    case False
    have "chain (op_next s2) ?op xs" "stopping_map s2 ! ?i = null" "?i < length (stopping_map s2)"
      "self \<notin> set xs \<longrightarrow> op_next s2 self = null"
      using ch len slf by (simp_all add: s2_def)
    from uninstall_splices [OF this] show ?thesis
      unfolding eq fin using False by (simp add: s2_def)
  qed
qed

section \<open>Properties\<close>

text \<open>A context with one operation, for the witnesses.\<close>

definition sample_op_env :: "unit op_exec run_env" where
  "sample_op_env =
     \<lparr>task_complete = (\<lambda>op s. s), task_cancel = (\<lambda>op s. s), op_complete = (\<lambda>op res s. s),
      op_restart = (\<lambda>op s. s), noop = 1, stack_sentinel = 2, mt_random = (\<lambda>s. (3, s)),
      uring_submit = (\<lambda>s. (0, s)), uring_submit_and_wait = (\<lambda>n s. (0, s)),
      uring_peek_batch_cqe = (\<lambda>n s. ([], s)), uring_cq_advance = (\<lambda>n s. s),
      uring_get_sqe = (\<lambda>s. (64, s)), uring_sqe_set_data = (\<lambda>e d s. s),
      uring_prep_cancel = (\<lambda>e op f s. s), ASYNC_CANCEL_ANY = 4, thread_yield = (\<lambda>s. s),
      external_stop_requested = (\<lambda>s. False)\<rparr>"

definition sample_op_exec :: "bool \<Rightarrow> bool \<Rightarrow> unit op_exec" where
  "sample_op_exec timer requested = \<lparr>task_next = (\<lambda>_. 0), op_next = (\<lambda>_. 0), attached_queue = 0,
     immediate_map = replicate 16 0, stopping_map = replicate 16 0, store_balance = 0,
     local_inflight = 0, running_local = 1, walltime_step = 5,
     runloop_must_have_stopped = False, remote_stop_requested = False, io = (),
     ops = (\<lambda>_. None)(32 \<mapsto> \<lparr>is_timer = timer, unstoppable = False, stop_callback = False\<rparr>),
     stop_token = (\<lambda>_. requested), signals = []\<rparr>"

text \<open>
  Removing an operation from the stopping map removes exactly this operation: for a stoppable
  operation and a well-formed bucket \<open>uninstall_stoppable_callback\<close> returns, its bucket holds the
  same operations without it, the other buckets are untouched, and no signal is sent.
\<close>

theorem uninstall_removes_only_self:
  fixes s :: "'k op_exec"
  assumes "ops s self = Some oo" and "\<not> unstoppable oo" and "bucket_ok self xs s"
  shows "\<exists>s' ys. uninstall_stoppable_callback self s = Inr s'
    \<and> chain (op_next s') (stopping_map s' ! element_bucket self) ys
    \<and> distinct ys \<and> set ys = set xs - {self}
    \<and> (\<forall>j. j \<noteq> element_bucket self \<longrightarrow> stopping_map s' ! j = stopping_map s ! j)
    \<and> (\<forall>a. a \<notin> set xs - {self} \<longrightarrow> op_next s' a = op_next s a)
    \<and> signals s' = signals s"
proof -
  let ?i = "element_bucket self"
  let ?ys = "if self \<in> set xs then tl (dropWhile (\<lambda>x. x \<noteq> self) xs) @ takeWhile (\<lambda>x. x \<noteq> self) xs else xs"
  have len: "length (stopping_map s) = 16" and ch: "chain (op_next s) (stopping_map s ! ?i) xs"
    using assms(3) by (auto simp: bucket_ok_def)
  from uninstall_unlinks [OF assms] obtain nx p where
    eq: "uninstall_stoppable_callback self s
      = Inr (s\<lparr>ops := (ops s)(self \<mapsto> oo\<lparr>stop_callback := False\<rparr>), op_next := nx,
          stopping_map := (stopping_map s)[?i := p]\<rparr>)"
    and c: "chain nx p ?ys" and fr: "\<forall>a. a \<notin> set xs - {self} \<longrightarrow> nx a = op_next s a" by blast
  note unlinked_set [OF chain_distinct [OF ch], of self]
  with eq c fr chain_distinct [OF c] len show ?thesis
    by (intro exI [of _ "s\<lparr>ops := (ops s)(self \<mapsto> oo\<lparr>stop_callback := False\<rparr>), op_next := nx,
          stopping_map := (stopping_map s)[?i := p]\<rparr>"] exI [of _ ?ys]) simp
qed

theorem uninstall_removes_only_self_witness:
  "\<exists>s' ys. uninstall_stoppable_callback 32 ((sample_op_exec False True)\<lparr>op_next := (\<lambda>_. 0)(48 := 32, 32 := 16),
        stopping_map := (replicate 16 0)[0 := 48]\<rparr>) = Inr s'
    \<and> chain (op_next s') (stopping_map s' ! 0) ys \<and> set ys = {48, 16}"
proof -
  let ?s = "(sample_op_exec False True)\<lparr>op_next := (\<lambda>_. 0)(48 := 32, 32 := 16),
        stopping_map := (replicate 16 0)[0 := 48]\<rparr>"
  have i: "element_bucket 32 = 0" by (simp add: bucket_mod)
  have "bucket_ok 32 [48, 32, 16] ?s" by (simp add: bucket_ok_def i)
  from uninstall_removes_only_self [OF _ _ this, of "\<lparr>is_timer = False, unstoppable = False, stop_callback = False\<rparr>"]
  obtain s' ys where "uninstall_stoppable_callback 32 ?s = Inr s'"
    "chain (op_next s') (stopping_map s' ! 0) ys" "set ys = set [48, 32, 16] - {32 :: addr}"
    unfolding i by (auto simp: sample_op_exec_def)
  moreover have "set [48, 32, 16] - {32 :: addr} = {48, 16}" by auto
  ultimately show ?thesis by metis
qed

lemma uninstall_frame:
  fixes s :: "'k op_exec"
  assumes "ops s self = Some oo" "bucket_ok self xs s"
  shows "\<exists>s' oo'. uninstall_stoppable_callback self s = Inr s' \<and> ops s' self = Some oo'
    \<and> is_timer oo' = is_timer oo \<and> signals s' = signals s \<and> (\<forall>a. a \<noteq> self \<longrightarrow> ops s' a = ops s a)
    \<and> local_inflight s' = local_inflight s"
proof (cases "unstoppable oo")
  case True
  with assms(1) show ?thesis by (auto simp: uninstall_stoppable_callback_def get_op_def)
next
  case False
  from uninstall_unlinks [OF assms(1) this assms(2)] show ?thesis by auto
qed

text \<open>
  C11. A completion signals its receiver exactly once, and as the result says: a live operation in a
  well-formed context does not fault; one signal is sent; a result of at least 0 is a value, a timer
  that ran out (\<open>-ETIME\<close>, \<open>-ETIMEDOUT\<close>) is a value and not an error, \<open>-ECANCELED\<close> means
  stopped, every other negative result is the error of that number; the operation is gone afterwards,
  so a second completion would fault; no other operation is touched.
\<close>

theorem complete_signals_once:
  fixes s :: "'k op_exec"
  assumes "ops s self = Some oo" and "bucket_ok self xs s"
  shows "\<exists>s'. vtable_complete self res s = Inr s'
    \<and> signals s' = signals s @ [(self, completion_signal (is_timer oo) res)]
    \<and> ops s' self = None \<and> (\<forall>a. a \<noteq> self \<longrightarrow> ops s' a = ops s a)
    \<and> (\<forall>res'. vtable_complete self res' s' = Inl Dangling)
    \<and> (res \<ge> 0 \<longrightarrow> completion_signal (is_timer oo) res = Set_value res)
    \<and> (is_timer oo \<and> res \<in> {- ETIME, - ETIMEDOUT} \<longrightarrow> completion_signal (is_timer oo) res = Set_value res)
    \<and> (res = - ECANCELED \<longrightarrow> completion_signal (is_timer oo) res = Set_stopped)
    \<and> (res < 0 \<and> res \<noteq> - ECANCELED \<and> (is_timer oo \<longrightarrow> res \<notin> {- ETIME, - ETIMEDOUT})
        \<longrightarrow> completion_signal (is_timer oo) res = Set_error (- res))"
proof -
  from uninstall_frame [OF assms] obtain s1 oo' where
    s1: "uninstall_stoppable_callback self s = Inr s1" "ops s1 self = Some oo'"
    "is_timer oo' = is_timer oo" "signals s1 = signals s" "\<forall>a. a \<noteq> self \<longrightarrow> ops s1 a = ops s a" by blast
  let ?s' = "s1\<lparr>ops := (ops s1)(self := None),
    signals := signals s1 @ [(self, completion_signal (is_timer oo) res)]\<rparr>"
  have "vtable_complete self res s = Inr ?s'"
    using s1 by (simp add: vtable_complete_def get_op_def set_signal_def)
  moreover have "vtable_complete self res' ?s' = Inl Dangling" for res'
    by (simp add: vtable_complete_def uninstall_stoppable_callback_def get_op_def)
  ultimately show ?thesis
    using s1 by (intro exI [of _ ?s']) (auto simp: completion_signal_def errno_defs)
qed

theorem complete_signals_once_witness:
  "\<exists>s'. vtable_complete 32 (- 62) (sample_op_exec True False) = Inr s' \<and> signals s' = [(32, Set_value (- 62))]"
proof -
  have "bucket_ok 32 [] (sample_op_exec True False)"
    by (simp add: bucket_ok_def sample_op_exec_def bucket_mod)
  from complete_signals_once [OF _ this, of "\<lparr>is_timer = True, unstoppable = False, stop_callback = False\<rparr>" "- 62"]
  show ?thesis by (auto simp: sample_op_exec_def completion_signal_def ETIME_def)
qed



text \<open>
  A stop request reaches the run loop: when the stop of an operation is requested while its callback
  is installed (or was requested before the callback is constructed), the callback puts the
  operation in front of the bucket of its address, the stopping map stays well formed with every
  other operation in place, and nothing is signalled yet.
\<close>

theorem cancellation_reaches_stopping_map:
  fixes s :: "'k op_exec"
  assumes wf: "map_holds (op_next s, stopping_map s) xss"
    and self: "self \<noteq> null" "self \<notin> set (concat xss)"
  shows "map_holds (op_next (cancellation self s), stopping_map (cancellation self s))
      (xss[element_bucket self := self # xss ! element_bucket self])
    \<and> signals (cancellation self s) = signals s \<and> ops (cancellation self s) = ops s
    \<and> (ops s self = Some oo \<and> \<not> unstoppable oo \<and> stop_token s self \<longrightarrow>
        install_stoppable_callback self s = Inr (cancellation self (put_op self (oo\<lparr>stop_callback := True\<rparr>) s)))"
  using map_holds_push [OF wf bucket_bounds(1) [of self] self]
  by (auto simp: cancellation_def install_stoppable_callback_def get_op_def put_op_def split: prod.split)

theorem cancellation_reaches_stopping_map_witness:
  "map_holds (op_next (cancellation 40 (sample_op_exec False True)),
      stopping_map (cancellation 40 (sample_op_exec False True))) ((replicate 16 [])[8 := [40]])"
  using cancellation_reaches_stopping_map [of "sample_op_exec False True" "replicate 16 []" 40]
    map_holds_empty
  by (simp add: sample_op_exec_def bucket_mod)

end
