(* ===== verification/System.thy ===== *)
theory System
  imports ExecOperation
begin

text \<open>
  The sender library put together: the run loop (\<open>RunLoop\<close>) over its own tasks and operations
  (\<open>ExecOperation\<close>), as \<open>io_uring_exec_local\<close> inherits \<open>io_uring_exec_run\<close> with
  \<open>io_uring_exec_operation_base\<close> (\<open>uring_exec/io_uring_exec_internal.h\<close>). The virtual calls of the loop are the
  functions of \<open>ExecOperation\<close>; only liburing, the random generator and \<open>yield\<close> remain as arguments.

  The locale \<open>signalling\<close> is what the loop relies on when it works through a list of tasks or
  completions: handling one of them signals its own receiver and no other.
\<close>

section \<open>The interface between the loop and what it drives\<close>

text \<open>\<open>handle x\<close> is the virtual call for \<open>x\<close>, which belongs to the object at \<open>target x\<close>; \<open>sig s x\<close>
  is the signal it owes in state \<open>s\<close>; \<open>alive\<close> and \<open>log\<close> are the live objects and the signals sent.\<close>

locale signalling =
  fixes handle :: "'a \<Rightarrow> 's \<Rightarrow> 's" and target :: "'a \<Rightarrow> addr"
    and sig :: "'s \<Rightarrow> 'a \<Rightarrow> 'g" and good :: "'s \<Rightarrow> bool"
    and objs :: "'s \<Rightarrow> addr \<Rightarrow> 'o option" and log :: "'s \<Rightarrow> (addr \<times> 'g) list"
    and frame :: "'s \<Rightarrow> 'f"
  assumes handle_signals: "good s \<Longrightarrow> target x \<in> dom (objs s) \<Longrightarrow>
      good (handle x s) \<and> log (handle x s) = log s @ [(target x, sig s x)]
      \<and> objs (handle x s) = (objs s)(target x := None) \<and> frame (handle x s) = frame s"
    and handle_others: "good s \<Longrightarrow> target x \<in> dom (objs s) \<Longrightarrow> target y \<noteq> target x \<Longrightarrow>
      sig (handle x s) y = sig s y"
begin

lemma handle_all:
  assumes "good s" "distinct (map target xs)" "target ` set xs \<subseteq> dom (objs s)"
  shows "good (fold handle xs s)"
    and "log (fold handle xs s) = log s @ map (\<lambda>x. (target x, sig s x)) xs"
    and "objs (fold handle xs s) = objs s |` (- target ` set xs)"
    and "frame (fold handle xs s) = frame s"
    and "target y \<notin> target ` set xs \<Longrightarrow> sig (fold handle xs s) y = sig s y"
proof -
  have "good (fold handle xs s) \<and> log (fold handle xs s) = log s @ map (\<lambda>x. (target x, sig s x)) xs
      \<and> objs (fold handle xs s) = objs s |` (- target ` set xs) \<and> frame (fold handle xs s) = frame s
      \<and> (target y \<notin> target ` set xs \<longrightarrow> sig (fold handle xs s) y = sig s y)"
    using assms
  proof (induction xs arbitrary: s)
    case Nil
    then show ?case by (simp add: restrict_map_def)
  next
    case (Cons x xs)
    let ?s = "handle x s"
    have x: "target x \<in> dom (objs s)" "target x \<notin> target ` set xs" using Cons.prems by auto
    note h = handle_signals [OF Cons.prems(1) x(1)]
    have "map (\<lambda>x. (target x, sig ?s x)) xs = map (\<lambda>x. (target x, sig s x)) xs"
    proof (rule map_cong [OF refl])
      fix z assume "z \<in> set xs"
      with x(2) have "target z \<noteq> target x" by (metis imageI)
      then show "(target z, sig ?s z) = (target z, sig s z)"
        using handle_others [OF Cons.prems(1) x(1)] by simp
    qed
    then have log: "log s @ [(target x, sig s x)] @ map (\<lambda>x. (target x, sig ?s x)) xs
        = log s @ map (\<lambda>x. (target x, sig s x)) (x # xs)" by simp
    have restr: "(objs s)(target x := None) |` (- target ` set xs) = objs s |` (- target ` set (x # xs))"
      by (auto simp: restrict_map_def fun_eq_iff)
    have "target ` set xs \<subseteq> dom (objs s) - {target x}"
      using Cons.prems(3) x(2) by (simp add: subset_iff) metis
    then have sub: "target ` set xs \<subseteq> dom (objs ?s)" using h by simp
    have "distinct (map target xs)" "good ?s" using Cons.prems(2) h by simp_all
    note ih = Cons.IH [OF this(2,1) sub]
    have fld: "fold handle (x # xs) s = fold handle xs ?s" by simp
    have sig: "target y \<notin> target ` set (x # xs) \<longrightarrow> sig (fold handle xs ?s) y = sig s y"
      using ih handle_others [OF Cons.prems(1) x(1), of y] by simp
    have objs: "objs (fold handle xs ?s) = objs s |` (- target ` set (x # xs))"
      by (simp only: ih h restr)
    have "log (fold handle xs ?s) = log s @ map (\<lambda>x. (target x, sig s x)) (x # xs)"
      using ih h log by simp
    with ih h sig objs show ?case unfolding fld by (intro conjI) simp_all
  qed
  then show "good (fold handle xs s)"
    and "log (fold handle xs s) = log s @ map (\<lambda>x. (target x, sig s x)) xs"
    and "objs (fold handle xs s) = objs s |` (- target ` set xs)"
    and "frame (fold handle xs s) = frame s"
    and "target y \<notin> target ` set xs \<Longrightarrow> sig (fold handle xs s) y = sig s y"
    by blast+
qed

end

section \<open>The loop's calls\<close>

text \<open>The virtual functions return nothing; a call that faults (touches a destroyed object) leaves no signal
  behind, so a complete log of signals means that no call faulted.\<close>

definition settle :: "('s \<Rightarrow> 's result) \<Rightarrow> 's \<Rightarrow> 's" where
  "settle f s = (case f s of Inl e \<Rightarrow> s | Inr s' \<Rightarrow> s')"

definition with_vtables :: "(addr \<Rightarrow> 'k op_exec \<Rightarrow> 'k op_exec option) \<Rightarrow> 'k op_exec run_env
    \<Rightarrow> 'k op_exec run_env" where
  "with_vtables spawn env = env\<lparr>
     task_complete := (\<lambda>task. settle (schedule_complete task)),
     task_cancel := (\<lambda>task. settle (schedule_cancel task)),
     op_complete := (\<lambda>op res. settle (vtable_complete op res)),
     op_restart := (\<lambda>op. settle (vtable_restart spawn op))\<rparr>"

lemma with_vtables_simps [simp]:
  "task_complete (with_vtables spawn env) = (\<lambda>task. settle (schedule_complete task))"
  "task_cancel (with_vtables spawn env) = (\<lambda>task. settle (schedule_cancel task))"
  "op_complete (with_vtables spawn env) = (\<lambda>op res. settle (vtable_complete op res))"
  "noop (with_vtables spawn env) = noop env" "stack_sentinel (with_vtables spawn env) = stack_sentinel env"
  "mt_random (with_vtables spawn env) = mt_random env"
  "uring_submit (with_vtables spawn env) = uring_submit env"
  "uring_submit_and_wait (with_vtables spawn env) = uring_submit_and_wait env"
  "uring_peek_batch_cqe (with_vtables spawn env) = uring_peek_batch_cqe env"
  "uring_cq_advance (with_vtables spawn env) = uring_cq_advance env"
  "uring_get_sqe (with_vtables spawn env) = uring_get_sqe env"
  "uring_sqe_set_data (with_vtables spawn env) = uring_sqe_set_data env"
  "uring_prep_cancel (with_vtables spawn env) = uring_prep_cancel env"
  by (simp_all add: with_vtables_def)

section \<open>Tasks\<close>

definition task_signal :: "'k op_exec \<Rightarrow> addr \<Rightarrow> signal" where
  "task_signal s task = (if \<not> unstoppable (the (ops s task)) \<and> stop_token s task
     then Set_stopped else Set_value 0)"

lemma schedule_complete_alive:
  "ops s task = Some oo \<Longrightarrow> settle (schedule_complete task) s
     = s\<lparr>ops := (ops s)(task := None), signals := signals s @ [(task, task_signal s task)]\<rparr>"
  by (simp add: settle_def schedule_complete_def op_defs task_signal_def)

text \<open>The part of the state that neither tasks nor operations change when they complete.\<close>

definition rest :: "'k op_exec \<Rightarrow> _" where
  "rest s = (task_next s, attached_queue s, immediate_map s, store_balance s, local_inflight s,
     running_local s, walltime_step s, runloop_must_have_stopped s, remote_stop_requested s, io s,
     stop_token s)"

interpretation tasks: signalling "\<lambda>task. settle (schedule_complete task)" "\<lambda>task. task" task_signal
    "\<lambda>_. True" ops signals "\<lambda>s. (rest s, op_next s, stopping_map s)"
proof
  fix s :: "'k op_exec" and x y :: addr
  assume "x \<in> dom (ops s)"
  then obtain oo where oo: "ops s x = Some oo" by blast
  show "True \<and> signals (settle (schedule_complete x) s) = signals s @ [(x, task_signal s x)]
      \<and> ops (settle (schedule_complete x) s) = (ops s)(x := None)
      \<and> (rest (settle (schedule_complete x) s), op_next (settle (schedule_complete x) s),
          stopping_map (settle (schedule_complete x) s)) = (rest s, op_next s, stopping_map s)"
    by (simp add: schedule_complete_alive [OF oo] rest_def)
  assume "y \<noteq> x"
  then show "task_signal (settle (schedule_complete x) s) y = task_signal s y"
    by (simp add: schedule_complete_alive [OF oo] task_signal_def)
qed

section \<open>Operations\<close>

text \<open>The stopping map is well formed: its operations are in the bucket of their address, and the
  others are not linked.\<close>

definition stopping_holds :: "addr list list \<Rightarrow> 'k op_exec \<Rightarrow> bool" where
  "stopping_holds xss s \<longleftrightarrow> map_holds (op_next s, stopping_map s) xss
     \<and> (\<forall>i < 16. \<forall>a \<in> set (xss ! i). element_bucket a = i)
     \<and> (\<forall>a \<in> dom (ops s). a \<notin> set (concat xss) \<longrightarrow> op_next s a = null) \<and> ops s null = None"

definition op_signal :: "'k op_exec \<Rightarrow> addr \<times> int \<Rightarrow> signal" where
  "op_signal s c = completion_signal (is_timer (the (ops s (fst c)))) (snd c)"

lemma bucket_ok_stopping:
  assumes "stopping_holds xss s" "op \<in> dom (ops s)"
  shows "bucket_ok op (xss ! element_bucket op) s"
proof -
  have "op \<notin> set (xss ! element_bucket op) \<Longrightarrow> op \<notin> set (concat xss)"
    using assms(1) unfolding stopping_holds_def map_holds_def
    by (auto simp: in_set_conv_nth) (metis in_set_conv_nth)
  with assms show ?thesis
    unfolding bucket_ok_def stopping_holds_def map_holds_def by auto
qed

lemma map_holds_replace:
  assumes "map_holds (nx, hs) xss" "i < 16" "chain nx' p ys" "set ys \<subseteq> set (xss ! i)"
    and "\<And>a. a \<notin> set (xss ! i) \<Longrightarrow> nx' a = nx a"
  shows "map_holds (nx', hs[i := p]) (xss[i := ys])"
proof -
  have len: "length hs = 16" "length xss = 16" and dist: "distinct (concat xss)"
    using assms(1) by (auto simp: map_holds_def)
  have "chain nx' (hs[i := p] ! j) (xss[i := ys] ! j)" if j: "j < 16" for j
  proof (cases "j = i")
    case True
    with assms(2,3) len show ?thesis by simp
  next
    case False
    have "set (xss ! j) \<inter> set (xss ! i) = {}"
      using distinct_concat_disjoint [OF dist, of j i] False j assms(2) len by simp
    then have "chain nx' (hs ! j) (xss ! j) = chain nx (hs ! j) (xss ! j)"
      using assms(5) by (intro seg_cong) auto
    with False j assms(1) show ?thesis by (auto simp: map_holds_def)
  qed
  moreover have "distinct (concat (xss[i := ys]))"
    using assms(2,4) dist len chain_distinct [OF assms(3)] by (intro distinct_concat_update) auto
  ultimately show ?thesis using len by (simp add: map_holds_def)
qed

lemma set_concat_nth: "a \<in> set (concat xss) \<longleftrightarrow> (\<exists>i < length xss. a \<in> set (xss ! i))"
  by (metis UN_iff in_set_conv_nth set_concat)

text \<open>Replacing the nodes of one bucket by some of them, when the others are unlinked or destroyed.\<close>

lemma stopping_holds_replace:
  assumes good: "stopping_holds xss s" and i: "i < 16" and ch: "chain (op_next t) p ys" and sub: "set ys \<subseteq> set (xss ! i)"
    and frame: "\<And>a. a \<notin> set (xss ! i) \<Longrightarrow> op_next t a = op_next s a"
    and gone: "\<And>a. a \<in> set (xss ! i) \<Longrightarrow> a \<notin> set ys \<Longrightarrow> a \<in> dom (ops t) \<Longrightarrow> op_next t a = null"
    and map: "stopping_map t = (stopping_map s)[i := p]" and dom: "dom (ops t) \<subseteq> dom (ops s)"
  shows "stopping_holds (xss[i := ys]) t"
proof -
  have mh: "map_holds (op_next s, stopping_map s) xss" and len: "length xss = 16"
    using good by (auto simp: stopping_holds_def map_holds_def)
  have "map_holds (op_next t, stopping_map t) (xss[i := ys])"
    unfolding map by (rule map_holds_replace [OF mh i ch sub frame])
  moreover have "element_bucket a = j" if "j < 16" "a \<in> set (xss[i := ys] ! j)" for j a
    using that good sub len i by (cases "j = i") (auto simp: stopping_holds_def)
  moreover have "op_next t a = null" if a: "a \<in> dom (ops t)" "a \<notin> set (concat (xss[i := ys]))" for a
  proof (cases "a \<in> set (xss ! i)")
    case True
    have "a \<notin> set (xss[i := ys] ! i)" using a(2) i len by (auto simp: set_concat_nth simp del: set_concat)
    with True i len gone [OF _ _ a(1)] show ?thesis by simp
  next
    case False
    have "a \<notin> set (xss ! j)" if "j < 16" for j
      using a(2) that len False by (cases "j = i") (auto simp: set_concat_nth simp del: set_concat)
    then have "a \<notin> set (concat xss)" using len by (simp add: set_concat_nth del: set_concat)
    moreover have "a \<in> dom (ops s)" using a(1) dom by blast
    ultimately have "op_next s a = null" using good unfolding stopping_holds_def by (elim conjE) (drule (1) bspec, erule (1) mp)
    with frame [OF False] show ?thesis by simp
  qed
  moreover have "ops t null = None" using good dom unfolding stopping_holds_def by (metis domIff subsetD)
  ultimately show ?thesis unfolding stopping_holds_def by metis
qed

lemma op_complete_alive:
  assumes good: "stopping_holds xss s" and op: "ops s op = Some oo"
  shows "\<exists>nx hs yss. settle (vtable_complete op res) s
      = s\<lparr>op_next := nx, stopping_map := hs, ops := (ops s)(op := None),
          signals := signals s @ [(op, op_signal s (op, res))]\<rparr>
    \<and> stopping_holds yss (settle (vtable_complete op res) s)"
proof (cases "unstoppable oo")
  case True
  with op have "settle (vtable_complete op res) s
      = s\<lparr>op_next := op_next s, stopping_map := stopping_map s, ops := (ops s)(op := None),
          signals := signals s @ [(op, op_signal s (op, res))]\<rparr>"
    by (simp add: settle_def vtable_complete_def uninstall_stoppable_callback_def op_defs op_signal_def)
  with good show ?thesis
    by (intro exI [of _ "op_next s"] exI [of _ "stopping_map s"] exI [of _ xss]) (simp add: stopping_holds_def)
next
  case False
  let ?i = "element_bucket op" let ?xs = "xss ! ?i"
  from bucket_ok_stopping [OF good] op have ok: "bucket_ok op ?xs s" by blast
  define ys where "ys = (if op \<in> set ?xs then tl (dropWhile (\<lambda>x. x \<noteq> op) ?xs) @ takeWhile (\<lambda>x. x \<noteq> op) ?xs else ?xs)"
  from uninstall_unlinks [OF op False ok] obtain nx p where
    u: "uninstall_stoppable_callback op s = Inr (s\<lparr>ops := (ops s)(op \<mapsto> oo\<lparr>stop_callback := False\<rparr>),
        op_next := nx, stopping_map := (stopping_map s)[?i := p]\<rparr>)"
    and ch: "chain nx p ys" and fr: "\<forall>a. a \<notin> set ?xs - {op} \<longrightarrow> nx a = op_next s a"
    unfolding ys_def by blast
  let ?s' = "s\<lparr>op_next := nx, stopping_map := (stopping_map s)[?i := p], ops := (ops s)(op := None),
          signals := signals s @ [(op, op_signal s (op, res))]\<rparr>"
  have eq: "settle (vtable_complete op res) s = ?s'"
    using op by (simp add: settle_def vtable_complete_def u op_defs op_signal_def)
  have mh: "map_holds (op_next s, stopping_map s) xss" using good by (simp add: stopping_holds_def)
  then have "distinct ?xs" by (metis bucket_bounds(1) buckets_16 chain_distinct map_holds_def)
  from unlinked_set [OF this, of op] have sys: "set ys = set ?xs - {op}" by (simp only: ys_def)
  have "stopping_holds (xss[?i := ys]) ?s'"
    by (rule stopping_holds_replace [OF good bucket_bounds(1)]) (use ch sys fr in auto)
  with eq show ?thesis
    by (intro exI [of _ nx] exI [of _ "(stopping_map s)[?i := p]"] exI [of _ "xss[?i := ys]"]) simp
qed

interpretation operations: signalling "\<lambda>c. settle (vtable_complete (fst c) (snd c))" fst op_signal
    "\<lambda>s. \<exists>xss. stopping_holds xss s" ops signals rest
proof
  fix s :: "'k op_exec" and x y :: "addr \<times> int"
  assume "\<exists>xss. stopping_holds xss s" and "fst x \<in> dom (ops s)"
  then obtain xss oo where "stopping_holds xss s" "ops s (fst x) = Some oo" by blast
  from op_complete_alive [OF this, of "snd x"] obtain nx hs yss where
    eq: "settle (vtable_complete (fst x) (snd x)) s
      = s\<lparr>op_next := nx, stopping_map := hs, ops := (ops s)(fst x := None),
          signals := signals s @ [(fst x, op_signal s x)]\<rparr>"
    and ok: "stopping_holds yss (settle (vtable_complete (fst x) (snd x)) s)" by auto
  show "(\<exists>xss. stopping_holds xss (settle (vtable_complete (fst x) (snd x)) s))
      \<and> signals (settle (vtable_complete (fst x) (snd x)) s) = signals s @ [(fst x, op_signal s x)]
      \<and> ops (settle (vtable_complete (fst x) (snd x)) s) = (ops s)(fst x := None)
      \<and> rest (settle (vtable_complete (fst x) (snd x)) s) = rest s"
    using ok by (auto simp: eq rest_def)
  assume "fst y \<noteq> fst x"
  then show "op_signal (settle (vtable_complete (fst x) (snd x)) s) y = op_signal s y"
    by (simp add: eq op_signal_def)
qed

section \<open>Launching tasks\<close>

lemma fold_launch_complete:
  "\<not> terminal policy \<Longrightarrow> fold (launch_one policy env) ys (n, s)
     = (n + of_nat (length ys), fold (task_complete env) ys s)"
  by (induction ys arbitrary: n s) (simp_all add: launch_one_def)

definition launch_order :: "run_policy \<Rightarrow> addr list \<Rightarrow> addr list" where
  "launch_order policy xs = (if locality policy then xs else rev xs)"

lemma launch_order_simps [simp]:
  "set (launch_order policy xs) = set xs" "length (launch_order policy xs) = length xs"
  "distinct (launch_order policy xs) = distinct xs"
  by (simp_all add: launch_order_def)

text \<open>Everything of a state that launching the tasks \<open>xs\<close> keeps.\<close>

definition launched_from :: "addr \<Rightarrow> addr set \<Rightarrow> 'k op_exec \<Rightarrow> 'k op_exec \<Rightarrow> bool" where
  "launched_from sentinel ts s s' \<longleftrightarrow> ops s' = ops s |` (- ts) \<and> stop_token s' = stop_token s
     \<and> op_next s' = op_next s \<and> stopping_map s' = stopping_map s
     \<and> local_inflight s' = local_inflight s \<and> walltime_step s' = walltime_step s
     \<and> (\<forall>a. a \<notin> ts \<and> a \<noteq> sentinel \<longrightarrow> task_next s' a = task_next s a)"

lemma launch_tasks:
  fixes s :: "'k op_exec"
  assumes ch: "chain (task_next s) op xs" and alive: "set xs \<subseteq> dom (ops s)"
    and sentinel: "stack_sentinel env \<noteq> null" "stack_sentinel env \<notin> set xs"
    and nt: "\<not> terminal policy"
  shows "\<exists>s'. launch policy (with_vtables spawn env) op (n, s) = Some (n + of_nat (length xs), s')
    \<and> signals s' = signals s @ map (\<lambda>t. (t, task_signal s t)) (launch_order policy xs)
    \<and> launched_from (stack_sentinel env) (set xs) s s' \<and> io s' = io s
    \<and> attached_queue s' = attached_queue s \<and> immediate_map s' = immediate_map s"
proof -
  let ?env = "with_vtables spawn env" and ?ys = "launch_order policy xs"
  have frame: "task_next (task_complete ?env x t) a = task_next t a
      \<and> task_next (task_cancel ?env x t) a = task_next t a" for x t a
    by (auto simp: with_vtables_def settle_def schedule_complete_def schedule_cancel_def op_defs
        split: option.split sum.split)
  from launch_folds [where env = ?env and policy = policy and n = n, OF ch _ _ frame] sentinel
  obtain nx where l: "launch policy ?env op (n, s)
      = Some (n + of_nat (length xs), fold (task_complete ?env) ?ys (s\<lparr>task_next := nx\<rparr>))"
    and nx: "\<forall>a. a \<notin> set xs \<and> a \<noteq> stack_sentinel env \<longrightarrow> nx a = task_next s a"
    unfolding fold_launch_complete [OF nt] by (auto simp: launch_order_def split: if_splits)
  let ?s = "s\<lparr>task_next := nx\<rparr>" and ?s' = "fold (task_complete ?env) ?ys (s\<lparr>task_next := nx\<rparr>)"
  have pre: "distinct (map (\<lambda>task. task) ?ys)" "(\<lambda>task. task) ` set ?ys \<subseteq> dom (ops ?s)"
    using chain_distinct [OF ch] alive by simp_all
  note h = tasks.handle_all [OF TrueI pre]
  have sigs: "task_signal ?s = task_signal s" by (simp add: task_signal_def fun_eq_iff)
  have fr: "(rest ?s', op_next ?s', stopping_map ?s') = (rest ?s, op_next ?s, stopping_map ?s)"
    using h(4) by simp
  have "signals ?s' = signals s @ map (\<lambda>t. (t, task_signal s t)) ?ys" using h(2) by (simp add: sigs)
  moreover have "ops ?s' = ops s |` (- set xs)" using h(3) by simp
  ultimately show ?thesis
    using l fr nx by (intro exI [of _ ?s']) (simp add: rest_def launched_from_def)
qed

lemma launched_from_trans:
  assumes "launched_from sentinel A s t" "launched_from sentinel B t u"
  shows "launched_from sentinel (A \<union> B) s u"
  using assms by (auto simp: launched_from_def restrict_map_def fun_eq_iff)

lemma launched_from_others:
  assumes "launched_from sentinel A s t"
  shows "a \<notin> A \<Longrightarrow> task_signal t a = task_signal s a" "fst c \<notin> A \<Longrightarrow> op_signal t c = op_signal s c"
    "A \<inter> set xs = {} \<Longrightarrow> sentinel \<notin> set xs \<Longrightarrow> chain (task_next t) p xs = chain (task_next s) p xs"
proof -
  show "a \<notin> A \<Longrightarrow> task_signal t a = task_signal s a" "fst c \<notin> A \<Longrightarrow> op_signal t c = op_signal s c"
    using assms by (auto simp: launched_from_def task_signal_def op_signal_def restrict_map_def)
  assume "A \<inter> set xs = {}" "sentinel \<notin> set xs"
  with assms show "chain (task_next t) p xs = chain (task_next s) p xs"
    by (intro seg_cong) (auto simp: launched_from_def)
qed

section \<open>The ring\<close>

text \<open>What the loop observes of the ring: the completions that are ready, the operations the kernel
  holds, the free submission entries and the cancel requests that were made.\<close>

record ring_view =
  v_ready :: "(addr \<times> int) list"
  v_pend :: "addr set"
  v_free :: nat
  v_canc :: "addr list"

text \<open>A completion arrives only for an operation that the kernel holds, and once (operations here are not
  multishot); entries of the \<open>noop\<close> operation come from cancel requests.\<close>

definition ring_state :: "addr \<Rightarrow> ring_view \<Rightarrow> bool" where
  "ring_state nop v \<longleftrightarrow> distinct (map fst (filter (\<lambda>c. fst c \<noteq> nop) (v_ready v)))
     \<and> fst ` set (filter (\<lambda>c. fst c \<noteq> nop) (v_ready v)) \<subseteq> v_pend v"

definition arrivals :: "addr \<Rightarrow> ring_view \<Rightarrow> ring_view \<Rightarrow> bool" where
  "arrivals nop v v' \<longleftrightarrow> (\<exists>new. v_ready v' = v_ready v @ new) \<and> v_pend v' = v_pend v
     \<and> v_canc v' = v_canc v \<and> (ring_state nop v \<longrightarrow> ring_state nop v')"

definition ring_laws :: "'k op_exec run_env \<Rightarrow> ('k \<Rightarrow> ring_view) \<Rightarrow> bool" where
  "ring_laws env view \<longleftrightarrow> library_calls_only_io env
     \<and> (\<forall>s. view (io (snd (mt_random env s))) = view (io s) \<and> fst (mt_random env s) < 16
          \<and> arrivals (noop env) (view (io s)) (view (io (snd (uring_submit env s))))
          \<and> (fst (uring_get_sqe env s) = null \<longleftrightarrow> v_free (view (io s)) = 0)
          \<and> view (io (snd (uring_get_sqe env s))) = view (io s)\<lparr>v_free := v_free (view (io s)) - 1\<rparr>)
     \<and> (\<forall>n s. arrivals (noop env) (view (io s)) (view (io (snd (uring_submit_and_wait env n s))))
          \<and> arrivals (noop env) (view (io s)) (view (io (snd (uring_peek_batch_cqe env n s))))
          \<and> fst (uring_peek_batch_cqe env n s)
              = take (unat n) (v_ready (view (io (snd (uring_peek_batch_cqe env n s)))))
          \<and> view (io (uring_cq_advance env n s)) = view (io s)
              \<lparr>v_ready := drop (unat n) (v_ready (view (io s))),
               v_pend := v_pend (view (io s)) - fst ` set (take (unat n) (v_ready (view (io s))))\<rparr>)
     \<and> (\<forall>e d f s. view (io (uring_sqe_set_data env e d s)) = view (io s)
          \<and> view (io (uring_prep_cancel env e d f s)) = view (io s)\<lparr>v_canc := v_canc (view (io s)) @ [d]\<rparr>)"

text \<open>The loop attaches no operation of its own but \<open>noop\<close> to an entry, so \<open>v_pend\<close> does not grow here.\<close>

lemma ring_laws_supply:
  "ring_laws env view \<Longrightarrow> sq_supply env (\<lambda>k. v_free (view k)) (\<lambda>k. v_canc (view k))"
  by (simp add: ring_laws_def sq_supply_def library_calls_only_io_def)

section \<open>Completions\<close>

lemma consume_some_fold:
  "\<not> transfer policy \<Longrightarrow> consume_some policy (with_vtables spawn env) cqes s
     = fold (\<lambda>c. settle (vtable_complete (fst c) (snd c))) (filter (\<lambda>c. fst c \<noteq> noop env) cqes) s"
  by (induction cqes arbitrary: s) (simp_all add: consume_some_def consume_one_def vtab_complete_def)

lemma ring_state_split:
  assumes st: "ring_state nop v" and split: "v_ready v = ys @ zs"
  defines "f \<equiv> filter (\<lambda>c. fst c \<noteq> nop)"
  shows "distinct (map fst (f ys))" "fst ` set (f ys) \<subseteq> v_pend v"
    and "ring_state nop (v\<lparr>v_ready := zs, v_pend := v_pend v - fst ` set ys\<rparr>)"
proof -
  have dist: "distinct (map fst (f ys))" "distinct (map fst (f zs))"
      "set (map fst (f ys)) \<inter> set (map fst (f zs)) = {}"
    and sub: "fst ` set (f ys) \<subseteq> v_pend v" "fst ` set (f zs) \<subseteq> v_pend v"
    using st unfolding ring_state_def split f_def by (simp_all add: image_Un)
  show "distinct (map fst (f ys))" "fst ` set (f ys) \<subseteq> v_pend v" by (fact dist(1), fact sub(1))
  have "a \<notin> fst ` set ys" if "a \<in> fst ` set (f zs)" for a
  proof -
    from that have "a \<noteq> nop" "a \<notin> set (map fst (f ys))" using dist(3) by (auto simp: f_def)
    then show ?thesis by (auto simp: f_def)
  qed
  with dist(2) sub(2) show "ring_state nop (v\<lparr>v_ready := zs, v_pend := v_pend v - fst ` set ys\<rparr>)"
    unfolding ring_state_def f_def by (simp add: subset_iff)
qed

text \<open>The operations side of the state: the stopping map, the ring, and that the kernel holds live
  operations only, none of them a task that is still queued (\<open>ts\<close>).\<close>

definition operations_hold :: "addr \<Rightarrow> ring_view \<Rightarrow> addr set \<Rightarrow> 'k op_exec \<Rightarrow> bool" where
  "operations_hold nop v ts s \<longleftrightarrow> (\<exists>zss. stopping_holds zss s) \<and> ring_state nop v
     \<and> v_pend v \<subseteq> dom (ops s) - ts"

definition completed_from :: "addr \<Rightarrow> addr set \<Rightarrow> (addr \<times> int) list \<Rightarrow> 'k op_exec \<Rightarrow> 'k op_exec \<Rightarrow> bool" where
  "completed_from nop ts cqes s t \<longleftrightarrow> (let real = filter (\<lambda>c. fst c \<noteq> nop) cqes in
     signals t = signals s @ map (\<lambda>c. (fst c, op_signal s c)) real \<and> distinct (map fst real)
     \<and> fst ` set real \<subseteq> dom (ops s) - ts \<and> ops t = ops s |` (- fst ` set real) \<and> stop_token t = stop_token s
     \<and> (\<forall>c. fst c \<notin> fst ` set real \<longrightarrow> op_signal t c = op_signal s c)
     \<and> local_inflight t = local_inflight s - of_nat (length cqes)
     \<and> task_next t = task_next s \<and> attached_queue t = attached_queue s
     \<and> immediate_map t = immediate_map s \<and> walltime_step t = walltime_step s)"

lemma only_io_op_exec:
  fixes t u :: "'k op_exec"
  assumes "only_io t u"
  shows "signals u = signals t" "ops u = ops t" "stop_token u = stop_token t"
    "task_next u = task_next t" "attached_queue u = attached_queue t"
    "immediate_map u = immediate_map t" "walltime_step u = walltime_step t"
    "local_inflight u = local_inflight t" "op_next u = op_next t" "stopping_map u = stopping_map t"
    "op_signal u c = op_signal t c" "task_signal u a = task_signal t a"
    "stopping_holds zss u = stopping_holds zss t"
proof -
  obtain x where u: "u = t\<lparr>io := x\<rparr>" using assms by (auto simp: only_io_def)
  show "signals u = signals t" "ops u = ops t" "stop_token u = stop_token t"
    "task_next u = task_next t" "attached_queue u = attached_queue t"
    "immediate_map u = immediate_map t" "walltime_step u = walltime_step t"
    "local_inflight u = local_inflight t" "op_next u = op_next t" "stopping_map u = stopping_map t"
    "op_signal u c = op_signal t c" "task_signal u a = task_signal t a"
    "stopping_holds zss u = stopping_holds zss t"
    by (simp_all add: u op_signal_def task_signal_def stopping_holds_def)
qed

lemma completed_from_io: "only_io t u \<Longrightarrow> completed_from nop ts cqes s t \<Longrightarrow> completed_from nop ts cqes s u"
  by (simp add: completed_from_def only_io_op_exec Let_def)

lemma completed_from_Nil: "completed_from nop ts [] s s"
  by (simp add: completed_from_def restrict_map_def)

text \<open>One batch: the entries that were peeked are handled in order.\<close>

lemma consume_batch:
  fixes t :: "'k op_exec" and spawn
  assumes hold: "operations_hold (noop env) (view (io t)) ts t" and ready: "v_ready (view (io t)) = cqes @ zs"
    and nt: "\<not> transfer policy"
  defines "real \<equiv> filter (\<lambda>c. fst c \<noteq> noop env) cqes"
    and "u \<equiv> consume_some policy (with_vtables spawn env) cqes t"
  shows "signals u = signals t @ map (\<lambda>c. (fst c, op_signal t c)) real"
    and "distinct (map fst real)" "fst ` set real \<subseteq> dom (ops t) - ts"
    and "ops u = ops t |` (- fst ` set real)" "rest u = rest t" "\<exists>zss. stopping_holds zss u"
    and "fst c \<notin> fst ` set real \<Longrightarrow> op_signal u c = op_signal t c"
proof -
  have st: "ring_state (noop env) (view (io t))" and good: "\<exists>zss. stopping_holds zss t"
    and pend: "v_pend (view (io t)) \<subseteq> dom (ops t) - ts" using hold by (auto simp: operations_hold_def)
  note sp = ring_state_split [OF st ready, folded real_def]
  show dist: "distinct (map fst real)" and sub: "fst ` set real \<subseteq> dom (ops t) - ts" using sp(1,2) pend by auto
  then have alive: "fst ` set real \<subseteq> dom (ops t)" by blast
  note h = operations.handle_all [OF good dist alive]
  have u: "u = fold (\<lambda>c. settle (vtable_complete (fst c) (snd c))) real t"
    by (simp add: u_def consume_some_fold [OF nt] real_def)
  show "signals u = signals t @ map (\<lambda>c. (fst c, op_signal t c)) real"
    "ops u = ops t |` (- fst ` set real)" "rest u = rest t" "\<exists>zss. stopping_holds zss u"
    "fst c \<notin> fst ` set real \<Longrightarrow> op_signal u c = op_signal t c"
    unfolding u by (fact h)+
qed

text \<open>Completing some and then others is completing all of them.\<close>

lemma completed_from_trans:
  assumes f: "completed_from nop ts xs s t" and g: "completed_from nop ts ys t u"
  shows "completed_from nop ts (xs @ ys) s u"
proof -
  let ?f = "filter (\<lambda>c. fst c \<noteq> nop)"
  have f': "signals t = signals s @ map (\<lambda>c. (fst c, op_signal s c)) (?f xs)" "distinct (map fst (?f xs))"
    "fst ` set (?f xs) \<subseteq> dom (ops s) - ts" "ops t = ops s |` (- fst ` set (?f xs))"
    "\<And>c. fst c \<notin> fst ` set (?f xs) \<Longrightarrow> op_signal t c = op_signal s c"
    using f unfolding completed_from_def Let_def by blast+
  have g': "signals u = signals t @ map (\<lambda>c. (fst c, op_signal t c)) (?f ys)" "distinct (map fst (?f ys))"
    "fst ` set (?f ys) \<subseteq> dom (ops t) - ts" "ops u = ops t |` (- fst ` set (?f ys))"
    "\<And>c. fst c \<notin> fst ` set (?f ys) \<Longrightarrow> op_signal u c = op_signal t c"
    using g unfolding completed_from_def Let_def by blast+
  have dom: "dom (ops t) = dom (ops s) \<inter> - fst ` set (?f xs)" unfolding f'(4) dom_restrict ..
  with g'(3) have disj: "fst ` set (?f xs) \<inter> fst ` set (?f ys) = {}" and "fst ` set (?f ys) \<subseteq> dom (ops s) - ts" by blast+
  with f'(3) have alive: "fst ` set (?f (xs @ ys)) \<subseteq> dom (ops s) - ts" by (simp only: filter_append set_append image_Un Un_subset_iff)
  have dist: "distinct (map fst (?f (xs @ ys)))"
    unfolding filter_append map_append distinct_append set_map by (intro conjI f'(2) g'(2) disj)
  have "map (\<lambda>c. (fst c, op_signal t c)) (?f ys) = map (\<lambda>c. (fst c, op_signal s c)) (?f ys)"
    by (rule map_cong [OF refl]) (use f'(5) disj in blast)
  then have sig: "signals u = signals s @ map (\<lambda>c. (fst c, op_signal s c)) (?f (xs @ ys))"
    unfolding g'(1) f'(1) by simp
  have ops: "ops u = ops s |` (- fst ` set (?f (xs @ ys)))"
    unfolding g'(4) f'(4) restrict_restrict filter_append set_append image_Un Compl_Un ..
  have others: "op_signal u c = op_signal s c" if "fst c \<notin> fst ` set (?f (xs @ ys))" for c
  proof -
    have "fst c \<notin> fst ` set (?f xs)" "fst c \<notin> fst ` set (?f ys)"
      using that unfolding filter_append set_append image_Un by blast+
    then show ?thesis using f'(5) g'(5) by simp
  qed
  from f g sig dist alive ops others show ?thesis
    unfolding completed_from_def Let_def by (intro conjI allI impI) simp_all
qed

lemma completed_batch:
  fixes t :: "'k op_exec" and spawn
  assumes hold: "operations_hold (noop env) (view (io t)) ts t" and ready: "v_ready (view (io t)) = batch @ zs"
    and nt: "\<not> transfer policy" and adv: "only_io (consume_some policy (with_vtables spawn env) batch t) u"
  shows "completed_from (noop env) ts batch t (u\<lparr>local_inflight := local_inflight u - of_nat (length batch)\<rparr>)"
proof -
  note b = consume_batch [where view = view, OF hold ready nt]
  have fields: "local_inflight u = local_inflight t" "task_next u = task_next t"
    "attached_queue u = attached_queue t" "immediate_map u = immediate_map t"
    "walltime_step u = walltime_step t" "stop_token u = stop_token t"
    using b(5) only_io_op_exec [OF adv] by (simp_all only: rest_def prod.inject)
  have "op_signal u c = op_signal t c" if "fst c \<notin> fst ` set (filter (\<lambda>c. fst c \<noteq> noop env) batch)" for c
    unfolding only_io_op_exec(11) [OF adv] by (rule b(7) [OF that])
  moreover have "op_signal (u\<lparr>local_inflight := n\<rparr>) c = op_signal u c" for c n by (simp add: op_signal_def)
  ultimately show ?thesis
    unfolding completed_from_def Let_def
    using b(1-4) only_io_op_exec(1,2) [OF adv] fields by simp
qed

lemma completed_round:
  fixes s t :: "'k op_exec" and spawn
  assumes cf: "completed_from (noop env) ts cqes s t"
    and hold: "operations_hold (noop env) (view (io t)) ts t"
    and ready: "v_ready (view (io t)) = batch @ zs" and nt: "\<not> transfer policy"
    and adv: "only_io (consume_some policy (with_vtables spawn env) batch t) u"
    and view: "view (io u) = (view (io t))\<lparr>v_ready := zs,
        v_pend := v_pend (view (io t)) - fst ` set batch\<rparr>"
  defines "w \<equiv> u\<lparr>local_inflight := local_inflight u - of_nat (length batch)\<rparr>"
  shows "completed_from (noop env) ts (cqes @ batch) s w" and "operations_hold (noop env) (view (io w)) ts w"
proof -
  note b = consume_batch [where view = view, OF hold ready nt]
  from completed_from_trans [OF cf completed_batch [where view = view, OF hold ready nt adv]]
  show "completed_from (noop env) ts (cqes @ batch) s w" unfolding w_def .
  have "stopping_holds zss w = stopping_holds zss u" for zss by (simp add: w_def stopping_holds_def)
  then have "\<exists>zss. stopping_holds zss w" using b(6) only_io_op_exec(13) [OF adv] by simp
  moreover have "v_pend (view (io u)) \<subseteq> dom (ops u) - ts"
    using hold b(4) only_io_op_exec(2) [OF adv] by (auto simp: view operations_hold_def)
  moreover have "ring_state (noop env) (view (io t))" using hold by (simp add: operations_hold_def)
  ultimately show "operations_hold (noop env) (view (io w)) ts w"
    using ring_state_split(3) [OF _ ready] by (simp add: operations_hold_def w_def view)
qed

lemma arrivals_hold:
  assumes "arrivals nop (view (io s)) (view (io t))" "only_io s t" "operations_hold nop (view (io s)) ts s"
  shows "operations_hold nop (view (io t)) ts t"
  using assms by (auto simp: arrivals_def operations_hold_def only_io_op_exec)

lemma peek_system:
  assumes laws: "ring_laws env view" and pk: "uring_peek_batch_cqe env n s = (cqes, t)"
  obtains new zs where "only_io s t" "arrivals (noop env) (view (io s)) (view (io t))"
    "v_ready (view (io t)) = v_ready (view (io s)) @ new" "v_ready (view (io t)) = cqes @ zs"
    "v_canc (view (io t)) = v_canc (view (io s))" "length cqes \<le> unat n"
proof -
  have only: "only_io s t"
    using laws pk unfolding ring_laws_def library_calls_only_io_def by (metis snd_conv)
  have arr: "arrivals (noop env) (view (io s)) (view (io t))"
    and cqes: "cqes = take (unat n) (v_ready (view (io t)))"
    using laws pk unfolding ring_laws_def by (metis fst_conv snd_conv)+
  from arr obtain new where new: "v_ready (view (io t)) = v_ready (view (io s)) @ new"
    and canc: "v_canc (view (io t)) = v_canc (view (io s))" by (auto simp: arrivals_def)
  have "v_ready (view (io t)) = cqes @ drop (unat n) (v_ready (view (io t)))" "length cqes \<le> unat n"
    by (simp_all add: cqes)
  with that [OF only arr new _ canc] show ?thesis by blast
qed

lemma unat_batch:
  assumes "length cqes \<le> unat (n :: u32)"
  shows "unat (of_nat (length cqes) :: u32) = length cqes"
    "ucast (of_nat (length cqes) :: u32) = (of_nat (length cqes) :: size_t)"
proof -
  have "unat n < 2 ^ 32" using unsigned_less [of n] by simp
  with assms have "length cqes < 2 ^ 32" by linarith
  then show "unat (of_nat (length cqes) :: u32) = length cqes" by (intro unat_count) simp
  then show "ucast (of_nat (length cqes) :: u32) = (of_nat (length cqes) :: size_t)"
    using \<open>length cqes < 2 ^ 32\<close> by (simp add: word_unat_eq_iff unat_count)
qed

lemma reaping_system:
  fixes s :: "'k op_exec"
  assumes laws: "ring_laws env view" and hold: "operations_hold (noop env) (view (io s)) ts s"
    and nt: "\<not> transfer policy" and run: "iodone_loop policy (with_vtables spawn env) 0 s = Some (d, s')"
  shows "\<exists>cqes arrived. d = of_nat (length cqes) \<and> completed_from (noop env) ts cqes s s'
    \<and> operations_hold (noop env) (view (io s')) ts s'
    \<and> v_ready (view (io s)) @ arrived = cqes @ v_ready (view (io s'))
    \<and> v_canc (view (io s')) = v_canc (view (io s))"
proof (rule iodone_loop_rule [OF run], goal_cases)
  case 1
  show ?case
    using hold completed_from_Nil by (intro exI [of _ "[]"]) simp
next
  case (2 d t cqes t1)
  from 2(1) obtain old arrived where J: "d = of_nat (length old)" "completed_from (noop env) ts old s t"
    "operations_hold (noop env) (view (io t)) ts t"
    "v_ready (view (io s)) @ arrived = old @ v_ready (view (io t))"
    "v_canc (view (io t)) = v_canc (view (io s))" by blast
  from 2(2) have "uring_peek_batch_cqe env (ucast (iodone_batch policy)) t = (cqes, t1)" by simp
  from peek_system [OF laws this] obtain new where pk: "only_io t t1"
    "arrivals (noop env) (view (io t)) (view (io t1))" "v_ready (view (io t1)) = v_ready (view (io t)) @ new"
    "v_canc (view (io t1)) = v_canc (view (io t))" by metis
  from completed_from_io [OF pk(1) J(2)] arrivals_hold [where view = view, OF pk(2,1) J(3)] J pk(3,4)
  show ?case by (intro exI [of _ old] exI [of _ "arrived @ new"]) simp
next
  case (3 d t cqes t1 t2)
  from 3(1) obtain old arrived where J: "d = of_nat (length old)" "completed_from (noop env) ts old s t"
    "operations_hold (noop env) (view (io t)) ts t"
    "v_ready (view (io s)) @ arrived = old @ v_ready (view (io t))"
    "v_canc (view (io t)) = v_canc (view (io s))" by blast
  from 3(2) have "uring_peek_batch_cqe env (ucast (iodone_batch policy)) t = (cqes, t1)" by simp
  from peek_system [OF laws this] obtain new zs where pk: "only_io t t1"
    "arrivals (noop env) (view (io t)) (view (io t1))" "v_ready (view (io t1)) = v_ready (view (io t)) @ new"
    "v_ready (view (io t1)) = cqes @ zs" "v_canc (view (io t1)) = v_canc (view (io t))"
    "length cqes \<le> unat (ucast (iodone_batch policy) :: u32)" by metis
  note cast = unat_batch [OF pk(6)]
  note hold1 = arrivals_hold [where view = view, OF pk(2,1) J(3)]
  let ?c = "consume_some policy (with_vtables spawn env) cqes t1"
  have t2: "t2 = uring_cq_advance env (of_nat (length cqes)) ?c" using 3(3) by simp
  have io_c: "io ?c = io t1" using consume_batch(5) [where view = view, OF hold1 pk(4) nt] by (simp add: rest_def)
  have adv: "only_io ?c t2" using laws unfolding t2 ring_laws_def library_calls_only_io_def by blast
  have "view (io t2) = view (io ?c)\<lparr>v_ready := drop (length cqes) (v_ready (view (io ?c))),
      v_pend := v_pend (view (io ?c)) - fst ` set (take (length cqes) (v_ready (view (io ?c))))\<rparr>"
    using laws cast(1) unfolding t2 ring_laws_def by metis
  then have v2: "view (io t2) = view (io t1)\<lparr>v_ready := zs,
      v_pend := v_pend (view (io t1)) - fst ` set cqes\<rparr>" by (simp add: io_c pk(4))
  from completed_round [where view = view, OF completed_from_io [OF pk(1) J(2)] hold1 pk(4) nt adv v2] J(1,4,5) pk(3,4,5) v2
  show ?case
    unfolding cast(2) by (intro exI [of _ "old @ cqes"] exI [of _ "arrived @ new"]) simp
qed

section \<open>The phases\<close>

text \<open>The tasks side of the state: the attached queue holds \<open>as\<close>, the shared map \<open>xss\<close>.\<close>

definition tasks_hold :: "addr \<Rightarrow> addr list \<Rightarrow> addr list list \<Rightarrow> 'k op_exec \<Rightarrow> bool" where
  "tasks_hold sentinel as xss s \<longleftrightarrow> chain (task_next s) (attached_queue s) as
     \<and> map_holds (task_next s, immediate_map s) xss
     \<and> set as \<inter> set (concat xss) = {} \<and> set as \<union> set (concat xss) \<subseteq> dom (ops s)
     \<and> sentinel \<noteq> null \<and> sentinel \<notin> set as \<union> set (concat xss)"

lemma tasks_hold_take_attached:
  "tasks_hold sentinel as xss s \<Longrightarrow>
   tasks_hold sentinel [] xss (s\<lparr>attached_queue := null\<rparr>)"
  by (simp add: tasks_hold_def)

lemma set_concat_clear:
  "distinct (concat xss) \<Longrightarrow> i < length xss \<Longrightarrow> set (concat (xss[i := []])) = set (concat xss) - set (xss ! i)"
proof -
  assume dist: "distinct (concat xss)" and i: "i < length xss"
  have xss: "xss = take i xss @ xss ! i # drop (Suc i) xss" by (rule id_take_nth_drop [OF i])
  have "set (concat (xss[i := []])) = set (concat (take i xss)) \<union> set (concat (drop (Suc i) xss))"
    using i by (simp add: upd_conv_take_nth_drop)
  moreover have "set (concat xss) = set (concat (take i xss)) \<union> set (xss ! i) \<union> set (concat (drop (Suc i) xss))"
    by (subst xss) auto
  moreover have "set (xss ! i) \<inter> (set (concat (take i xss)) \<union> set (concat (drop (Suc i) xss))) = {}"
    using dist by (subst (asm) xss) auto
  ultimately show ?thesis by blast
qed

text \<open>Launching one bucket of the shared map.\<close>

lemma launch_bucket:
  fixes s :: "'k op_exec"
  assumes hold: "tasks_hold (stack_sentinel env) [] xss s" and i: "i < 16" and nt: "\<not> terminal policy"
  shows "\<exists>s'. launch policy (with_vtables spawn env) (immediate_map s ! i)
        (n, s\<lparr>immediate_map := (immediate_map s)[i := null]\<rparr>) = Some (n + of_nat (length (xss ! i)), s')
    \<and> signals s' = signals s @ map (\<lambda>t. (t, task_signal s t)) (launch_order policy (xss ! i))
    \<and> launched_from (stack_sentinel env) (set (xss ! i)) s s' \<and> io s' = io s
    \<and> tasks_hold (stack_sentinel env) [] (xss[i := []]) s'"
proof -
  let ?s = "s\<lparr>immediate_map := (immediate_map s)[i := null]\<rparr>" let ?z = "stack_sentinel env"
  have mh: "map_holds (task_next s, immediate_map s) xss" and len: "length xss = 16" "length (immediate_map s) = 16"
    and dist: "distinct (concat xss)" and alive: "set (concat xss) \<subseteq> dom (ops s)"
    and z: "?z \<noteq> null" "?z \<notin> set (concat xss)" and at: "attached_queue s = null"
    using hold by (auto simp: tasks_hold_def map_holds_def)
  have ch: "chain (task_next s) (immediate_map s ! j) (xss ! j)" if "j < 16" for j
    using mh that by (simp add: map_holds_def)
  have sub: "set (xss ! j) \<subseteq> set (concat xss)" if "j < 16" for j using that len by (auto simp: set_concat_nth simp del: set_concat)
  have "chain (task_next ?s) (immediate_map s ! i) (xss ! i)" "set (xss ! i) \<subseteq> dom (ops ?s)"
    "?z \<notin> set (xss ! i)"
    using ch [OF i] sub [OF i] alive z by auto
  from launch_tasks [OF this(1,2) z(1) this(3) nt] obtain s' where s':
    "launch policy (with_vtables spawn env) (immediate_map s ! i) (n, ?s) = Some (n + of_nat (length (xss ! i)), s')"
    "signals s' = signals ?s @ map (\<lambda>t. (t, task_signal ?s t)) (launch_order policy (xss ! i))"
    "launched_from ?z (set (xss ! i)) ?s s'" "io s' = io ?s" "attached_queue s' = attached_queue ?s"
    "immediate_map s' = immediate_map ?s" by blast
  have lf: "launched_from ?z (set (xss ! i)) s s'" using s'(3) by (simp add: launched_from_def)
  have sg: "task_signal ?s = task_signal s" by (simp add: task_signal_def fun_eq_iff)
  have "chain (task_next s') ((immediate_map s)[i := null] ! j) (xss[i := []] ! j)" if j: "j < 16" for j
  proof (cases "j = i")
    case True
    with len i show ?thesis by simp
  next
    case False
    have "set (xss ! i) \<inter> set (xss ! j) = {}"
      using distinct_concat_disjoint [OF dist, of i j] i j len False by simp
    from launched_from_others(3) [OF lf this] sub [OF j] z ch [OF j] False j show ?thesis by auto
  qed
  moreover have "distinct (concat (xss[i := []]))"
    using i dist len by (intro distinct_concat_update) auto
  ultimately have "map_holds (task_next s', immediate_map s') (xss[i := []])"
    using len s'(6) by (simp add: map_holds_def)
  moreover have cl: "set (concat (xss[i := []])) = set (concat xss) - set (xss ! i)"
    using set_concat_clear [OF dist] i len by simp
  moreover have "ops s' = ops s |` (- set (xss ! i))" using lf by (simp add: launched_from_def)
  ultimately have "tasks_hold ?z [] (xss[i := []]) s'"
    using s'(5) at alive z unfolding tasks_hold_def cl by auto
  with s'(1,2,4) lf sg show ?thesis by (intro exI [of _ s'] conjI) simp_all
qed

lemma unat_less_16: "(r :: size_t) < 16 \<Longrightarrow> unat r < 16"
  by (simp add: word_less_nat_alt)

text \<open>The tasks of a step, in the order of their launch: those of the attached queue, of the bucket
  that is due (\<open>i\<close>), and of a random bucket (\<open>j\<close>).\<close>

definition step_tasks :: "run_policy \<Rightarrow> addr list \<Rightarrow> addr list list \<Rightarrow> nat \<Rightarrow> nat \<Rightarrow> addr list" where
  "step_tasks policy as xss i j = launch_order policy as @ launch_order policy (xss ! i)
     @ launch_order policy (xss[i := []] ! j)"

lemma tasks_hold_only_io:
  assumes "only_io s t" shows "tasks_hold z as xss t = tasks_hold z as xss s"
  by (simp add: tasks_hold_def only_io_op_exec [OF assms])

lemma launch_attached:
  fixes s :: "'k op_exec"
  assumes hold: "tasks_hold (stack_sentinel env) as xss s" and nt: "\<not> terminal policy"
  shows "\<exists>s'. launch policy (with_vtables spawn env) (attached_queue s) (0, s\<lparr>attached_queue := null\<rparr>)
      = Some (of_nat (length as), s')
    \<and> signals s' = signals s @ map (\<lambda>t. (t, task_signal s t)) (launch_order policy as)
    \<and> launched_from (stack_sentinel env) (set as) s s' \<and> io s' = io s
    \<and> tasks_hold (stack_sentinel env) [] xss s'"
proof -
  let ?s = "s\<lparr>attached_queue := null\<rparr>" let ?z = "stack_sentinel env"
  have mh: "map_holds (task_next s, immediate_map s) xss"
    and dist: "set as \<inter> set (concat xss) = {}" and alive: "set as \<union> set (concat xss) \<subseteq> dom (ops s)"
    and z: "?z \<noteq> null" "?z \<notin> set (concat xss)" "?z \<notin> set as"
    using hold unfolding tasks_hold_def by blast+
  have len: "length xss = 16" using mh by (simp add: map_holds_def)
  have "chain (task_next ?s) (attached_queue s) as" "set as \<subseteq> dom (ops ?s)"
    using hold by (simp_all add: tasks_hold_def)
  from launch_tasks [OF this z(1,3) nt, of spawn 0, unfolded add_0] obtain s' where s':
    "launch policy (with_vtables spawn env) (attached_queue s) (0, ?s) = Some (of_nat (length as), s')"
    "signals s' = signals ?s @ map (\<lambda>t. (t, task_signal ?s t)) (launch_order policy as)"
    "launched_from ?z (set as) ?s s'" "io s' = io ?s" "attached_queue s' = attached_queue ?s"
    "immediate_map s' = immediate_map ?s" by blast
  have lf: "launched_from ?z (set as) s s'" using s'(3) by (simp add: launched_from_def)
  have sg: "task_signal ?s = task_signal s" by (simp add: task_signal_def fun_eq_iff)
  have "chain (task_next s') (immediate_map s ! j) (xss ! j)" if j: "j < 16" for j
  proof -
    have sub: "set (xss ! j) \<subseteq> set (concat xss)"
      using j len by (auto simp: set_concat_nth simp del: set_concat)
    then have "set as \<inter> set (xss ! j) = {}" "?z \<notin> set (xss ! j)" using dist z(2) by blast+
    with launched_from_others(3) [OF lf this] mh j show ?thesis by (simp add: map_holds_def)
  qed
  then have "map_holds (task_next s', immediate_map s') xss"
    using mh s'(6) by (simp add: map_holds_def)
  moreover have "ops s' = ops s |` (- set as)" using lf by (simp add: launched_from_def)
  ultimately have "tasks_hold ?z [] xss s'"
    using s'(5) alive z(1,2) dist unfolding tasks_hold_def by auto
  with s'(1,2,4) lf sg show ?thesis by (intro exI [of _ s'] conjI) simp_all
qed

text \<open>The three lists of a step do not overlap.\<close>

lemma step_tasks_disjoint:
  assumes hold: "tasks_hold sentinel as xss s" and i: "i < 16" and j: "j < 16"
  shows "set as \<inter> set (xss ! i) = {}" and "(set as \<union> set (xss ! i)) \<inter> set (xss[i := []] ! j) = {}"
    and "distinct (step_tasks policy as xss i j)"
proof -
  have mh: "set as \<inter> set (concat xss) = {}" "distinct (concat xss)" "length xss = 16" "distinct as"
    using hold chain_distinct by (auto simp: tasks_hold_def map_holds_def simp del: set_concat)
  have si: "set (xss ! i) \<subseteq> set (concat xss)" using i mh(3) by (auto simp: set_concat_nth simp del: set_concat)
  have cl: "set (concat (xss[i := []])) = set (concat xss) - set (xss ! i)"
    using set_concat_clear [OF mh(2)] i mh(3) by simp
  have sj: "set (xss[i := []] ! j) \<subseteq> set (concat (xss[i := []]))"
    using j mh(3) by (auto simp: set_concat_nth simp del: set_concat)
  show d1: "set as \<inter> set (xss ! i) = {}" using si mh(1) by blast
  show d2: "(set as \<union> set (xss ! i)) \<inter> set (xss[i := []] ! j) = {}" using sj mh(1) unfolding cl by blast
  have "distinct (xss ! i)" "distinct (xss[i := []] ! j)"
    using mh(2,3) i j by (auto simp: distinct_concat_iff nth_list_update)
  with mh(4) d1 d2 show "distinct (step_tasks policy as xss i j)" by (auto simp: step_tasks_def)
qed

lemma task_signals_kept:
  "launched_from z ts s t \<Longrightarrow> ts \<inter> set xs = {} \<Longrightarrow>
   map (\<lambda>a. (a, task_signal t a)) (launch_order policy xs) = map (\<lambda>a. (a, task_signal s a)) (launch_order policy xs)"
  using launched_from_others(1) by (intro map_cong [OF refl]) fastforce

lemma launch_phase_system:
  fixes s :: "'k op_exec"
  assumes laws: "ring_laws env view" and hold: "tasks_hold (stack_sentinel env) as xss s"
    and pol: "p_launch policy" "\<not> transfer policy" "\<not> terminal policy"
  defines "i \<equiv> robin_bucket (walltime_step s)"
  shows "\<exists>s' j. j < 16 \<and> launch_phase policy (with_vtables spawn env) s
      = Some (of_nat (length (step_tasks policy as xss i j)), s')
    \<and> signals s' = signals s @ map (\<lambda>t. (t, task_signal s t)) (step_tasks policy as xss i j)
    \<and> distinct (step_tasks policy as xss i j)
    \<and> launched_from (stack_sentinel env) (set (step_tasks policy as xss i j)) s s'
    \<and> view (io s') = view (io s) \<and> tasks_hold (stack_sentinel env) [] (xss[i := [], j := []]) s'"
proof -
  let ?z = "stack_sentinel env" let ?env = "with_vtables spawn env" let ?yss = "xss[i := []]"
  have i: "i < 16" by (simp add: i_def)
  from launch_attached [OF hold pol(3), of spawn] obtain s1 where s1:
    "launch policy ?env (attached_queue s) (0, s\<lparr>attached_queue := null\<rparr>) = Some (of_nat (length as), s1)"
    "signals s1 = signals s @ map (\<lambda>t. (t, task_signal s t)) (launch_order policy as)"
    "launched_from ?z (set as) s s1" "io s1 = io s" "tasks_hold ?z [] xss s1" by blast
  from launch_bucket [OF s1(5) i pol(3), of spawn "of_nat (length as)"] obtain s2 where s2:
    "launch policy ?env (immediate_map s1 ! i) (of_nat (length as), s1\<lparr>immediate_map := (immediate_map s1)[i := null]\<rparr>)
      = Some (of_nat (length as) + of_nat (length (xss ! i)), s2)"
    "signals s2 = signals s1 @ map (\<lambda>t. (t, task_signal s1 t)) (launch_order policy (xss ! i))"
    "launched_from ?z (set (xss ! i)) s1 s2" "io s2 = io s1" "tasks_hold ?z [] ?yss s2" by blast
  obtain r s3 where rnd: "mt_random env s2 = (r, s3)" by force
  define j where "j = unat r"
  have o3: "only_io s2 s3" and v3: "view (io s3) = view (io s2)" and j: "j < 16"
    using laws rnd unfolding ring_laws_def library_calls_only_io_def j_def
    by (metis snd_conv, metis snd_conv, metis fst_conv unat_less_16)
  note h3 = tasks_hold_only_io [OF o3, THEN iffD2, OF s2(5)]
  from launch_bucket [OF h3 j pol(3), of spawn "of_nat (length as) + of_nat (length (xss ! i))"] obtain s4 where s4:
    "launch policy ?env (immediate_map s3 ! j)
       (of_nat (length as) + of_nat (length (xss ! i)), s3\<lparr>immediate_map := (immediate_map s3)[j := null]\<rparr>)
      = Some (of_nat (length as) + of_nat (length (xss ! i)) + of_nat (length (?yss ! j)), s4)"
    "signals s4 = signals s3 @ map (\<lambda>t. (t, task_signal s3 t)) (launch_order policy (?yss ! j))"
    "launched_from ?z (set (?yss ! j)) s3 s4" "io s4 = io s3" "tasks_hold ?z [] (?yss[j := []]) s4" by blast
  have wt: "robin_bucket (walltime_step s1) = i" using s1(3) by (simp add: launched_from_def i_def)
  have run: "launch_phase policy ?env s = Some (of_nat (length (step_tasks policy as xss i j)), s4)"
    using pol(1,2) s1(1) s2(1) s4(1)
    by (simp add: launch_phase_def take_fields wt rnd j_def [symmetric] Let_def step_tasks_def add.assoc)
  have "launched_from ?z {} s2 s3" by (simp add: launched_from_def only_io_op_exec [OF o3] restrict_map_def)
  from launched_from_trans [OF launched_from_trans [OF s1(3) s2(3)] this]
  have lf3: "launched_from ?z (set as \<union> set (xss ! i)) s s3" by simp
  note apart = step_tasks_disjoint [OF hold i j]
  have signals: "signals s4 = signals s @ map (\<lambda>t. (t, task_signal s t)) (step_tasks policy as xss i j)"
    unfolding s4(2) only_io_op_exec(1) [OF o3] s2(2) s1(2) task_signals_kept [OF s1(3) apart(1)]
      task_signals_kept [OF lf3 apart(2)] step_tasks_def by simp
  from launched_from_trans [OF lf3 s4(3)]
  have lf: "launched_from ?z (set (step_tasks policy as xss i j)) s s4"
    by (simp add: step_tasks_def Un_assoc)
  with run signals apart(3) v3 s4(4,5) s2(4) s1(4) j show ?thesis
    by (intro exI [of _ s4] exI [of _ j]) simp
qed

text \<open>What the cancel phase leaves alone.\<close>

definition same_but_stopping :: "('k \<Rightarrow> ring_view) \<Rightarrow> 'k op_exec \<Rightarrow> 'k op_exec \<Rightarrow> bool" where
  "same_but_stopping view s t \<longleftrightarrow> signals t = signals s \<and> ops t = ops s \<and> stop_token t = stop_token s
     \<and> task_next t = task_next s \<and> attached_queue t = attached_queue s
     \<and> immediate_map t = immediate_map s \<and> walltime_step t = walltime_step s
     \<and> v_ready (view (io t)) = v_ready (view (io s)) \<and> v_pend (view (io t)) = v_pend (view (io s))"

lemma cancel_loop_same:
  fixes s :: "'k op_exec"
  assumes laws: "ring_laws env view"
    and run: "cancel_loop (with_vtables spawn env) i p s = Some s'" and init: "same_but_stopping view s0 s"
  shows "same_but_stopping view s0 s'"
proof (rule cancel_loop_rule [where J = "same_but_stopping view s0", OF run init])
  show "library_calls_only_io (with_vtables spawn env)"
    using laws by (simp add: ring_laws_def library_calls_only_io_def)
next
  fix p t t1 t'
  assume t: "same_but_stopping view s0 t" and g: "uring_get_sqe (with_vtables spawn env) t = (null, t1)"
    and o1: "only_io t t1" and pa: "stopping_push_all i p (\<lambda>node. node \<noteq> null) t1 = Some t'"
  have "view (io (snd (uring_get_sqe env t))) = view (io t)\<lparr>v_free := v_free (view (io t)) - 1\<rparr>"
    using laws unfolding ring_laws_def by blast
  with g have v: "view (io t1) = view (io t)\<lparr>v_free := v_free (view (io t)) - 1\<rparr>" by simp
  from pa obtain nx hs where "t' = t1\<lparr>op_next := nx, stopping_map := hs\<rparr>"
    by (auto simp: stopping_push_all_def)
  with t v show "same_but_stopping view s0 t'"
    by (simp add: same_but_stopping_def only_io_op_exec [OF o1])
next
  fix p t e t1 t2
  assume t: "same_but_stopping view s0 t" and g: "uring_get_sqe (with_vtables spawn env) t = (e, t1)"
    and o2: "only_io t t2" and t2: "t2 = uring_prep_cancel (with_vtables spawn env) e p 0
      (uring_sqe_set_data (with_vtables spawn env) e (noop (with_vtables spawn env)) t1)"
  have "view (io (snd (uring_get_sqe env t))) = view (io t)\<lparr>v_free := v_free (view (io t)) - 1\<rparr>"
    using laws unfolding ring_laws_def by blast
  with g have v: "view (io t1) = view (io t)\<lparr>v_free := v_free (view (io t)) - 1\<rparr>" by simp
  have "v_ready (view (io t2)) = v_ready (view (io t1)) \<and> v_pend (view (io t2)) = v_pend (view (io t1))"
    using laws unfolding ring_laws_def t2 by simp
  with t v show "same_but_stopping view s0
      (t2\<lparr>local_inflight := local_inflight t2 + 1, op_next := iq_clear p (op_next t2)\<rparr>)"
    by (simp add: same_but_stopping_def only_io_op_exec [OF o2])
qed

lemma cancel_phase_system:
  fixes s :: "'k op_exec"
  assumes laws: "ring_laws env view" and hold: "stopping_holds zss s" and nb: "\<not> blocking policy"
  defines "i \<equiv> robin_bucket (walltime_step s)" and "n \<equiv> v_free (view (io s))"
  shows "\<exists>s'. cancel_phase policy (with_vtables spawn env) s = Some s' \<and> same_but_stopping view s s'
    \<and> v_canc (view (io s')) = v_canc (view (io s)) @ take n (zss ! i)
    \<and> local_inflight s' = local_inflight s + of_nat (length (take n (zss ! i)))
    \<and> stopping_holds (zss[i := drop n (zss ! i)]) s'"
proof -
  let ?s = "s\<lparr>stopping_map := (stopping_map s)[i := null]\<rparr>" let ?env = "with_vtables spawn env"
  have i: "i < 16" by (simp add: i_def)
  have mh: "map_holds (op_next s, stopping_map s) zss" using hold by (simp add: stopping_holds_def)
  then have len: "length (stopping_map s) = 16" "length zss = 16" and dist: "distinct (concat zss)"
    and ch: "chain (op_next s) (stopping_map s ! i) (zss ! i)" using i by (auto simp: map_holds_def)
  have sup: "sq_supply ?env (\<lambda>k. v_free (view k)) (\<lambda>k. v_canc (view k))"
    using ring_laws_supply [OF laws] by (simp add: sq_supply_def)
  have eq: "cancel_phase policy ?env s = cancel_loop ?env i (stopping_map s ! i) ?s"
    using nb by (simp add: cancel_phase_def i_def bucket_move_all_def iq_move_all_def Let_def)
  from cancel_loop_hands_over [OF sup, of ?s "stopping_map s ! i" "zss ! i" i] ch i len
  obtain s' where s': "cancel_phase policy ?env s = Some s'"
    "v_canc (view (io s')) = v_canc (view (io s)) @ take n (zss ! i)"
    "chain (op_next s') (stopping_map s' ! i) (drop n (zss ! i))"
    "local_inflight s' = local_inflight s + of_nat (min n (length (zss ! i)))"
    "\<forall>j. j \<noteq> i \<longrightarrow> stopping_map s' ! j = stopping_map s ! j" "length (stopping_map s') = 16"
    "\<forall>a. a \<notin> set (zss ! i) \<longrightarrow> op_next s' a = op_next s a"
    "\<forall>a \<in> set (take n (zss ! i)). op_next s' a = null"
    unfolding eq n_def by auto
  have "same_but_stopping view s ?s" by (simp add: same_but_stopping_def)
  from cancel_loop_same [OF laws s'(1) [unfolded eq] this] have same: "same_but_stopping view s s'" .
  let ?zss = "zss[i := drop n (zss ! i)]"
  have map: "stopping_map s' = (stopping_map s)[i := stopping_map s' ! i]"
    by (rule nth_equalityI) (use s'(5,6) i len in \<open>auto simp: nth_list_update\<close>)
  have "stopping_holds ?zss s'"
  proof (rule stopping_holds_replace [OF hold i s'(3) _ _ _ map])
    show "set (drop n (zss ! i)) \<subseteq> set (zss ! i)" by (rule set_drop_subset)
    show "op_next s' a = null" if "a \<in> set (zss ! i)" "a \<notin> set (drop n (zss ! i))" for a
      using that s'(8) by (metis Un_iff append_take_drop_id set_append)
  qed (use s'(7) same in \<open>auto simp: same_but_stopping_def\<close>)
  moreover have "length (take n (zss ! i)) = min n (length (zss ! i))" by simp
  ultimately show ?thesis using s'(1,2,4) same by (intro exI [of _ s']) (simp only: simp_thms min.commute)
qed

section \<open>A step of the whole system\<close>

definition system_holds :: "'k op_exec run_env \<Rightarrow> ('k \<Rightarrow> ring_view) \<Rightarrow> addr list \<Rightarrow> addr list list
    \<Rightarrow> 'k op_exec \<Rightarrow> bool" where
  "system_holds env view as xss s \<longleftrightarrow> tasks_hold (stack_sentinel env) as xss s
     \<and> operations_hold (noop env) (view (io s)) (set as \<union> set (concat xss)) s"

lemma stopping_holds_restrict:
  assumes "stopping_holds zss s" "op_next t = op_next s" "stopping_map t = stopping_map s" "ops t = ops s |` A"
  shows "stopping_holds zss t"
proof -
  have "dom (ops t) \<subseteq> dom (ops s)" unfolding assms(4) dom_restrict by blast
  moreover have "ops s null = None \<longrightarrow> ops t null = None" by (simp add: assms(4) restrict_map_def)
  moreover note assms(1)
  ultimately show ?thesis unfolding stopping_holds_def assms(2,3) by blast
qed

lemma operations_after_launch:
  assumes "launched_from z (set ts) s t" "view (io t) = view (io s)" "set ts \<union> rest_ts \<subseteq> all_ts"
    and "operations_hold nop (view (io s)) all_ts s"
  shows "operations_hold nop (view (io t)) rest_ts t"
proof -
  from assms(4) obtain zss where "stopping_holds zss s" by (auto simp: operations_hold_def)
  moreover have "op_next t = op_next s" "stopping_map t = stopping_map s" "ops t = ops s |` (- set ts)"
    using assms(1) by (simp_all add: launched_from_def)
  ultimately have "stopping_holds zss t" by (rule stopping_holds_restrict)
  moreover have dom: "dom (ops t) = dom (ops s) \<inter> - set ts" using assms(1) by (simp add: launched_from_def)
  have "v_pend (view (io s)) \<subseteq> dom (ops s) - all_ts" "ring_state nop (view (io s))"
    using assms(4) by (simp_all add: operations_hold_def)
  then have "v_pend (view (io s)) \<subseteq> dom (ops t) - rest_ts" "ring_state nop (view (io s))"
    using assms(3) unfolding dom by blast+
  ultimately show ?thesis unfolding operations_hold_def assms(2) by blast
qed

lemma submit_system:
  assumes laws: "ring_laws env view" and "submit_phase policy (with_vtables spawn env) s = (n, t)"
  shows "only_io s t" "arrivals (noop env) (view (io s)) (view (io t))"
proof -
  have refl: "arrivals (noop env) v v" for v by (simp add: arrivals_def)
  have "only_io s (snd (submit_phase policy (with_vtables spawn env) s))"
    by (rule submit_phase_only_io) (use laws in \<open>simp add: ring_laws_def library_calls_only_io_def\<close>)
  moreover have "arrivals (noop env) (view (io s)) (view (io (snd (submit_phase policy (with_vtables spawn env) s))))"
    using laws refl unfolding ring_laws_def submit_phase_def by (simp add: split_beta)
  ultimately show "only_io s t" "arrivals (noop env) (view (io s)) (view (io t))"
    using assms(2) by simp_all
qed

text \<open>A step destroys the objects it signalled (\<open>gone\<close>) and leaves the others and the step counter alone.\<close>

definition step_frame :: "addr set \<Rightarrow> 'k op_exec \<Rightarrow> 'k op_exec \<Rightarrow> bool" where
  "step_frame gone s s' \<longleftrightarrow> gone \<subseteq> dom (ops s) \<and> ops s' = ops s |` (- gone)
     \<and> stop_token s' = stop_token s \<and> walltime_step s' = walltime_step s"

text \<open>The tasks of a step and those that stay are the tasks there were.\<close>

lemma step_tasks_within:
  assumes th: "tasks_hold sentinel as xss s" and "i < 16" "j < 16"
  shows "set (step_tasks policy as xss i j) \<union> set (concat (xss[i := [], j := []])) \<subseteq> set as \<union> set (concat xss)"
proof -
  have len: "length xss = 16" and dx: "distinct (concat xss)" using th by (auto simp: tasks_hold_def map_holds_def)
  have si: "set (xss ! i) \<subseteq> set (concat xss)"
    using assms(2) len by (auto simp: set_concat_nth simp del: set_concat)
  have cl: "set (concat (xss[i := []])) = set (concat xss) - set (xss ! i)"
    using set_concat_clear [OF dx] assms(2) len by simp
  have dy: "distinct (concat (xss[i := []]))"
    using assms(2) len dx by (intro distinct_concat_update) auto
  have "set (concat (xss[i := [], j := []])) = set (concat (xss[i := []])) - set (xss[i := []] ! j)"
    using set_concat_clear [OF dy, of j] assms(3) len by simp
  moreover have "set (xss[i := []] ! j) \<subseteq> set (concat (xss[i := []]))"
    using assms(3) len by (auto simp: set_concat_nth simp del: set_concat)
  ultimately show ?thesis
    using cl si unfolding step_tasks_def by (simp only: set_append launch_order_simps) blast
qed

lemma with_vtables_peek_bound:
  fixes t :: "'k op_exec"
  assumes laws: "ring_laws env view"
  shows "length (fst (uring_peek_batch_cqe (with_vtables spawn env) (ucast (n :: size_t)) t)) \<le> unat n"
proof -
  obtain cs t' where pk: "uring_peek_batch_cqe env (ucast n) t = (cs, t')" by force
  from peek_system [OF laws pk] have "length cs \<le> unat (ucast n :: u32)" by metis
  also have "\<dots> \<le> unat n" by (simp add: unsigned_ucast_eq take_bit_nat_less_eq_self)
  finally show ?thesis by (simp add: pk)
qed

text \<open>Handing over the cancel requests keeps what the reaping left.\<close>

lemma holds_after_cancel:
  assumes same: "same_but_stopping view s3 s4" and oh: "operations_hold sentinel (view (io s3)) kept s3"
    and zss: "stopping_holds zss s4"
  shows "operations_hold sentinel (view (io s4)) kept s4"
proof -
  have v4: "v_ready (view (io s4)) = v_ready (view (io s3))" "v_pend (view (io s4)) = v_pend (view (io s3))"
    "ops s4 = ops s3" using same by (simp_all add: same_but_stopping_def)
  have "ring_state sentinel (view (io s4))" "v_pend (view (io s4)) \<subseteq> dom (ops s4) - kept"
    using oh unfolding operations_hold_def ring_state_def v4 by blast+
  with zss show ?thesis unfolding operations_hold_def by blast
qed

lemma tasks_after_reaping:
  fixes s2 s4 :: "'k op_exec"
  assumes th: "tasks_hold sentinel [] xss s2" and dom: "dom (ops s4) = dom (ops s2) - gone"
    and gone: "gone \<inter> set (concat xss) = {}"
    and fields: "task_next s4 = task_next s2" "attached_queue s4 = attached_queue s2" "immediate_map s4 = immediate_map s2"
  shows "tasks_hold sentinel [] xss s4"
proof -
  have "set (concat xss) \<subseteq> dom (ops s2)" using th by (simp add: tasks_hold_def del: set_concat)
  then have "set (concat xss) \<subseteq> dom (ops s4)" using gone unfolding dom by blast
  with th show ?thesis by (simp add: tasks_hold_def fields del: set_concat)
qed

text \<open>The phases from submission to cancellation, on a state in which the tasks have been launched.\<close>

lemma reap_and_cancel_system:
  fixes s1 :: "'k op_exec"
  assumes laws: "ring_laws env view" and oh1: "operations_hold (noop env) (view (io s1)) kept s1"
    and pol: "\<not> transfer policy" "\<not> terminal policy" "\<not> blocking policy"
    and size: "unat (iodone_maxnr policy) + unat (iodone_batch policy) < 2 ^ 32"
  obtains n s2 s3 s4 cqes new arrived canc where "submit_phase policy (with_vtables spawn env) s1 = (n, s2)"
    "iodone_loop policy (with_vtables spawn env) 0 s2 = Some (of_nat (length cqes), s3)"
    "cancel_phase policy (with_vtables spawn env) s3 = Some s4" "only_io s1 s2"
    "completed_from (noop env) kept cqes s2 s3" "same_but_stopping view s3 s4"
    "operations_hold (noop env) (view (io s4)) kept s4"
    "v_ready (view (io s1)) @ (new @ arrived) = cqes @ v_ready (view (io s4))"
    "v_canc (view (io s4)) = v_canc (view (io s1)) @ canc" "local_inflight s4 = local_inflight s3 + of_nat (length canc)"
proof -
  let ?env = "with_vtables spawn env"
  obtain n s2 where sub: "submit_phase policy ?env s1 = (n, s2)" by force
  note sb = submit_system [OF laws sub]
  note oh2 = arrivals_hold [where view = view, OF sb(2,1) oh1]
  have peek: "length (fst (uring_peek_batch_cqe ?env (ucast (iodone_batch policy)) t)) \<le> unat (iodone_batch policy)"
    for t :: "'k op_exec" by (rule with_vtables_peek_bound [OF laws])
  from iodone_loop_bounded [OF pol(1,2) size peek, of 0 s2] obtain d s3 where
    io: "iodone_loop policy ?env 0 s2 = Some (d, s3)" by auto
  from reaping_system [OF laws oh2 pol(1) io] obtain cqes arrived where
    rp: "d = of_nat (length cqes)" "completed_from (noop env) kept cqes s2 s3"
      "operations_hold (noop env) (view (io s3)) kept s3"
      "v_ready (view (io s2)) @ arrived = cqes @ v_ready (view (io s3))"
      "v_canc (view (io s3)) = v_canc (view (io s2))" by blast
  from rp(3) obtain zss where zss: "stopping_holds zss s3" by (auto simp: operations_hold_def)
  from cancel_phase_system [OF laws zss pol(3), of spawn] obtain s4 canc zss' where
    cp: "cancel_phase policy ?env s3 = Some s4" "same_but_stopping view s3 s4"
      "v_canc (view (io s4)) = v_canc (view (io s3)) @ canc"
      "local_inflight s4 = local_inflight s3 + of_nat (length canc)" "stopping_holds zss' s4" by blast
  from sb(2) obtain new where new: "v_ready (view (io s2)) = v_ready (view (io s1)) @ new"
    "v_canc (view (io s2)) = v_canc (view (io s1))" by (auto simp: arrivals_def)
  have "v_ready (view (io s1)) @ (new @ arrived) = cqes @ v_ready (view (io s4))"
    using rp(4) new(1) cp(2) by (simp add: same_but_stopping_def)
  moreover have "v_canc (view (io s4)) = v_canc (view (io s1)) @ canc" using cp(3) rp(5) new(2) by simp
  ultimately show ?thesis
    using that [of n s2 cqes s3 s4 new arrived canc] sub io rp(1,2) cp(1,2,4) sb(1) holds_after_cancel [OF cp(2) rp(3) cp(5)]
    by simp
qed

text \<open>The parts of a step put together: launching \<open>ts\<close>, submitting, completing \<open>cqes\<close>, cancelling.\<close>

lemma step_joined:
  fixes s s1 s2 s3 s4 :: "'k op_exec"
  assumes launched: "launched_from z (set ts) s s1" "signals s1 = signals s @ map (\<lambda>t. (t, task_signal s t)) ts" "distinct ts"
    and alive: "set ts \<subseteq> dom (ops s)" and submitted: "only_io s1 s2"
    and completed: "completed_from nop kept cqes s2 s3" and cancelled: "same_but_stopping view s3 s4"
  defines "real \<equiv> filter (\<lambda>c. fst c \<noteq> nop) cqes"
  shows "signals s4 = signals s @ map (\<lambda>t. (t, task_signal s t)) ts @ map (\<lambda>c. (fst c, op_signal s c)) real"
    and "distinct (ts @ map fst real)" and "step_frame (set ts \<union> fst ` set real) s s4"
    and "local_inflight s3 = local_inflight s - of_nat (length cqes)"
proof -
  note io = only_io_op_exec [OF submitted]
  have co: "signals s3 = signals s2 @ map (\<lambda>c. (fst c, op_signal s2 c)) real" "distinct (map fst real)"
    "fst ` set real \<subseteq> dom (ops s2) - kept" "local_inflight s3 = local_inflight s2 - of_nat (length cqes)"
    "ops s3 = ops s2 |` (- fst ` set real)" "stop_token s3 = stop_token s2" "walltime_step s3 = walltime_step s2"
    using completed unfolding completed_from_def Let_def real_def by blast+
  have "dom (ops s2) = dom (ops s) - set ts" using launched(1) io(2) by (simp add: launched_from_def Diff_eq)
  with co(3) have nts: "fst c \<notin> set ts" if "c \<in> set real" for c using that by blast
  have "op_signal s2 c = op_signal s c" if "c \<in> set real" for c
    using io(11) [of c] launched_from_others(2) [OF launched(1) nts [OF that]] by simp
  then have "map (\<lambda>c. (fst c, op_signal s2 c)) real = map (\<lambda>c. (fst c, op_signal s c)) real"
    by (intro map_cong refl) simp
  with co(1) cancelled launched(2) io(1)
  show "signals s4 = signals s @ map (\<lambda>t. (t, task_signal s t)) ts @ map (\<lambda>c. (fst c, op_signal s c)) real"
    by (simp add: same_but_stopping_def)
  show "distinct (ts @ map fst real)" using launched(3) co(2) nts by (auto simp: disjoint_iff)
  have "ops s4 = ops s |` (- (set ts \<union> fst ` set real))"
    using cancelled co(5) io(2) launched(1)
    by (simp add: same_but_stopping_def launched_from_def restrict_restrict Compl_Un)
  moreover have "stop_token s4 = stop_token s" "walltime_step s4 = walltime_step s"
    using cancelled co(6,7) io(3,7) launched(1) by (simp_all add: same_but_stopping_def launched_from_def)
  moreover have "set ts \<union> fst ` set real \<subseteq> dom (ops s)"
    using alive co(3) \<open>dom (ops s2) = _\<close> by blast
  ultimately show "step_frame (set ts \<union> fst ` set real) s s4" by (simp add: step_frame_def)
  show "local_inflight s3 = local_inflight s - of_nat (length cqes)"
    using co(4) io(8) launched(1) by (simp add: launched_from_def)
qed

lemma run_step_system:
  fixes s :: "'k op_exec"
  assumes laws: "ring_laws env view" and hold: "system_holds env view as xss s"
    and pol: "p_launch policy" "p_iodone policy" "\<not> transfer policy" "\<not> terminal policy" "\<not> blocking policy"
    and size: "unat (iodone_maxnr policy) + unat (iodone_batch policy) < 2 ^ 32"
  defines "i \<equiv> robin_bucket (walltime_step s)"
  shows "\<exists>info s' j cqes arrived. run_step policy (with_vtables spawn env) s = Some (info, s') \<and> j < 16
    \<and> (let ts = step_tasks policy as xss i j; real = filter (\<lambda>c. fst c \<noteq> noop env) cqes in
        signals s' = signals s @ map (\<lambda>t. (t, task_signal s t)) ts @ map (\<lambda>c. (fst c, op_signal s c)) real
      \<and> distinct (ts @ map fst real) \<and> launched info = of_nat (length ts))
    \<and> v_ready (view (io s)) @ arrived = cqes @ v_ready (view (io s')) \<and> reaped info = of_nat (length cqes)
    \<and> (\<exists>canc. v_canc (view (io s')) = v_canc (view (io s)) @ canc
        \<and> local_inflight s' = local_inflight s - of_nat (length cqes) + of_nat (length canc))
    \<and> system_holds env view [] (xss[i := [], j := []]) s'
    \<and> step_frame (set (step_tasks policy as xss i j) \<union> fst ` set (filter (\<lambda>c. fst c \<noteq> noop env) cqes)) s s'"
proof -
  let ?env = "with_vtables spawn env" let ?all = "set as \<union> set (concat xss)"
  have th: "tasks_hold (stack_sentinel env) as xss s" and oh: "operations_hold (noop env) (view (io s)) ?all s"
    using hold by (simp_all add: system_holds_def)
  from launch_phase_system [OF laws th pol(1,3,4), of spawn] obtain s1 j where j: "j < 16"
    and s1: "launch_phase policy ?env s = Some (of_nat (length (step_tasks policy as xss i j)), s1)"
      "signals s1 = signals s @ map (\<lambda>t. (t, task_signal s t)) (step_tasks policy as xss i j)"
      "distinct (step_tasks policy as xss i j)"
      "launched_from (stack_sentinel env) (set (step_tasks policy as xss i j)) s s1"
      "view (io s1) = view (io s)" "tasks_hold (stack_sentinel env) [] (xss[i := [], j := []]) s1"
    unfolding i_def by blast
  define ts where "ts = step_tasks policy as xss i j"
  note s1 = s1 [folded ts_def]
  let ?rest = "set (concat (xss[i := [], j := []]))"
  have rest: "set ts \<union> ?rest \<subseteq> ?all"
    unfolding ts_def by (rule step_tasks_within [OF th _ j]) (simp add: i_def)
  from operations_after_launch [OF s1(4,5) rest oh] have oh1: "operations_hold (noop env) (view (io s1)) ?rest s1" .
  obtain n s2 s3 s4 cqes new arrived canc where sub: "submit_phase policy ?env s1 = (n, s2)"
    and io: "iodone_loop policy ?env 0 s2 = Some (of_nat (length cqes), s3)" and cp: "cancel_phase policy ?env s3 = Some s4"
    and sb: "only_io s1 s2" and rp: "completed_from (noop env) ?rest cqes s2 s3" and same: "same_but_stopping view s3 s4"
    and oh4: "operations_hold (noop env) (view (io s4)) ?rest s4"
    and ready: "v_ready (view (io s1)) @ (new @ arrived) = cqes @ v_ready (view (io s4))"
    and canc: "v_canc (view (io s4)) = v_canc (view (io s1)) @ canc"
    and infl4: "local_inflight s4 = local_inflight s3 + of_nat (length canc)"
    by (rule reap_and_cancel_system [OF laws oh1 pol(3-5) size])
  let ?real = "filter (\<lambda>c. fst c \<noteq> noop env) cqes"
  have "set ts \<subseteq> dom (ops s)" using rest th by (auto simp: tasks_hold_def simp del: set_concat)
  note joined = step_joined [OF s1(4,2,3) this sb rp same]
  have run: "run_step policy ?env s = Some (\<lparr>loop_step = 0, launched = of_nat (length ts), submitted = n,
      reaped = of_nat (length cqes)\<rparr>, s4)"
    using s1(1) sub io cp pol(2) by (simp add: run_step_def iodone_phase_def)
  have co: "fst ` set ?real \<subseteq> dom (ops s2) - ?rest" "ops s3 = ops s2 |` (- fst ` set ?real)"
    "task_next s3 = task_next s2" "attached_queue s3 = attached_queue s2" "immediate_map s3 = immediate_map s2"
    using rp unfolding completed_from_def Let_def by blast+
  have "tasks_hold (stack_sentinel env) [] (xss[i := [], j := []]) s4"
  proof (rule tasks_after_reaping)
    show "tasks_hold (stack_sentinel env) [] (xss[i := [], j := []]) s2" using s1(6) tasks_hold_only_io [OF sb] by simp
    show "fst ` set ?real \<inter> ?rest = {}" using co(1) by blast
  qed (use same co(2-5) in \<open>simp_all add: same_but_stopping_def Diff_eq\<close>)
  with oh4 have sys: "system_holds env view [] (xss[i := [], j := []]) s4" by (simp add: system_holds_def)
  have "\<exists>canc. v_canc (view (io s4)) = v_canc (view (io s)) @ canc
      \<and> local_inflight s4 = local_inflight s - of_nat (length cqes) + of_nat (length canc)"
    using canc infl4 joined(4) by (auto simp: s1(5))
  with run j joined(1-3) ready [unfolded s1(5)] sys show ?thesis
    unfolding ts_def
    by (intro exI [of _ "\<lparr>loop_step = 0, launched = of_nat (length (step_tasks policy as xss i j)),
        submitted = n, reaped = of_nat (length cqes)\<rparr>"] exI [of _ s4] exI [of _ j] exI [of _ cqes]
        exI [of _ "new @ arrived"] conjI) (simp_all only: Let_def run_progress_info.simps simp_thms)
qed


text \<open>A context with a queued task, an operation whose completion has arrived, and a completion of \<open>noop\<close>.\<close>

definition sample_system_env :: "ring_view op_exec run_env" where
  "sample_system_env =
     \<lparr>task_complete = (\<lambda>op s. s), task_cancel = (\<lambda>op s. s), op_complete = (\<lambda>op res s. s),
      op_restart = (\<lambda>op s. s), noop = 1, stack_sentinel = 2, mt_random = (\<lambda>s. (3, s)),
      uring_submit = (\<lambda>s. (0, s)), uring_submit_and_wait = (\<lambda>n s. (0, s)),
      uring_peek_batch_cqe = (\<lambda>n s. (take (unat n) (v_ready (io s)), s)),
      uring_cq_advance = (\<lambda>n. upd_io (\<lambda>v. v\<lparr>v_ready := drop (unat n) (v_ready v),
        v_pend := v_pend v - fst ` set (take (unat n) (v_ready v))\<rparr>)),
      uring_get_sqe = (\<lambda>s. (if v_free (io s) = 0 then null else 64,
        upd_io (\<lambda>v. v\<lparr>v_free := v_free v - 1\<rparr>) s)),
      uring_sqe_set_data = (\<lambda>e d s. s),
      uring_prep_cancel = (\<lambda>e op f. upd_io (\<lambda>v. v\<lparr>v_canc := v_canc v @ [op]\<rparr>)),
      ASYNC_CANCEL_ANY = 4, thread_yield = (\<lambda>s. s), external_stop_requested = (\<lambda>s. False)\<rparr>"

definition sample_system :: "ring_view op_exec" where
  "sample_system = \<lparr>task_next = (\<lambda>_. 0), op_next = (\<lambda>_. 0), attached_queue = 48,
     immediate_map = replicate 16 0, stopping_map = replicate 16 0, store_balance = 0,
     local_inflight = 1, running_local = 1, walltime_step = 5,
     runloop_must_have_stopped = False, remote_stop_requested = False,
     io = \<lparr>v_ready = [(32, 5), (1, 0)], v_pend = {32}, v_free = 8, v_canc = []\<rparr>,
     ops = (\<lambda>_. None)(32 \<mapsto> \<lparr>is_timer = False, unstoppable = False, stop_callback = True\<rparr>,
        48 \<mapsto> \<lparr>is_timer = False, unstoppable = True, stop_callback = False\<rparr>),
     stop_token = (\<lambda>_. False), signals = []\<rparr>"

lemma sample_ring_laws: "ring_laws sample_system_env id"
  unfolding ring_laws_def
proof (intro conjI allI)
  show "library_calls_only_io sample_system_env"
    by (simp add: library_calls_only_io_def sample_system_env_def)
qed (simp_all add: sample_system_env_def arrivals_def upd_io_def)

lemma sample_system_holds: "system_holds sample_system_env id [48] (replicate 16 []) sample_system"
proof -
  have stop: "stopping_holds (replicate 16 []) sample_system"
    using map_holds_empty [of "\<lambda>_. 0"] by (simp add: stopping_holds_def sample_system_def)
  have "tasks_hold 2 [48] (replicate 16 []) sample_system"
    using map_holds_empty [of "\<lambda>_. 0"] by (simp add: tasks_hold_def sample_system_def)
  then show ?thesis
    using stop by (auto simp: system_holds_def operations_hold_def ring_state_def)
      (simp_all add: sample_system_env_def sample_system_def)
qed

lemma default_policy_steps:
  "p_launch default_policy" "p_iodone default_policy" "\<not> transfer default_policy"
  "\<not> terminal default_policy" "\<not> blocking default_policy"
  "unat (iodone_maxnr default_policy) + unat (iodone_batch default_policy) < 2 ^ 32"
  by (simp_all add: default_policy_def)


end
