(* ===== verification/SystemRuns.thy ===== *)
theory SystemRuns
  imports System
begin

text \<open>
  Runs of the whole system (\<open>System\<close>): the loop of \<open>io_uring_exec_run::run\<close> as long as nothing stops
  it, one step after the other with the step counter between them, and what every task can rely on.
\<close>

section \<open>Consecutive steps\<close>

fun loop_steps :: "nat \<Rightarrow> run_policy \<Rightarrow> ('k, 'z) exec_scheme run_env \<Rightarrow> ('k, 'z) exec_scheme
    \<Rightarrow> ('k, 'z) exec_scheme option" where
  "loop_steps 0 policy env s = Some s"
| "loop_steps (Suc n) policy env s = Option.bind (loop_steps n policy env s)
     (\<lambda>s1. map_option (\<lambda>(info, s2). s2\<lparr>walltime_step := walltime_step s2 + 1\<rparr>) (run_step policy env s1))"

text \<open>The round robin reaches every bucket within 16 steps.\<close>

lemma robin_reaches:
  assumes "k < 16" shows "\<exists>p < 16. robin_bucket (b + of_nat p) = k"
proof (intro exI conjI)
  show "robin_bucket (b + of_nat ((k + 16 - robin_bucket b) mod 16)) = k"
    using mod_16_reach [OF bucket_bounds(2) assms] by (simp only: robin_bucket_add)
qed simp

section \<open>Every task is launched within 16 steps\<close>

text \<open>After \<open>n\<close> steps: \<open>as\<close> and \<open>xss\<close> were queued at the start, in state \<open>s\<close>; the signals \<open>others\<close>
  were sent since, and \<open>as'\<close> and \<open>xss'\<close> are still queued.\<close>

definition after_steps :: "('k op_exec run_env) \<Rightarrow> ('k \<Rightarrow> ring_view) \<Rightarrow> addr set \<Rightarrow> nat \<Rightarrow> 'k op_exec
    \<Rightarrow> addr list \<Rightarrow> addr list list \<Rightarrow> (addr \<times> signal) list \<Rightarrow> 'k op_exec \<Rightarrow> bool" where
  "after_steps env view queued n s as' xss' others t \<longleftrightarrow> system_holds env view as' xss' t
     \<and> signals t = signals s @ others \<and> distinct (map fst others) \<and> fst ` set others \<inter> dom (ops t) = {}
     \<and> walltime_step t = walltime_step s + of_nat n
     \<and> (\<forall>a \<in> dom (ops t). task_signal t a = task_signal s a)
     \<and> (\<forall>a \<in> queued. (a, task_signal s a) \<in> set others \<or> a \<in> set as' \<union> set (concat xss'))
     \<and> (0 < n \<longrightarrow> as' = []) \<and> (\<forall>k < n. xss' ! robin_bucket (walltime_step s + of_nat k) = [])"

lemma after_steps_0:
  "system_holds env view as xss s \<Longrightarrow> after_steps env view (set as \<union> set (concat xss)) 0 s as xss [] s"
  by (simp add: after_steps_def)

lemma system_holds_counter [simp]:
  "system_holds env view as xss (s\<lparr>walltime_step := w\<rparr>) = system_holds env view as xss s"
  by (simp add: system_holds_def tasks_hold_def operations_hold_def stopping_holds_def)

lemma system_holds_alive:
  "system_holds env view as xss s \<Longrightarrow> set as \<union> set (concat xss) \<subseteq> dom (ops s)"
  unfolding system_holds_def tasks_hold_def by blast

lemma system_holds_buckets: "system_holds env view as xss s \<Longrightarrow> length xss = 16 \<and> distinct (concat xss)"
  by (simp add: system_holds_def tasks_hold_def map_holds_def)

lemma step_tasks_set:
  "set (step_tasks policy as xss i j) = set as \<union> set (xss ! i) \<union> set (xss[i := []] ! j)"
  by (auto simp: step_tasks_def)

lemma step_frame_signal:
  "step_frame gone s t \<Longrightarrow> a \<in> dom (ops t) \<Longrightarrow> task_signal t a = task_signal s a"
  by (auto simp: step_frame_def task_signal_def restrict_map_def split: if_splits)

lemma queued_after_step:
  assumes "length xss = 16" "distinct (concat xss)" "i < 16" "j < 16"
    and "a \<in> set as \<union> set (concat xss)" "a \<notin> set (step_tasks policy as xss i j)"
  shows "a \<in> set (concat (xss[i := [], j := []]))"
proof -
  have "distinct (concat (xss[i := []]))"
    using assms(1-3) by (intro distinct_concat_update) auto
  with assms have "set (concat (xss[i := [], j := []])) = set (concat xss) - set (xss ! i) - set (xss[i := []] ! j)"
    using set_concat_clear [of xss i] set_concat_clear [of "xss[i := []]" j] by simp
  with assms(5,6) show ?thesis unfolding step_tasks_set by blast
qed

lemma map_fst_pair [simp]: "map fst (map (\<lambda>x. (f x, g x)) xs) = map f xs"
  by simp

text \<open>One step, with the signals \<open>new\<close> that it sends.\<close>

lemma run_step_news:
  fixes t :: "'k op_exec"
  assumes laws: "ring_laws env view" and hold: "system_holds env view as xss t"
    and pol: "p_launch policy" "p_iodone policy" "\<not> transfer policy" "\<not> terminal policy" "\<not> blocking policy"
    and size: "unat (iodone_maxnr policy) + unat (iodone_batch policy) < 2 ^ 32"
  defines "i \<equiv> robin_bucket (walltime_step t)"
  obtains info u j new where "run_step policy (with_vtables spawn env) t = Some (info, u)" "j < 16"
    "signals u = signals t @ new" "distinct (map fst new)" "system_holds env view [] (xss[i := [], j := []]) u"
    "step_frame (fst ` set new) t u" "\<forall>a \<in> set (step_tasks policy as xss i j). (a, task_signal t a) \<in> set new"
proof -
  from run_step_system [OF laws hold pol size, of spawn, folded i_def] obtain info u j cqes where
    run: "run_step policy (with_vtables spawn env) t = Some (info, u)" and j: "j < 16"
    and sig: "signals u = signals t @ map (\<lambda>a. (a, task_signal t a)) (step_tasks policy as xss i j)
      @ map (\<lambda>c. (fst c, op_signal t c)) (filter (\<lambda>c. fst c \<noteq> noop env) cqes)"
    and dist: "distinct (step_tasks policy as xss i j @ map fst (filter (\<lambda>c. fst c \<noteq> noop env) cqes))"
    and sys: "system_holds env view [] (xss[i := [], j := []]) u"
    and frame: "step_frame (set (step_tasks policy as xss i j) \<union> fst ` set (filter (\<lambda>c. fst c \<noteq> noop env) cqes)) t u"
    unfolding Let_def by blast
  define new where "new = map (\<lambda>a. (a, task_signal t a)) (step_tasks policy as xss i j)
      @ map (\<lambda>c. (fst c, op_signal t c)) (filter (\<lambda>c. fst c \<noteq> noop env) cqes)"
  have "fst ` set new = set (step_tasks policy as xss i j) \<union> fst ` set (filter (\<lambda>c. fst c \<noteq> noop env) cqes)"
    by (simp add: new_def image_Un image_image)
  moreover have "distinct (map fst new)" using dist by (simp add: new_def comp_def)
  ultimately show thesis
    using that [of info u j new] run j sig sys frame by (simp add: new_def)
qed

lemma after_steps_Suc:
  assumes st: "after_steps env view queued n s as xss others t"
    and j: "j < 16" and sig: "signals u = signals t @ new" and dn: "distinct (map fst new)"
    and frame: "step_frame (fst ` set new) t u" and sys': "system_holds env view [] (xss[i := [], j := []]) u"
    and sent: "\<forall>a \<in> set (step_tasks policy as xss i j). (a, task_signal t a) \<in> set new"
    and i: "i = robin_bucket (walltime_step t)"
  shows "after_steps env view queued (Suc n) s [] (xss[i := [], j := []]) (others @ new) (u\<lparr>walltime_step := walltime_step u + 1\<rparr>)"
    (is "after_steps _ _ _ _ _ _ ?xss _ ?u")
proof -
  have sys: "system_holds env view as xss t" and sg: "signals t = signals s @ others" "distinct (map fst others)"
    and gone: "fst ` set others \<inter> dom (ops t) = {}" and wt: "walltime_step t = walltime_step s + of_nat n"
    and same: "\<forall>a \<in> dom (ops t). task_signal t a = task_signal s a"
    and q: "\<forall>a \<in> queued. (a, task_signal s a) \<in> set others \<or> a \<in> set as \<union> set (concat xss)"
    and clear: "\<forall>k < n. xss ! robin_bucket (walltime_step s + of_nat k) = []"
    using st unfolding after_steps_def by blast+
  have sub: "fst ` set new \<subseteq> dom (ops t)" "dom (ops u) = dom (ops t) - fst ` set new"
    using frame unfolding step_frame_def by (simp_all add: Diff_eq)
  have "distinct (map fst (others @ new))"
    using sg(2) dn gone sub(1) by (simp add: disjoint_iff) (metis (no_types, lifting) imageI subsetD)
  moreover have "fst ` set (others @ new) \<inter> dom (ops ?u) = {}"
    using gone sub(2) by (simp add: image_Un) blast
  moreover have "walltime_step ?u = walltime_step s + of_nat (Suc n)"
    using frame wt by (simp add: step_frame_def)
  moreover have "task_signal ?u a = task_signal s a" if "a \<in> dom (ops ?u)" for a
    using that sub(2) step_frame_signal [OF frame, of a] same by (simp add: task_signal_def)
  moreover have "(a, task_signal s a) \<in> set (others @ new) \<or> a \<in> set (concat ?xss)" if a: "a \<in> queued" for a
  proof (cases "(a, task_signal s a) \<in> set others")
    case False
    with q a have m: "a \<in> set as \<union> set (concat xss)" by blast
    then have "task_signal t a = task_signal s a" using system_holds_alive [OF sys] same by blast
    moreover have "a \<in> set (concat ?xss)" if "a \<notin> set (step_tasks policy as xss i j)"
      using queued_after_step [OF _ _ _ j m that] bucket_bounds(2) system_holds_buckets [OF sys] unfolding i by blast
    ultimately show ?thesis using sent by (metis UnCI set_append)
  qed simp
  moreover have "?xss ! robin_bucket (walltime_step s + of_nat k) = []" if "k < Suc n" for k
    using that clear wt j system_holds_buckets [OF sys] by (cases "k = n") (simp_all add: nth_list_update i)
  ultimately show ?thesis
    using sys' sig sg(1) unfolding after_steps_def by simp
qed

lemma after_step:
  fixes s t :: "'k op_exec"
  assumes laws: "ring_laws env view"
    and pol: "p_launch policy" "p_iodone policy" "\<not> transfer policy" "\<not> terminal policy" "\<not> blocking policy"
    and size: "unat (iodone_maxnr policy) + unat (iodone_batch policy) < 2 ^ 32"
    and st: "after_steps env view queued n s as' xss' others t"
  shows "\<exists>info u xss'' others'. run_step policy (with_vtables spawn env) t = Some (info, u)
    \<and> after_steps env view queued (Suc n) s [] xss'' others' (u\<lparr>walltime_step := walltime_step u + 1\<rparr>)"
proof -
  have "system_holds env view as' xss' t" using st by (simp add: after_steps_def)
  from run_step_news [OF laws this pol size, of spawn] after_steps_Suc [OF st] show ?thesis by metis
qed

lemma after_n_steps:
  fixes s :: "'k op_exec"
  assumes laws: "ring_laws env view" and hold: "system_holds env view as xss s"
    and pol: "p_launch policy" "p_iodone policy" "\<not> transfer policy" "\<not> terminal policy" "\<not> blocking policy"
    and size: "unat (iodone_maxnr policy) + unat (iodone_batch policy) < 2 ^ 32"
  shows "\<exists>t as' xss' others. loop_steps n policy (with_vtables spawn env) s = Some t
    \<and> after_steps env view (set as \<union> set (concat xss)) n s as' xss' others t"
proof (induction n)
  case 0
  from after_steps_0 [OF hold] show ?case by auto
next
  case (Suc n)
  then obtain t as' xss' others where t: "loop_steps n policy (with_vtables spawn env) s = Some t"
    "after_steps env view (set as \<union> set (concat xss)) n s as' xss' others t" by blast
  from after_step [OF laws pol size t(2), of spawn] t(1) show ?case by auto
qed



end
