(* ===== verification/SystemTypes.thy ===== *)
theory SystemTypes
  imports SystemRuns
begin

text \<open>
  The signatures of the senders and the signals of the running system: a sender declares which completion
  functions its operations may call, and with what; the loop, which erases the type of the receiver
  behind virtual functions, keeps to them.
\<close>

section \<open>Signatures\<close>

text \<open>What an object is: the operation of \<open>schedule()\<close>, or one made by \<open>make_uring_sender\<close>, whose type
  says whether it is a timer.\<close>

datatype op_kind = Schedule_kind | Uring_kind bool

text \<open>\<open>set_value_t\<close> with the number of its arguments, \<open>set_error_t(std::exception_ptr)\<close> and \<open>set_stopped_t()\<close>.\<close>

datatype signature = Set_value_t nat | Set_error_t | Set_stopped_t

definition schedule_signatures :: "signature set" where
  "schedule_signatures = {Set_value_t 0, Set_stopped_t}"

definition uring_signatures :: "signature set" where
  "uring_signatures = {Set_value_t 1, Set_error_t, Set_stopped_t}"

text \<open>A signal of the scheduler's operation carries no result; the model writes 0.\<close>

definition signature_of :: "op_kind \<Rightarrow> signal \<Rightarrow> signature" where
  "signature_of kind sig = (case sig of
     Set_value res \<Rightarrow> Set_value_t (if kind = Schedule_kind \<and> res = 0 then 0 else 1)
   | Set_stopped \<Rightarrow> Set_stopped_t
   | Set_error code \<Rightarrow> Set_error_t
   | Set_current_exception \<Rightarrow> Set_error_t)"

definition declared :: "op_kind \<Rightarrow> signature set" where
  "declared kind = (if kind = Schedule_kind then schedule_signatures else uring_signatures)"

text \<open>What the arguments mean: a value is a result, or for a timer the error number of its timeout; a
  \<open>system_error\<close> has a positive code, and is not the one that stands for being cancelled.\<close>

definition argument_ok :: "op_kind \<Rightarrow> signal \<Rightarrow> bool" where
  "argument_ok kind sig = (case sig of
     Set_value res \<Rightarrow> 0 \<le> res \<or> kind = Uring_kind True \<and> (res = - ETIME \<or> res = - ETIMEDOUT)
   | Set_error code \<Rightarrow> 0 < code \<and> code \<noteq> ECANCELED
   | _ \<Rightarrow> True)"

definition well_typed :: "op_kind \<Rightarrow> signal \<Rightarrow> bool" where
  "well_typed kind sig \<longleftrightarrow> signature_of kind sig \<in> declared kind \<and> argument_ok kind sig"

lemmas typing_defs = well_typed_def signature_of_def declared_def schedule_signatures_def
  uring_signatures_def argument_ok_def

lemma task_signal_typed [intro]: "well_typed Schedule_kind (task_signal s a)"
  by (simp add: typing_defs task_signal_def)

lemma op_signal_typed [intro]:
  "well_typed (Uring_kind (is_timer (the (ops s (fst c))))) (op_signal s c)"
  by (auto simp: typing_defs op_signal_def completion_signal_def)

section \<open>Typed states\<close>

text \<open>\<open>K\<close> assigns a kind to every address; it is right for the live objects (those queued are the
  scheduler's), and every signal sent so far is well typed for its receiver.\<close>

definition right_kind :: "addr set \<Rightarrow> 'k op_exec \<Rightarrow> addr \<Rightarrow> op_kind" where
  "right_kind queued s a = (if a \<in> queued then Schedule_kind else Uring_kind (is_timer (the (ops s a))))"

definition typed_system :: "(addr \<Rightarrow> op_kind) \<Rightarrow> addr set \<Rightarrow> 'k op_exec \<Rightarrow> bool" where
  "typed_system K queued s \<longleftrightarrow> (\<forall>a \<in> dom (ops s). K a = right_kind queued s a)
     \<and> (\<forall>(a, sig) \<in> set (signals s). well_typed (K a) sig)"

lemma typed_step:
  fixes s t :: "'k op_exec"
  assumes ty: "typed_system K queued s" and frame: "step_frame (set ts \<union> fst ` set real) s t"
    and sig: "signals t = signals s @ map (\<lambda>a. (a, task_signal s a)) ts @ map (\<lambda>c. (fst c, op_signal s c)) real"
    and ts: "set ts \<subseteq> queued" and real: "fst ` set real \<inter> queued = {}"
    and left: "queued' = queued - set ts"
  shows "typed_system K queued' t"
proof -
  have gone: "set ts \<union> fst ` set real \<subseteq> dom (ops s)" "ops t = ops s |` (- (set ts \<union> fst ` set real))"
    using frame by (simp_all add: step_frame_def)
  have K: "K a = right_kind queued s a" if "a \<in> dom (ops s)" for a
    using ty that by (simp add: typed_system_def)
  have "K a = right_kind queued' t a" if "a \<in> dom (ops t)" for a
  proof -
    from that have "a \<in> dom (ops s)" "a \<in> - (set ts \<union> fst ` set real)" unfolding gone(2) dom_restrict by blast+
    then have a: "a \<in> dom (ops s)" "a \<notin> set ts" "ops t a = ops s a" by (simp_all add: gone(2))
    with K show ?thesis by (simp add: right_kind_def left)
  qed
  moreover have "well_typed (K a) (task_signal s a)" if "a \<in> set ts" for a
  proof -
    from that ts gone(1) have "a \<in> queued" "a \<in> dom (ops s)" by blast+
    then have "K a = Schedule_kind" using K [of a] by (simp add: right_kind_def)
    then show ?thesis by (simp add: task_signal_typed)
  qed
  moreover have "well_typed (K (fst c)) (op_signal s c)" if "c \<in> set real" for c
  proof -
    from that real gone(1) have "fst c \<notin> queued" "fst c \<in> dom (ops s)" by blast+
    then have "K (fst c) = Uring_kind (is_timer (the (ops s (fst c))))"
      using K [of "fst c"] by (simp add: right_kind_def)
    then show ?thesis by (simp add: op_signal_typed)
  qed
  ultimately show ?thesis
    using ty unfolding typed_system_def sig by auto
qed

lemma typed_run_step:
  fixes s :: "'k op_exec"
  assumes laws: "ring_laws env view" and hold: "system_holds env view as xss s"
    and pol: "p_launch policy" "p_iodone policy" "\<not> transfer policy" "\<not> terminal policy" "\<not> blocking policy"
    and size: "unat (iodone_maxnr policy) + unat (iodone_batch policy) < 2 ^ 32"
    and ty: "typed_system K (set as \<union> set (concat xss)) s"
  shows "\<exists>info t yss. run_step policy (with_vtables spawn env) s = Some (info, t)
    \<and> system_holds env view [] yss t \<and> typed_system K (set (concat yss)) t"
proof -
  let ?i = "robin_bucket (walltime_step s)"
  from run_step_system [OF laws hold pol size, of spawn] obtain info t j cqes where
    run: "run_step policy (with_vtables spawn env) s = Some (info, t)" and j: "j < 16"
    and sig: "signals t = signals s @ map (\<lambda>a. (a, task_signal s a)) (step_tasks policy as xss ?i j)
      @ map (\<lambda>c. (fst c, op_signal s c)) (filter (\<lambda>c. fst c \<noteq> noop env) cqes)"
    and dist: "distinct (step_tasks policy as xss ?i j @ map fst (filter (\<lambda>c. fst c \<noteq> noop env) cqes))"
    and sys: "system_holds env view [] (xss[?i := [], j := []]) t"
    and frame: "step_frame (set (step_tasks policy as xss ?i j)
        \<union> fst ` set (filter (\<lambda>c. fst c \<noteq> noop env) cqes)) s t"
    unfolding Let_def by blast
  define ts where "ts = step_tasks policy as xss ?i j"
  define real where "real = filter (\<lambda>c. fst c \<noteq> noop env) cqes"
  let ?yss = "xss[?i := [], j := []]" let ?queued = "set as \<union> set (concat xss)"
  note folds = ts_def [symmetric] real_def [symmetric]
  have len: "length xss = 16" "distinct (concat xss)" using system_holds_buckets [OF hold] by simp_all
  have rest: "set (concat ?yss) = set (concat xss) - set (xss ! ?i) - set (xss[?i := []] ! j)"
  proof -
    have "distinct (concat (xss[?i := []]))"
      using len by (intro distinct_concat_update) auto
    with len j show ?thesis using set_concat_clear [of xss ?i] set_concat_clear [of "xss[?i := []]" j] by simp
  qed
  have "set as \<inter> set (concat xss) = {}" using hold by (simp add: system_holds_def tasks_hold_def)
  with rest have left: "set (concat ?yss) = ?queued - set ts"
    unfolding ts_def step_tasks_set by blast
  have sub: "set ts \<subseteq> ?queued"
  proof -
    have "set (xss[?i := []] ! j) \<subseteq> set (xss ! j)" using len j by (simp add: nth_list_update)
    then show ?thesis using len j by (auto simp: ts_def step_tasks_set set_concat_nth simp del: set_concat)
  qed
  have "fst ` set real \<inter> ?queued = {}"
  proof -
    have "fst ` set real \<inter> set ts = {}" using dist unfolding folds by auto
    moreover have "set (concat ?yss) \<subseteq> dom (ops t)" using system_holds_alive [OF sys] by simp
    moreover have "dom (ops t) \<inter> fst ` set real = {}" using frame unfolding folds step_frame_def by auto
    ultimately show ?thesis unfolding left by blast
  qed
  from typed_step [OF ty frame [unfolded folds] sig [unfolded folds] sub this left] run sys
  show ?thesis by blast
qed

section \<open>Property\<close>



end
