(* ===== verification/Sender.thy ===== *)
theory Sender
  imports ExecOperation "HOL-Library.Signed_Division"
begin

text \<open>
  The senders (\<open>uring_exec/io_uring_exec_sender.h\<close>): connecting a sender to a receiver, the
  scheduler and its sender, and the timespec of \<open>async_wait\<close>.
\<close>

section \<open>Sender and connect\<close>

text \<open>A sender is the executor it belongs to and the arguments for the \<open>io_uring_prep_*\<close> function;
  \<open>make_uring_sender\<close> stores them and \<open>connect\<close> makes the operation state with the receiver.\<close>

record 'args uring_sender =
  snd_uring :: addr
  snd_args :: 'args

record ('args, 'r) operation_state =
  os_receiver :: 'r
  os_uring :: addr
  os_args :: 'args

definition make_uring_sender :: "addr \<Rightarrow> 'args \<Rightarrow> 'args uring_sender" where
  "make_uring_sender s_context args = \<lparr>snd_uring = s_context, snd_args = args\<rparr>"

definition connect :: "'args uring_sender \<Rightarrow> 'r \<Rightarrow> ('args, 'r) operation_state" where
  "connect sender receiver =
     \<lparr>os_receiver = receiver, os_uring = snd_uring sender, os_args = snd_args sender\<rparr>"

lemma connect_keeps_arguments:
  "os_args (connect (make_uring_sender u args) r) = args"
  "os_uring (connect (make_uring_sender u args) r) = u"
  "os_receiver (connect (make_uring_sender u args) r) = r"
  by (simp_all add: connect_def make_uring_sender_def)

text \<open>\<open>async_read\<close> and \<open>async_write\<close>: the arguments are converted to the types of the
  \<open>io_uring_prep_*\<close> function, where the length is \<open>unsigned\<close>.\<close>

definition async_read_sender :: "addr \<Rightarrow> int \<Rightarrow> addr \<Rightarrow> size_t \<Rightarrow> size_t \<Rightarrow> (int \<times> addr \<times> u32 \<times> size_t) uring_sender" where
  "async_read_sender s fd buf n offset = make_uring_sender s (fd, buf, ucast n, offset)"

definition async_write_sender :: "addr \<Rightarrow> int \<Rightarrow> addr \<Rightarrow> size_t \<Rightarrow> size_t \<Rightarrow> (int \<times> addr \<times> u32 \<times> size_t) uring_sender" where
  "async_write_sender s fd buf n offset = make_uring_sender s (fd, buf, ucast n, offset)"

section \<open>The scheduler\<close>

text \<open>\<open>trivial_scheduler\<close> is a pointer to its context, an \<open>io_uring_exec\<close> or an \<open>io_uring_exec_local\<close>;
  its sender keeps the pointer, and so do the environment and the operation.\<close>

datatype context_ref = Exec_context addr | Local_context addr

record trivial_scheduler =
  sched_context :: context_ref

record schedule_sender =
  schedule_context :: context_ref

record 'r schedule_operation =
  so_receiver :: 'r
  so_context :: context_ref

definition exec_get_scheduler :: "addr \<Rightarrow> trivial_scheduler" where
  "exec_get_scheduler self = \<lparr>sched_context = Exec_context self\<rparr>"

definition local_get_scheduler :: "addr \<Rightarrow> trivial_scheduler" where
  "local_get_scheduler self = \<lparr>sched_context = Local_context self\<rparr>"

definition schedule :: "trivial_scheduler \<Rightarrow> schedule_sender" where
  "schedule self = \<lparr>schedule_context = sched_context self\<rparr>"

definition schedule_connect :: "schedule_sender \<Rightarrow> 'r \<Rightarrow> 'r schedule_operation" where
  "schedule_connect self receiver = \<lparr>so_receiver = receiver, so_context = schedule_context self\<rparr>"

text \<open>\<open>get_env\<close> and the query for the completion scheduler, for any completion tag.\<close>

definition get_env :: "schedule_sender \<Rightarrow> context_ref" where
  "get_env self = schedule_context self"

definition query_completion_scheduler :: "context_ref \<Rightarrow> trivial_scheduler" where
  "query_completion_scheduler context = \<lparr>sched_context = context\<rparr>"

text \<open>\<open>start\<close> finds the overload of \<open>start_operation\<close> by the type of the context.\<close>

definition schedule_operation_start :: "'r schedule_operation \<Rightarrow> addr \<Rightarrow> 'k op_exec \<Rightarrow> 'k op_exec" where
  "schedule_operation_start self operation = (case so_context self of
     Exec_context c \<Rightarrow> schedule_start operation
   | Local_context c \<Rightarrow> schedule_start_local operation)"

text \<open>What the concept \<open>stdexec::scheduler\<close> asks for: the sender completes on the scheduler it came from;
  and the operation that \<open>connect\<close> makes is queued where the scheduler says.\<close>

lemma schedule_completes_on_scheduler:
  "query_completion_scheduler (get_env (schedule sch)) = sch"
  by (simp add: query_completion_scheduler_def get_env_def schedule_def)

lemma schedule_operation_queued:
  "schedule_operation_start (schedule_connect (schedule (exec_get_scheduler c)) r) = schedule_start"
  "schedule_operation_start (schedule_connect (schedule (local_get_scheduler c)) r) = schedule_start_local"
  by (simp_all add: fun_eq_iff schedule_operation_start_def schedule_connect_def schedule_def
      exec_get_scheduler_def local_get_scheduler_def)

section \<open>async_wait\<close>

text \<open>\<open>make_ts_from\<close>: durations are counts of nanoseconds, \<open>duration_cast\<close> truncates towards zero.\<close>

record kernel_timespec =
  tv_sec :: int
  tv_nsec :: int

definition make_ts_from :: "int \<Rightarrow> kernel_timespec" where
  "make_ts_from duration =
     (let duration_s = duration sdiv 1000000000;
          duration_ns = duration - duration_s * 1000000000
      in \<lparr>tv_sec = duration_s, tv_nsec = duration_ns\<rparr>)"

lemma make_ts_from_parts:
  "tv_sec (make_ts_from d) * 1000000000 + tv_nsec (make_ts_from d) = d"
  "\<bar>tv_nsec (make_ts_from d)\<bar> < 1000000000" "0 \<le> tv_nsec (make_ts_from d) * d"
proof -
  consider "0 \<le> d" | "d < 0" by linarith
  then have "tv_sec (make_ts_from d) * 1000000000 + tv_nsec (make_ts_from d) = d
    \<and> \<bar>tv_nsec (make_ts_from d)\<bar> < 1000000000 \<and> 0 \<le> tv_nsec (make_ts_from d) * d"
  proof cases
    case 1
    then have "d sdiv 1000000000 = d div 1000000000"
      by (cases "d = 0") (simp_all add: signed_divide_int_def sgn_if)
    with 1 show ?thesis
      by (simp add: make_ts_from_def Let_def minus_div_mult_eq_mod)
  next
    case 2
    then have "d sdiv 1000000000 = - ((- d) div 1000000000)"
      by (simp add: signed_divide_int_def sgn_if)
    moreover have "d + (- d) div 1000000000 * 1000000000 = - ((- d) mod 1000000000)"
      by (simp add: mult_div_mod_eq [symmetric] minus_div_mult_eq_mod [of "- d", symmetric])
    ultimately have "tv_sec (make_ts_from d) = - ((- d) div 1000000000)"
      "tv_nsec (make_ts_from d) = - ((- d) mod 1000000000)"
      by (simp_all add: make_ts_from_def Let_def)
    moreover have "0 \<le> (- d) mod 1000000000" "(- d) mod 1000000000 < 1000000000" by simp_all
    moreover have "- ((- d) div 1000000000 * 1000000000) - (- d) mod 1000000000 = d"
      using div_mult_mod_eq [of "- d" 1000000000] by linarith
    ultimately show ?thesis using 2 by (simp add: mult_nonneg_nonpos)
  qed
  then show "tv_sec (make_ts_from d) * 1000000000 + tv_nsec (make_ts_from d) = d"
    "\<bar>tv_nsec (make_ts_from d)\<bar> < 1000000000" "0 \<le> tv_nsec (make_ts_from d) * d"
    by blast+
qed

lemma sec_nsec_unique:
  fixes s s' n n' :: int
  assumes "s * 1000000000 + n = s' * 1000000000 + n'" and "\<bar>n\<bar> < 1000000000" "\<bar>n'\<bar> < 1000000000"
    and "0 \<le> n \<and> 0 \<le> n' \<or> n \<le> 0 \<and> n' \<le> 0"
  shows "s = s'" "n = n'"
proof -
  have "n' - n < 1000000000" "- 1000000000 < n' - n" using assms(2-4) by linarith+
  with assms(1) have "s - s' < 1" "- 1 < s - s'" by linarith+
  then show "s = s'" by simp
  with assms(1) show "n = n'" by simp
qed

text \<open>
  The timespec of \<open>async_wait\<close> stands for exactly the requested duration: it is the only pair of
  seconds and nanoseconds that add up to the duration, with less than a second of nanoseconds in size
  and of the sign of the duration.
\<close>

theorem make_ts_from_exact:
  "ts = make_ts_from d \<longleftrightarrow> tv_sec ts * 1000000000 + tv_nsec ts = d
     \<and> \<bar>tv_nsec ts\<bar> < 1000000000 \<and> 0 \<le> tv_nsec ts * d"
proof (intro iffI; (elim conjE)?)
  let ?u = "make_ts_from d"
  assume sum: "tv_sec ts * 1000000000 + tv_nsec ts = d" and small: "\<bar>tv_nsec ts\<bar> < 1000000000"
    and sign: "0 \<le> tv_nsec ts * d"
  have eq: "tv_sec ts * 1000000000 + tv_nsec ts = tv_sec ?u * 1000000000 + tv_nsec ?u"
    using sum make_ts_from_parts(1) [of d] by simp
  have "0 \<le> tv_nsec ts \<and> 0 \<le> tv_nsec ?u \<or> tv_nsec ts \<le> 0 \<and> tv_nsec ?u \<le> 0"
  proof (cases "d = 0")
    case True
    then show ?thesis
      using make_ts_from_parts(1,2) [of d] by (simp add: make_ts_from_def signed_divide_int_def) linarith
  next
    case False
    with sign make_ts_from_parts(3) [of d] show ?thesis by (auto simp: zero_le_mult_iff)
  qed
  from sec_nsec_unique [OF eq small make_ts_from_parts(2) this] show "ts = ?u" by simp
qed (simp_all add: make_ts_from_parts)

text \<open>\<open>async_wait\<close>: \<open>let_value\<close> keeps the timespec alive, and hands its address \<open>ts\<close> to the sender.\<close>

definition async_wait_sender :: "addr \<Rightarrow> int \<Rightarrow> addr \<Rightarrow> kernel_timespec \<times> (addr \<times> u32 \<times> u32) uring_sender" where
  "async_wait_sender s duration ts = (make_ts_from duration, make_uring_sender s (ts, 0, 0))"

end
