(* ===== verification/Sigwait.thy ===== *)
theory Sigwait
  imports ExecOperation "HOL-Library.Sublist"
begin

text \<open>
  \<open>async_sigwait\<close> (\<open>uring_exec/io_uring_exec_sender.h\<close>): the owner of the descriptor, the calls made when
  the sender is built, and the stages that run one after the other once it is started. The combinators
  of stdexec pass a value on to the next stage, and errors and stops to the end.
\<close>

section \<open>The owner of the descriptor\<close>

text \<open>\<open>raii_fd\<close>: the descriptor, or -1 after \<open>reset\<close>; the destructor closes what it still owns.\<close>

definition raii_reset :: "int \<Rightarrow> int \<times> int" where
  "raii_reset fd = (fd, - 1)"

text \<open>The move constructor: the new and the old object.\<close>

definition raii_move :: "int \<Rightarrow> int \<times> int" where
  "raii_move rhs = raii_reset rhs"

definition raii_dtor :: "int \<Rightarrow> int list \<Rightarrow> int list" where
  "raii_dtor fd closed = (if fd > - 1 then closed @ [fd] else closed)"

section \<open>The sender and its stages\<close>

datatype sw_call =
    Sigmask_block "int set"
  | Signalfd "int set"
  | Poll_add int int
  | Read int nat
  | Close int

text \<open>How it ends: with the \<open>signalfd_siginfo\<close> that was read, a \<open>std::system_error\<close>, or the error or
  stop of a stage.\<close>

datatype sw_result =
    Siginfo "8 word list"
  | System_error int
  | Passed_on signal

datatype sw_point =
    Sw_built
  | Sw_polling
  | Sw_reading
  | Sw_completed sw_result
  | Sw_destroyed

text \<open>The sender, later its operation state, with the objects the owner was moved from, the signals that
  are blocked in the thread that built it, and the calls so far.\<close>

record sigwait =
  sw_at :: sw_point
  sw_fd :: int
  sw_moved :: "int list"
  sw_blocked :: "int set"
  sw_calls :: "sw_call list"

definition sizeof_siginfo :: nat where "sizeof_siginfo = 128"

text \<open>Building the sender evaluates \<open>make_signalfd_from\<close>; \<open>signalfd\<close> is the kernel's answer for the mask.\<close>

definition make_signalfd_from :: "(int set \<Rightarrow> int) \<Rightarrow> int list \<Rightarrow> int set \<Rightarrow> sigwait" where
  "make_signalfd_from signalfd sigs blocked =
     (let signal_mask = fold insert sigs {}
      in \<lparr>sw_at = Sw_built, sw_fd = signalfd signal_mask, sw_moved = [], sw_blocked = blocked \<union> signal_mask,
          sw_calls = [Sigmask_block signal_mask, Signalfd signal_mask]\<rparr>)"

definition sw_move :: "sigwait \<Rightarrow> sigwait" where
  "sw_move w = (let (new, old) = raii_move (sw_fd w) in w\<lparr>sw_fd := new, sw_moved := old # sw_moved w\<rparr>)"

text \<open>The first stage; \<open>errno\<close> is that of the thread that starts the operation.\<close>

definition sw_start :: "int \<Rightarrow> int \<Rightarrow> sigwait \<Rightarrow> sigwait" where
  "sw_start POLLIN errno w =
     (if sw_fd w < 0 then w\<lparr>sw_at := Sw_completed (System_error errno)\<rparr>
      else w\<lparr>sw_at := Sw_polling, sw_calls := sw_calls w @ [Poll_add (sw_fd w) POLLIN]\<rparr>)"

text \<open>The stage after \<open>async_poll_add\<close>; \<open>errno\<close> is that of the thread that runs the completion.\<close>

definition sw_polled :: "int \<Rightarrow> int \<Rightarrow> signal \<Rightarrow> sigwait \<Rightarrow> sigwait" where
  "sw_polled POLLIN errno polled w = (case polled of
     Set_value events \<Rightarrow>
       (if events AND POLLIN = 0 then w\<lparr>sw_at := Sw_completed (System_error errno)\<rparr>
        else w\<lparr>sw_at := Sw_reading, sw_calls := sw_calls w @ [Read (sw_fd w) sizeof_siginfo]\<rparr>)
   | other \<Rightarrow> w\<lparr>sw_at := Sw_completed (Passed_on other)\<rparr>)"

text \<open>The stage after \<open>async_read\<close>, which has put \<open>bytes\<close> at the start of the zeroed buffer.\<close>

definition sw_read :: "signal \<Rightarrow> 8 word list \<Rightarrow> sigwait \<Rightarrow> sigwait" where
  "sw_read reading bytes w = (case reading of
     Set_value n \<Rightarrow> w\<lparr>sw_at := Sw_completed (Siginfo (bytes @ replicate (sizeof_siginfo - length bytes) 0))\<rparr>
   | other \<Rightarrow> w\<lparr>sw_at := Sw_completed (Passed_on other)\<rparr>)"

text \<open>An object the owner was moved from is destroyed; the owner itself is, with the sender or the state.\<close>

definition sw_drop_moved :: "sigwait \<Rightarrow> sigwait" where
  "sw_drop_moved w = w\<lparr>sw_moved := tl (sw_moved w), sw_calls := sw_calls w @ map Close (raii_dtor (hd (sw_moved w)) [])\<rparr>"

definition sw_destroy :: "sigwait \<Rightarrow> sigwait" where
  "sw_destroy w = w\<lparr>sw_at := Sw_destroyed, sw_calls := sw_calls w @ map Close (raii_dtor (sw_fd w) [])\<rparr>"

text \<open>What can happen: the sender is moved any number of times, started at most once, the ring answers,
  and what is not in use is destroyed, also a sender that was never started.\<close>

inductive sw_step :: "int \<Rightarrow> sigwait \<Rightarrow> sigwait \<Rightarrow> bool" for POLLIN where
  moving: "sw_at w = Sw_built \<Longrightarrow> sw_step POLLIN w (sw_move w)"
| starting: "sw_at w = Sw_built \<Longrightarrow> sw_step POLLIN w (sw_start POLLIN errno w)"
| poll_done: "sw_at w = Sw_polling \<Longrightarrow> sw_step POLLIN w (sw_polled POLLIN errno polled w)"
| read_done: "sw_at w = Sw_reading \<Longrightarrow> length bytes \<le> sizeof_siginfo \<Longrightarrow> sw_step POLLIN w (sw_read reading bytes w)"
| dropping: "sw_moved w \<noteq> [] \<Longrightarrow> sw_step POLLIN w (sw_drop_moved w)"
| destroying: "sw_at w = Sw_built \<or> sw_at w = Sw_completed r \<Longrightarrow> sw_step POLLIN w (sw_destroy w)"

section \<open>What it completes with\<close>

text \<open>The result as a function of the two \<open>errno\<close>s, the answers of the ring and the bytes.\<close>

definition async_sigwait :: "int \<Rightarrow> int \<Rightarrow> int \<Rightarrow> int \<Rightarrow> signal \<Rightarrow> signal \<Rightarrow> 8 word list \<Rightarrow> sw_result" where
  "async_sigwait POLLIN fd errno1 errno2 polled reading bytes =
     (if fd < 0 then System_error errno1
      else case polled of
          Set_value events \<Rightarrow>
            (if events AND POLLIN = 0 then System_error errno2
             else case reading of
                 Set_value n \<Rightarrow> Siginfo (bytes @ replicate (sizeof_siginfo - length bytes) 0)
               | other \<Rightarrow> Passed_on other)
        | other \<Rightarrow> Passed_on other)"

lemma sw_stages:
  fixes POLLIN errno1 errno2 :: int and polled reading :: signal and bytes :: "8 word list"
  assumes "sw_at w = Sw_built"
  defines "w1 \<equiv> sw_start POLLIN errno1 w"
  defines "w2 \<equiv> (if sw_at w1 = Sw_polling then sw_polled POLLIN errno2 polled w1 else w1)"
  defines "w3 \<equiv> (if sw_at w2 = Sw_reading then sw_read reading bytes w2 else w2)"
  shows "sw_at w3 = Sw_completed (async_sigwait POLLIN (sw_fd w) errno1 errno2 polled reading bytes)"
  by (simp add: w1_def w2_def w3_def sw_start_def sw_polled_def sw_read_def async_sigwait_def split: signal.splits)

section \<open>The calls of every run\<close>

lemmas sw_defs = sw_move_def sw_start_def sw_polled_def sw_read_def sw_drop_moved_def sw_destroy_def
  raii_move_def raii_reset_def raii_dtor_def

text \<open>The calls of the stages that were reached.\<close>

fun sw_ops :: "int \<Rightarrow> int \<Rightarrow> sw_point \<Rightarrow> sw_call list \<Rightarrow> bool" where
  "sw_ops POLLIN fd Sw_built cs \<longleftrightarrow> cs = []"
| "sw_ops POLLIN fd Sw_polling cs \<longleftrightarrow> 0 \<le> fd \<and> cs = [Poll_add fd POLLIN]"
| "sw_ops POLLIN fd Sw_reading cs \<longleftrightarrow> 0 \<le> fd \<and> cs = [Poll_add fd POLLIN, Read fd sizeof_siginfo]"
| "sw_ops POLLIN fd (Sw_completed (Siginfo b)) cs \<longleftrightarrow> 0 \<le> fd \<and> length b = sizeof_siginfo
     \<and> cs = [Poll_add fd POLLIN, Read fd sizeof_siginfo]"
| "sw_ops POLLIN fd at cs \<longleftrightarrow> prefix cs [Poll_add fd POLLIN, Read fd sizeof_siginfo] \<and> (fd < 0 \<longrightarrow> cs = [])"

definition sw_inv :: "int \<Rightarrow> int set \<Rightarrow> int set \<Rightarrow> int \<Rightarrow> sigwait \<Rightarrow> bool" where
  "sw_inv POLLIN sigs blocked fd w \<longleftrightarrow> sw_fd w = fd \<and> sw_blocked w = blocked \<union> sigs \<and> (\<forall>x \<in> set (sw_moved w). x = - 1)
     \<and> (\<exists>cs. sw_ops POLLIN fd (sw_at w) cs \<and> sw_calls w = [Sigmask_block sigs, Signalfd sigs] @ cs
          @ (if sw_at w = Sw_destroyed \<and> 0 \<le> fd then [Close fd] else []))"

lemma fold_insert_set: "fold insert xs A = A \<union> set xs"
  by (induction xs arbitrary: A) auto

lemma sw_inv_make: "sw_inv POLLIN (set sigs) blocked (signalfd (set sigs)) (make_signalfd_from signalfd sigs blocked)"
  by (simp add: sw_inv_def make_signalfd_from_def fold_insert_set Let_def)

lemma sw_ops_prefix:
  "sw_ops POLLIN fd at cs \<Longrightarrow> prefix cs [Poll_add fd POLLIN, Read fd sizeof_siginfo] \<and> (fd < 0 \<longrightarrow> cs = [])"
  by (cases "(POLLIN, fd, at, cs)" rule: sw_ops.cases) auto

lemma sw_inv_step:
  assumes "sw_step POLLIN w w'" and "sw_inv POLLIN sigs blocked fd w" shows "sw_inv POLLIN sigs blocked fd w'"
  using assms
proof cases
  case dropping
  then show ?thesis using assms(2) by (cases "sw_moved w") (auto simp: sw_inv_def sw_defs)
next
  case (destroying r)
  then show ?thesis using assms(2) sw_ops_prefix [of POLLIN fd "sw_at w"]
    by (auto simp: sw_inv_def sw_defs)
qed (use assms(2) in \<open>auto simp: sw_inv_def sw_defs split: signal.splits\<close>)

lemma sw_inv_reachable:
  "(sw_step POLLIN)\<^sup>*\<^sup>* w w' \<Longrightarrow> sw_inv POLLIN sigs blocked fd w \<Longrightarrow> sw_inv POLLIN sigs blocked fd w'"
  by (induction rule: rtranclp_induct) (auto intro: sw_inv_step)

section \<open>Property\<close>

text \<open>
  C9. The descriptor of \<open>async_sigwait\<close> does not leak and is not used after it is closed: in every run,
  however often the sender is moved and whether or not it is started, the calls after \<open>signalfd\<close> are a
  prefix of one poll and one read on this descriptor, followed by exactly one close once the owner is
  destroyed and by none before; a \<open>signalfd_siginfo\<close> is delivered only after both, a \<open>signalfd\<close> that
  failed is neither used nor closed, and the signals stay blocked in the thread that built the sender.
\<close>

theorem sigwait_closes_fd_once:
  assumes "(sw_step POLLIN)\<^sup>*\<^sup>* (make_signalfd_from signalfd sigs blocked) w"
  defines "fd \<equiv> signalfd (set sigs)"
  shows "\<exists>cs. sw_calls w = [Sigmask_block (set sigs), Signalfd (set sigs)] @ cs
      @ (if sw_at w = Sw_destroyed \<and> 0 \<le> fd then [Close fd] else [])
    \<and> prefix cs [Poll_add fd POLLIN, Read fd sizeof_siginfo] \<and> (fd < 0 \<longrightarrow> cs = [])
    \<and> (\<forall>b. sw_at w = Sw_completed (Siginfo b) \<longrightarrow> length cs = 2 \<and> length b = sizeof_siginfo)
    \<and> sw_blocked w = blocked \<union> set sigs"
proof -
  have inv: "sw_inv POLLIN (set sigs) blocked fd w"
    unfolding fd_def by (rule sw_inv_reachable [OF assms(1) sw_inv_make])
  then obtain cs where cs: "sw_ops POLLIN fd (sw_at w) cs" "sw_calls w = [Sigmask_block (set sigs), Signalfd (set sigs)] @ cs
      @ (if sw_at w = Sw_destroyed \<and> 0 \<le> fd then [Close fd] else [])" and blocked: "sw_blocked w = blocked \<union> set sigs"
    by (auto simp: sw_inv_def)
  from cs(1) have "\<forall>b. sw_at w = Sw_completed (Siginfo b) \<longrightarrow> length cs = 2 \<and> length b = sizeof_siginfo"
    by auto
  with sw_ops_prefix [OF cs(1)] cs(2) blocked show ?thesis by blast
qed

text \<open>A run: moved twice, started, and destroyed after it has read a signal.\<close>

definition sample_sigwait :: sigwait where
  "sample_sigwait = sw_destroy (sw_read (Set_value 128) [2] (sw_polled 1 0 (Set_value 1) (sw_start 1 0
     (sw_move (sw_move (make_signalfd_from (\<lambda>_. 5) [2, 10] {}))))))"

theorem sigwait_closes_fd_once_witness:
  "\<exists>cs. sw_calls sample_sigwait = [Sigmask_block {2, 10}, Signalfd {2, 10}] @ cs @ [Close 5]
    \<and> prefix cs [Poll_add 5 1, Read 5 sizeof_siginfo]"
proof -
  let ?w1 = "sw_move (make_signalfd_from (\<lambda>_. 5) [2, 10] {})"
  let ?w2 = "sw_start 1 0 (sw_move ?w1)" let ?w3 = "sw_polled 1 0 (Set_value 1) ?w2"
  let ?w4 = "sw_read (Set_value 128) [2] ?w3"
  have at: "sw_at (make_signalfd_from (\<lambda>_. 5) [2, 10] {}) = Sw_built" "sw_at ?w1 = Sw_built" "sw_at (sw_move ?w1) = Sw_built"
    "sw_at ?w2 = Sw_polling" "sw_at ?w3 = Sw_reading" "\<exists>b. sw_at ?w4 = Sw_completed (Siginfo b)"
    by (simp_all add: make_signalfd_from_def sw_defs Let_def)
  from at(6) have "sw_step 1 ?w4 sample_sigwait"
    unfolding sample_sigwait_def by (auto intro: sw_step.destroying)
  moreover have "sw_step 1 ?w3 ?w4" by (rule sw_step.read_done [OF at(5)]) (simp add: sizeof_siginfo_def)
  ultimately have run: "(sw_step 1)\<^sup>*\<^sup>* (make_signalfd_from (\<lambda>_. 5) [2, 10] {}) sample_sigwait"
    using sw_step.moving [OF at(1)] sw_step.moving [OF at(2)] sw_step.starting [OF at(3)] sw_step.poll_done [OF at(4)]
    by (meson converse_rtranclp_into_rtranclp rtranclp.rtrancl_refl)
  have "sw_at sample_sigwait = Sw_destroyed" by (simp add: sample_sigwait_def sw_destroy_def)
  with sigwait_closes_fd_once [OF run] show ?thesis by simp metis
qed

end
