(* ===== verification/Task.thy ===== *)
theory Task
  imports AsyncOp
begin

text \<open>
  \<open>struct Task\<close>, its promise and its awaiter (\<open>include/coroutine.h\<close>): who owns a coroutine frame.

  The state has the live frames by number (\<open>None\<close>: not created yet, or destroyed), the live \<open>Task\<close>
  objects by address with their \<open>_handle\<close>, and the set \<open>loose\<close> of handles that were detached from an
  object and now belong to the event loop or to an awaiting coroutine. Destroying or resuming a
  frame that is gone is the fault \<open>Dangling\<close>. \<open>destroyed\<close> and \<open>resumed\<close> are ghost logs.
\<close>

section \<open>State and operations\<close>

record frame =
  caller :: handle

record task_state =
  frames :: "nat \<Rightarrow> frame option"
  objects :: "addr \<Rightarrow> handle option"
  loose :: "nat set"
  destroyed :: "nat list"
  resumed :: "handle list"

fun destroy :: "handle \<Rightarrow> task_state \<Rightarrow> task_state result" where
  "destroy (Coro n) s = (if frames s n = None then Inl Dangling
     else Inr (s\<lparr>frames := (frames s)(n := None), destroyed := destroyed s @ [n]\<rparr>))"
| "destroy _ s = Inl Null_deref"

text \<open>\<open>get_return_object\<close>: a new frame, suspended initially, and its \<open>Task\<close>.\<close>

definition get_return_object :: "nat \<Rightarrow> addr \<Rightarrow> task_state \<Rightarrow> task_state" where
  "get_return_object n a s =
     s\<lparr>frames := (frames s)(n \<mapsto> \<lparr>caller = Noop\<rparr>), objects := (objects s)(a \<mapsto> Coro n)\<rparr>"

definition task_dtor :: "addr \<Rightarrow> task_state \<Rightarrow> task_state result" where
  "task_dtor a s = (case objects s a of
       None \<Rightarrow> Inl Dangling
     | Some h \<Rightarrow> let s1 = s\<lparr>objects := (objects s)(a := None)\<rparr>
         in if h \<noteq> Null_handle then destroy h s1 else Inr s1)"

text \<open>\<open>detach\<close>: \<open>std::exchange(_handle, {})\<close>.\<close>

definition detach :: "addr \<Rightarrow> task_state \<Rightarrow> (handle \<times> task_state) result" where
  "detach a s = (case objects s a of
       None \<Rightarrow> Inl Dangling
     | Some h \<Rightarrow> Inr (h, s\<lparr>objects := (objects s)(a \<mapsto> Null_handle)\<rparr>))"

definition task_move :: "addr \<Rightarrow> addr \<Rightarrow> task_state \<Rightarrow> task_state result" where
  "task_move b a s = and_then (detach a s) (\<lambda>(h, s1). Inr (s1\<lparr>objects := (objects s1)(b \<mapsto> h)\<rparr>))"

text \<open>\<open>operator co_await() &&\<close> hands the handle to the awaiter; \<open>await_suspend\<close> stores the caller in the
  promise and continues with the task (symmetric transfer). The awaiter of a null handle is ready.\<close>

definition task_await_ready :: "handle \<Rightarrow> bool" where
  "task_await_ready h \<longleftrightarrow> h = Null_handle"

definition promise_push :: "handle \<Rightarrow> handle \<Rightarrow> task_state \<Rightarrow> task_state result" where
  "promise_push h clr s = (case h of
       Coro n \<Rightarrow> (case frames s n of
           None \<Rightarrow> Inl Dangling
         | Some f \<Rightarrow> Inr (s\<lparr>frames := (frames s)(n \<mapsto> f\<lparr>caller := clr\<rparr>), resumed := resumed s @ [h]\<rparr>))
     | _ \<Rightarrow> Inl Null_deref)"

fun handle_set :: "handle \<Rightarrow> nat set" where
  "handle_set (Coro n) = {n}"
| "handle_set _ = {}"

definition task_co_await :: "addr \<Rightarrow> handle \<Rightarrow> task_state \<Rightarrow> task_state result" where
  "task_co_await a clr s = and_then (detach a s) (\<lambda>(h, s1).
     let s2 = s1\<lparr>loose := loose s1 \<union> handle_set h\<rparr>
     in if task_await_ready h then Inr s2 else promise_push h clr s2)"

text \<open>\<open>co_spawn\<close>: the handle goes to the queue of the event loop.\<close>

definition task_spawn :: "addr \<Rightarrow> task_state \<Rightarrow> task_state result" where
  "task_spawn a s = and_then (detach a s) (\<lambda>(h, s1). Inr (s1\<lparr>loose := loose s1 \<union> handle_set h\<rparr>))"

text \<open>\<open>Final_suspend::await_suspend\<close>: read the caller, destroy the frame, resume the caller.\<close>

definition final_suspend :: "nat \<Rightarrow> task_state \<Rightarrow> task_state result" where
  "final_suspend n s = (case frames s n of
       None \<Rightarrow> Inl Dangling
     | Some f \<Rightarrow> and_then (destroy (Coro n) s)
         (\<lambda>s1. Inr (s1\<lparr>loose := loose s1 - {n}, resumed := resumed s1 @ [caller f]\<rparr>)))"

lemmas task_defs = get_return_object_def task_dtor_def detach_def task_move_def task_await_ready_def
  promise_push_def task_co_await_def task_spawn_def final_suspend_def

section \<open>Steps\<close>

text \<open>What a program may do with tasks. A frame number is used once; an object is constructed at an
  address where none lives; and only a frame that was started can reach its final suspension.\<close>

inductive task_step :: "task_state \<Rightarrow> task_state \<Rightarrow> bool" where
  call_coroutine: "frames s n = None \<Longrightarrow> n \<notin> set (destroyed s) \<Longrightarrow> objects s a = None \<Longrightarrow>
     task_step s (get_return_object n a s)"
| move_task: "objects s a \<noteq> None \<Longrightarrow> objects s b = None \<Longrightarrow> task_move b a s = Inr t \<Longrightarrow> task_step s t"
| drop_task: "objects s a \<noteq> None \<Longrightarrow> task_dtor a s = Inr t \<Longrightarrow> task_step s t"
| spawn_task: "objects s a \<noteq> None \<Longrightarrow> task_spawn a s = Inr t \<Longrightarrow> task_step s t"
| await_task: "objects s a \<noteq> None \<Longrightarrow> task_co_await a c s = Inr t \<Longrightarrow> task_step s t"
| finish_task: "n \<in> loose s \<Longrightarrow> final_suspend n s = Inr t \<Longrightarrow> task_step s t"

definition task_init :: task_state where
  "task_init = \<lparr>frames = (\<lambda>_. None), objects = (\<lambda>_. None), loose = {}, destroyed = [], resumed = []\<rparr>"

inductive task_reachable :: "task_state \<Rightarrow> bool" where
  task_start: "task_reachable task_init"
| task_next: "task_reachable s \<Longrightarrow> task_step s t \<Longrightarrow> task_reachable t"

section \<open>Ownership\<close>

text \<open>The objects that hold a frame's handle. Every live frame has exactly one owner: one \<open>Task\<close> object,
  or it is loose.\<close>

definition holders :: "(addr \<Rightarrow> handle option) \<Rightarrow> nat \<Rightarrow> addr set" where
  "holders O' n = {a. O' a = Some (Coro n)}"

definition owned1 :: "task_state \<Rightarrow> nat \<Rightarrow> bool" where
  "owned1 s n \<longleftrightarrow>
     (if n \<in> loose s then frames s n \<noteq> None \<and> holders (objects s) n = {}
      else if frames s n = None then holders (objects s) n = {}
      else (\<exists>a. holders (objects s) n = {a}))"

definition owned :: "task_state \<Rightarrow> bool" where
  "owned s \<longleftrightarrow> (\<forall>n. owned1 s n) \<and> (\<forall>a. objects s a \<noteq> Some Noop)
     \<and> distinct (destroyed s) \<and> (\<forall>n \<in> set (destroyed s). frames s n = None)"

lemma holders_upd [simp]:
  "holders (O'(a := None)) n = holders O' n - {a}"
  "holders (O'(a \<mapsto> Null_handle)) n = holders O' n - {a}"
  "holders (O'(a \<mapsto> Coro m)) n = (if n = m then insert a (holders O' n) else holders O' n - {a})"
  by (auto simp: holders_def)

lemma holders_absent: "O' a = None \<Longrightarrow> a \<notin> holders O' n"
  by (simp add: holders_def)

lemma owned_held:
  assumes "owned s" "objects s a = Some (Coro m)"
  shows "holders (objects s) m = {a}" "m \<notin> loose s" "frames s m \<noteq> None" "m \<notin> set (destroyed s)"
    "n \<noteq> m \<Longrightarrow> holders (objects s) n - {a} = holders (objects s) n"
proof -
  have a: "a \<in> holders (objects s) m" using assms(2) by (simp add: holders_def)
  moreover have "owned1 s m" using assms(1) by (simp add: owned_def)
  ultimately show "holders (objects s) m = {a}" "m \<notin> loose s" and f: "frames s m \<noteq> None"
    by (auto simp: owned1_def split: if_splits)
  show "m \<notin> set (destroyed s)" using f assms(1) by (auto simp: owned_def)
  show "n \<noteq> m \<Longrightarrow> holders (objects s) n - {a} = holders (objects s) n"
    using assms(2) by (auto simp: holders_def)
qed

lemma owned_init: "owned task_init"
  by (simp add: owned_def owned1_def holders_def task_init_def)

lemma owned_create:
  assumes "owned s" "frames s n = None" "n \<notin> set (destroyed s)" "objects s a = None"
  shows "owned (get_return_object n a s)"
proof -
  have o: "owned1 s m" for m using assms(1) by (simp add: owned_def)
  have n: "holders (objects s) n = {}" "n \<notin> loose s"
    using o [of n] assms(2) by (auto simp: owned1_def split: if_splits)
  have "owned1 (get_return_object n a s) m" for m
    using o [of m] n holders_absent [where O' = "objects s", OF assms(4)]
    by (cases "m = n") (simp_all add: owned1_def get_return_object_def)
  with assms show ?thesis by (auto simp: owned_def get_return_object_def)
qed

lemma owned_move:
  assumes "owned s" "objects s a = Some h" "objects s b = None"
  shows "owned (s\<lparr>objects := (objects s)(a \<mapsto> Null_handle, b \<mapsto> h)\<rparr>)"
proof -
  have o: "owned1 s m" for m using assms(1) by (simp add: owned_def)
  have ab: "a \<noteq> b" and hn: "h \<noteq> Noop" using assms by (auto simp: owned_def)
  have "owned1 (s\<lparr>objects := (objects s)(a \<mapsto> Null_handle, b \<mapsto> h)\<rparr>) m" for m
  proof (cases h)
    case (Coro n)
    note hd = owned_held [OF assms(1) assms(2) [unfolded Coro]]
    show ?thesis
      using o [of m] hd holders_absent [where O' = "objects s" and n = m, OF assms(3)] Coro
      by (cases "m = n") (simp_all add: owned1_def)
  next
    case Null_handle
    have "a \<notin> holders (objects s) m" using assms(2) Null_handle by (simp add: holders_def)
    with o [of m] holders_absent [where O' = "objects s" and n = m, OF assms(3)] Null_handle show ?thesis by (simp add: owned1_def)
  qed (use hn in simp)
  with assms(1) hn show ?thesis by (auto simp: owned_def)
qed

lemma owned_drop:
  assumes "owned s" "objects s a = Some h" "task_dtor a s = Inr t"
  shows "owned t"
proof -
  have o: "owned1 s m" for m using assms(1) by (simp add: owned_def)
  show ?thesis
  proof (cases h)
    case (Coro n)
    note hd = owned_held [OF assms(1) assms(2) [unfolded Coro]]
    from assms Coro have t: "t = s\<lparr>objects := (objects s)(a := None), frames := (frames s)(n := None),
        destroyed := destroyed s @ [n]\<rparr>"
      by (auto simp: task_dtor_def Let_def split: if_splits)
    have "owned1 t m" for m
      using o [of m] hd unfolding t by (cases "m = n") (simp_all add: owned1_def)
    with assms(1) hd(4) show ?thesis by (auto simp: owned_def t)
  next
    case Null_handle
    with assms(2,3) have t: "t = s\<lparr>objects := (objects s)(a := None)\<rparr>" by (simp add: task_dtor_def)
    have "a \<notin> holders (objects s) m" for m using assms(2) Null_handle by (simp add: holders_def)
    with o assms(1) show ?thesis by (auto simp: owned_def owned1_def t)
  next
    case Noop
    with assms(1,2) show ?thesis by (auto simp: owned_def)
  qed
qed

lemma owned_loosen:
  assumes "owned s" "objects s a = Some h"
  shows "owned (s\<lparr>objects := (objects s)(a \<mapsto> Null_handle), loose := loose s \<union> handle_set h\<rparr>)"
proof -
  have o: "owned1 s m" for m using assms(1) by (simp add: owned_def)
  show ?thesis
  proof (cases h)
    case (Coro n)
    note hd = owned_held [OF assms(1) assms(2) [unfolded Coro]]
    have "owned1 (s\<lparr>objects := (objects s)(a \<mapsto> Null_handle), loose := loose s \<union> handle_set h\<rparr>) m" for m
      using o [of m] hd Coro by (cases "m = n") (simp_all add: owned1_def)
    with assms(1) show ?thesis by (auto simp: owned_def)
  next
    case Null_handle
    have "a \<notin> holders (objects s) m" for m using assms(2) Null_handle by (simp add: holders_def)
    with o assms(1) Null_handle show ?thesis by (auto simp: owned_def owned1_def)
  next
    case Noop
    with assms(1,2) show ?thesis by (auto simp: owned_def)
  qed
qed

lemma owned_frames:
  assumes "owned s" "frames s n \<noteq> None"
  shows "owned (s\<lparr>frames := (frames s)(n \<mapsto> f), resumed := r\<rparr>)"
proof -
  have "owned1 s m" for m using assms(1) by (simp add: owned_def)
  then have "owned1 (s\<lparr>frames := (frames s)(n \<mapsto> f), resumed := r\<rparr>) m" for m
    using assms(2) by (cases "m = n") (auto simp: owned1_def split: if_splits)
  with assms show ?thesis by (auto simp: owned_def)
qed

lemma owned_finish:
  assumes "owned s" "n \<in> loose s" "final_suspend n s = Inr t"
  shows "owned t"
proof -
  have o: "owned1 s m" for m using assms(1) by (simp add: owned_def)
  from o [of n] assms(2) obtain f where f: "frames s n = Some f" "holders (objects s) n = {}"
    by (auto simp: owned1_def)
  with assms(3) have t: "t = s\<lparr>frames := (frames s)(n := None), destroyed := destroyed s @ [n],
      loose := loose s - {n}, resumed := resumed s @ [caller f]\<rparr>"
    by (simp add: final_suspend_def)
  have "owned1 t m" for m using o [of m] f unfolding t by (cases "m = n") (simp_all add: owned1_def)
  moreover have "n \<notin> set (destroyed s)" using assms(1) f(1) by (auto simp: owned_def)
  ultimately show ?thesis using assms(1) by (auto simp: owned_def t)
qed

lemma owned_step:
  assumes "task_step s t" "owned s" shows "owned t"
  using assms
proof (cases rule: task_step.cases)
  case (call_coroutine n a)
  with assms(2) show ?thesis by (simp add: owned_create)
next
  case (move_task a b)
  then obtain h where "objects s a = Some h" by blast
  with owned_move [OF assms(2) this move_task(2)] move_task show ?thesis
    by (simp add: task_move_def detach_def)
next
  case (drop_task a)
  with owned_drop [OF assms(2)] show ?thesis by blast
next
  case (spawn_task a)
  then obtain h where "objects s a = Some h" by blast
  with owned_loosen [OF assms(2) this] spawn_task show ?thesis
    by (simp add: task_spawn_def detach_def)
next
  case (await_task a c)
  then obtain h where h: "objects s a = Some h" by blast
  let ?s = "s\<lparr>objects := (objects s)(a \<mapsto> Null_handle), loose := loose s \<union> handle_set h\<rparr>"
  note l = owned_loosen [OF assms(2) h]
  have "t = ?s \<or> (\<exists>n f r. frames ?s n \<noteq> None \<and> t = ?s\<lparr>frames := (frames ?s)(n \<mapsto> f), resumed := r\<rparr>)"
    using await_task h
    by (auto simp: task_co_await_def detach_def promise_push_def Let_def split: if_splits handle.splits option.splits)
  with l owned_frames [OF l] show ?thesis by auto
next
  case (finish_task n)
  with owned_finish [OF assms(2)] show ?thesis by blast
qed

lemma reachable_owned: "task_reachable s \<Longrightarrow> owned s"
  by (induction rule: task_reachable.induct) (auto intro: owned_init owned_step)



end
