(* ===== verification/ContextSwitch.thy ===== *)
theory ContextSwitch
  imports IoContext
begin

text \<open>
  Switching a coroutine to another context: \<open>context_switch_operation\<close>
  (\<open>include/co_context_switch.h\<close>). The awaiter lives in the coroutine's frame; its flag \<open>ok\<close> is
  written by the thread that leaves and read by the thread that resumes the coroutine.
\<close>

record switch_op =
  sw_ok :: bool

text \<open>\<open>await_suspend\<close> in its two steps: hand the coroutine over, then store the flag.\<close>

definition switch_push :: "handle \<Rightarrow> ('p, 'k) io_context \<Rightarrow> bool \<times> ('p, 'k) io_context" where
  "switch_push h target = push_to_switch h target"

definition switch_store :: "bool \<Rightarrow> switch_op \<Rightarrow> switch_op" where
  "switch_store b op = op\<lparr>sw_ok := b\<rparr>"

definition switch_await_suspend :: "handle \<Rightarrow> switch_op \<times> ('p, 'k) io_context
    \<Rightarrow> bool \<times> switch_op \<times> ('p, 'k) io_context" where
  "switch_await_suspend h r =
     (let (b, target) = switch_push h (snd r) in (b, switch_store b (fst r), target))"

definition switch_await_ready :: bool where
  "switch_await_ready = False"

definition switch_await_resume :: "switch_op \<Rightarrow> bool" where
  "switch_await_resume op = sw_ok op"

text \<open>The coroutine is in exactly one place: with success it is at the end of the target's switch
  queue and stays suspended, and without it the target is unchanged and the coroutine goes on where it
  is; the flag it reads says which.\<close>

lemma switch_conserves:
  assumes "fifo_invar 64 (switch_spsc c)"
  shows "switch_await_suspend h (op, c) = (b, op', c') \<Longrightarrow>
    switch_await_resume op' = b \<and> fifo_invar 64 (switch_spsc c')
    \<and> (if b then fifo_list 64 (switch_spsc c') = fifo_list 64 (switch_spsc c) @ [h] else c' = c)"
proof -
  assume eq: "switch_await_suspend h (op, c) = (b, op', c')"
  obtain f where f: "fifo_push 64 h (switch_spsc c) = (b, f)" "c' = c\<lparr>switch_spsc := f\<rparr>" "sw_ok op' = b"
    using eq by (auto simp: switch_await_suspend_def switch_push_def push_to_switch_def switch_store_def
        Let_def split: prod.splits)
  have "fifo_invar 64 f" using switch_queue.enq_invar [OF assms f(1)] .
  moreover have "if b then fifo_list 64 f = fifo_list 64 (switch_spsc c) @ [h] else f = switch_spsc c"
    using assms
  proof (cases rule: switch_queue.enq_cases [where x = h])
    case 1
    with f(1) show ?thesis by simp
  next
    case (2 q')
    with f(1) show ?thesis by simp
  qed
  ultimately show ?thesis using f by (auto simp: switch_await_resume_def)
qed

end
