(* ===== verification/SwitchLoop.thy ===== *)
theory SwitchLoop
  imports ContextSwitch IoContextProps
begin

text \<open>
  The program \<open>examples/test_context_switch.cpp\<close>: a coroutine that writes on one of two contexts and
  switches to the other, and what the switch (\<open>ContextSwitch\<close>) means for it. A ring belongs to the thread
  that runs its context, so the entry of a write has to be taken by that thread.
\<close>

section \<open>The coroutine\<close>

text \<open>At the start of a round: the variable \<open>i\<close>, and the context whose thread runs the coroutine.\<close>

record just_print =
  jp_i :: nat
  jp_on :: nat

definition jp_other :: "nat \<Rightarrow> nat" where
  "jp_other i = (if i = 0 then 1 else 0)"

text \<open>The outcome of \<open>switch_to\<close>: whether the coroutine was handed over, and the flag it reads. A round
  takes an entry of ring \<open>i\<close> in the current thread, goes on in the thread that reaps that ring, and
  then tries to switch. The result is the submitting thread and the ring, and the next round.\<close>

definition jp_round :: "bool \<times> bool \<Rightarrow> just_print \<Rightarrow> (nat \<times> nat) \<times> just_print" where
  "jp_round outcome c =
     (let (pushed, ok) = outcome; i = jp_i c;
          submission = (jp_on c, i);
          on_context = i;
          j = jp_other i;
          on_context = (if pushed then j else on_context);
          i = (if \<not> ok then j else i)
      in (submission, \<lparr>jp_i = jp_other i, jp_on = on_context\<rparr>))"

fun jp_run :: "(bool \<times> bool) list \<Rightarrow> just_print \<Rightarrow> (nat \<times> nat) list" where
  "jp_run [] c = [(jp_on c, jp_i c)]"
| "jp_run (outcome # outcomes) c = (let (submission, c1) = jp_round outcome c in submission # jp_run outcomes c1)"

definition jp_start :: just_print where
  "jp_start = \<lparr>jp_i = 0, jp_on = 0\<rparr>"

text \<open>The outcomes of \<open>switch_to\<close>. Undisturbed, the flag is the result of the push; but the push comes
  before the store, and the other thread may resume the coroutine in between, which then reads the
  initial value.\<close>

definition switch_outcome :: "bool \<Rightarrow> ('p, 'k) io_context \<Rightarrow> bool \<times> bool" where
  "switch_outcome disturbed target =
     (let op = \<lparr>sw_ok = False\<rparr>; h = Coro 0; (pushed, op1, target1) = switch_await_suspend h (op, target)
      in (pushed, if pushed \<and> disturbed then switch_await_resume op else switch_await_resume op1))"

lemma switch_outcome_cases:
  "switch_outcome False c \<in> {(True, True), (False, False)}"
  "switch_outcome True c \<in> {(True, False), (False, False)}"
  by (auto simp: switch_outcome_def switch_await_suspend_def switch_store_def switch_await_resume_def
      Let_def split: prod.splits)

section \<open>Lemmas\<close>

lemma jp_run_submissions:
  assumes "set outcomes \<subseteq> {(True, True), (False, False), (True, False)}" "k < length (jp_run outcomes c)"
    and "jp_i c < 2"
  shows "snd (jp_run outcomes c ! k) < 2
    \<and> (fst (jp_run outcomes c ! k) = snd (jp_run outcomes c ! k)
      \<longleftrightarrow> (if k = 0 then jp_on c = jp_i c else outcomes ! (k - 1) \<noteq> (True, False)))"
  using assms
proof (induction outcomes arbitrary: c k)
  case Nil
  then show ?case by simp
next
  case (Cons outcome outcomes)
  let ?c = "snd (jp_round outcome c)"
  have c: "jp_i ?c < 2" "jp_on ?c = jp_i ?c \<longleftrightarrow> outcome \<noteq> (True, False)"
    using Cons.prems(1,3) by (auto simp: jp_round_def jp_other_def Let_def)
  have run: "jp_run (outcome # outcomes) c = (jp_on c, jp_i c) # jp_run outcomes ?c"
    by (simp add: jp_round_def Let_def split: prod.split)
  show ?case
  proof (cases k)
    case 0
    with Cons.prems(3) show ?thesis unfolding run by simp
  next
    case (Suc k')
    with Cons.prems c Cons.IH [of k' ?c] show ?thesis unfolding run by (cases k') simp_all
  qed
qed

lemma length_jp_run [simp]: "length (jp_run outcomes c) = Suc (length outcomes)"
  by (induction outcomes arbitrary: c) (simp_all add: Let_def split_beta)

section \<open>Property\<close>

text \<open>
  C40. The coroutine submits each write to the ring of the thread it runs on, with one exception: after a
  switch in which the other thread resumed it between the push and the store of the flag, it reads that
  the switch failed, keeps the index of the context it has left, and takes an entry of that ring from
  the other thread.
\<close>

theorem writes_on_own_ring_but_for_race:
  fixes cs :: "('p, 'k) io_context list"
  assumes "length cs = length disturbed" and "k \<le> length cs"
  shows "let runs = jp_run (map2 switch_outcome disturbed cs) jp_start; (thread, ring) = runs ! k
    in ring < 2 \<and> (thread \<noteq> ring \<longleftrightarrow> k > 0 \<and> disturbed ! (k - 1) \<and> fst (switch_outcome True (cs ! (k - 1))))"
proof -
  let ?os = "map2 switch_outcome disturbed cs"
  have "switch_outcome d c \<in> {(True, True), (False, False), (True, False)}" for d and c :: "('p, 'k) io_context"
    using switch_outcome_cases [of c] by (cases d) auto
  moreover have "\<exists>d (c :: ('p, 'k) io_context). x = switch_outcome d c" if "x \<in> set ?os" for x using that by (auto intro: exI)
  ultimately have "set ?os \<subseteq> {(True, True), (False, False), (True, False)}" by blast
  from jp_run_submissions [OF this, of k jp_start] assms
  have sub: "snd (jp_run ?os jp_start ! k) < 2 \<and> (fst (jp_run ?os jp_start ! k) = snd (jp_run ?os jp_start ! k)
      \<longleftrightarrow> (if k = 0 then True else ?os ! (k - 1) \<noteq> (True, False)))"
    by (simp add: jp_start_def)
  moreover have "?os ! (k - 1) = (True, False)
      \<longleftrightarrow> disturbed ! (k - 1) \<and> fst (switch_outcome True (cs ! (k - 1)))" if "k > 0"
  proof -
    have "?os ! (k - 1) = switch_outcome (disturbed ! (k - 1)) (cs ! (k - 1))" using assms that by simp
    then show ?thesis
      using switch_outcome_cases [of "cs ! (k - 1)"] by (cases "disturbed ! (k - 1)") auto
  qed
  ultimately show ?thesis by (auto simp: Let_def split_beta)
qed

theorem writes_on_own_ring_but_for_race_witness:
  "jp_run (map2 switch_outcome [False, True] [sample_context [], sample_context []]) jp_start ! 2 = (0, 1)"
proof -
  let ?c = "sample_context []"
  have push: "fst (switch_outcome d ?c)" for d
    by (simp add: switch_outcome_def switch_await_suspend_def switch_push_def push_to_switch_def
        sample_context_def fifo_push_def fifo_new_def fifo_mask_def Let_def)
  with switch_outcome_cases [of ?c] have "switch_outcome False ?c = (True, True)" "switch_outcome True ?c = (True, False)"
    by (metis (no_types, lifting) empty_iff fst_conv insert_iff)+
  moreover from writes_on_own_ring_but_for_race [of "[?c, ?c]" "[False, True]" 2] push
  have "let (thread, ring) = jp_run (map2 switch_outcome [False, True] [?c, ?c]) jp_start ! 2 in thread \<noteq> ring"
    by (simp add: Let_def split_beta)
  ultimately show ?thesis by (simp add: jp_round_def jp_start_def jp_other_def Let_def numeral_2_eq_2)
qed

end
