(* ===== verification/Setup.thy ===== *)
theory Setup
  imports Prelude "HOL-Library.Signed_Division"
begin

text \<open>
  Setting up the rings: \<open>underlying_io_uring\<close> (\<open>uring_exec/underlying_io_uring.h\<close>), the
  constructor of \<open>io_uring_exec\<close> and what its thread-local contexts are constructed from
  (\<open>uring_exec/io_uring_exec_internal.h\<close>), and the parameters for \<open>SQPOLL\<close>
  (\<open>include/feature_sqpoll.h\<close>). \<open>init\<close> is \<open>io_uring_queue_init_params\<close>: from the number of entries,
  the flags and the work queue descriptor to its result and the descriptor of the new ring.
\<close>

record constructor_parameters =
  uring_entries :: u32
  uring_flags :: u32
  sticky :: bool
  ring_fd :: int

record setup_flags =
  SETUP_SINGLE_ISSUER :: u32
  SETUP_COOP_TASKRUN :: u32
  SETUP_ATTACH_WQ :: u32
  SETUP_SQPOLL :: u32

definition default_parameters :: "u32 \<Rightarrow> u32 \<Rightarrow> constructor_parameters" where
  "default_parameters entries flags =
     \<lparr>uring_entries = entries, uring_flags = flags, sticky = False, ring_fd = - 1\<rparr>"

text \<open>\<open>initiate\<close>: the flags and \<open>wq_fd\<close> of the underlying parameters, then the call.\<close>

definition initiate_flags :: "setup_flags \<Rightarrow> constructor_parameters \<Rightarrow> u32" where
  "initiate_flags K params =
     (let as_is = uring_flags params;
          as_is = (if \<not> sticky params
                   then as_is OR SETUP_SINGLE_ISSUER K OR SETUP_COOP_TASKRUN K else as_is);
          as_is = (if \<not> sticky params \<and> ring_fd params > - 1
                   then as_is OR SETUP_ATTACH_WQ K else as_is)
      in as_is)"

definition initiate :: "setup_flags \<Rightarrow> (u32 \<Rightarrow> u32 \<Rightarrow> int \<Rightarrow> int \<times> int) \<Rightarrow> constructor_parameters \<Rightarrow> int result" where
  "initiate K init params =
     (let (err, fd) = init (uring_entries params) (initiate_flags K params) (ring_fd params)
      in if err \<noteq> 0 then Inl (Thrown (- err)) else Inr fd)"

text \<open>The constructor of \<open>io_uring_exec\<close>: initialise the base, copy the parameters to
  \<open>_uring_params\<close>, and then set \<open>ring_fd\<close> of the parameter. The result is \<open>_uring_params\<close>, from
  which \<open>get_local()\<close> constructs each local context. The constructor is \<open>noexcept\<close>, so a throwing
  initialisation terminates.\<close>

definition io_uring_exec_ctor :: "setup_flags \<Rightarrow> (u32 \<Rightarrow> u32 \<Rightarrow> int \<Rightarrow> int \<times> int) \<Rightarrow> constructor_parameters
    \<Rightarrow> constructor_parameters result" where
  "io_uring_exec_ctor K init params = (case initiate K init params of
       Inl e \<Rightarrow> Inl Terminated
     | Inr fd \<Rightarrow> let uring_params = params; params = params\<lparr>ring_fd := fd\<rparr> in Inr uring_params)"

definition local_context_setup :: "setup_flags \<Rightarrow> (u32 \<Rightarrow> u32 \<Rightarrow> int \<Rightarrow> int \<times> int) \<Rightarrow> constructor_parameters \<Rightarrow> int result" where
  "local_context_setup K init uring_params = initiate K init uring_params"

text \<open>A ring attaches to a shared work queue only when it is given one.\<close>

lemma initiate_flags_attach:
  assumes "SETUP_ATTACH_WQ K AND (uring_flags params OR SETUP_SINGLE_ISSUER K OR SETUP_COOP_TASKRUN K) = 0"
    and "SETUP_ATTACH_WQ K \<noteq> 0"
  shows "(initiate_flags K params AND SETUP_ATTACH_WQ K \<noteq> 0) = (\<not> sticky params \<and> - 1 < ring_fd params)"
  using assms
  by (auto simp: initiate_flags_def Let_def bit.conj_disj_distrib bit.conj_disj_distrib2 and.commute
      or_eq_0_iff)

text \<open>The local contexts of an executor constructed without a ring descriptor do not attach to the
  executor's work queue, whatever descriptor its own ring got: the descriptor is set on the
  constructor's parameter after \<open>_uring_params\<close> was copied from it.\<close>

lemma locals_do_not_attach:
  assumes "io_uring_exec_ctor K init (default_parameters entries flags) = Inr uring_params"
  shows "ring_fd uring_params = - 1
    \<and> initiate_flags K uring_params = flags OR SETUP_SINGLE_ISSUER K OR SETUP_COOP_TASKRUN K"
  using assms
  by (auto simp: io_uring_exec_ctor_def default_parameters_def initiate_flags_def Let_def split: sum.splits)

section \<open>SQPOLL\<close>

text \<open>Durations are counts of nanoseconds; \<open>duration_cast\<close> truncates towards zero, and the count is
  converted to the 32-bit field.\<close>

record sqpoll_params =
  sq_params_flags :: u32
  sq_thread_idle :: u32

definition set_sqpoll_params :: "setup_flags \<Rightarrow> int \<Rightarrow> sqpoll_params \<Rightarrow> sqpoll_params" where
  "set_sqpoll_params K thread_idle params =
     params\<lparr>sq_params_flags := sq_params_flags params OR SETUP_SQPOLL K,
       sq_thread_idle := of_int (thread_idle sdiv 1000000)\<rparr>"

definition make_sqpoll_params :: "setup_flags \<Rightarrow> int \<Rightarrow> sqpoll_params" where
  "make_sqpoll_params K thread_idle =
     set_sqpoll_params K thread_idle \<lparr>sq_params_flags = 0, sq_thread_idle = 0\<rparr>"

lemma sqpoll_idle_ms:
  assumes "0 \<le> idle" "idle < 1000000 * 2 ^ 32"
  shows "uint (sq_thread_idle (make_sqpoll_params K idle)) = idle div 1000000"
proof -
  have "idle sdiv 1000000 = idle div 1000000"
    using assms(1) by (cases "idle = 0") (simp_all add: signed_divide_int_def)
  moreover have "0 \<le> idle div 1000000" "idle div 1000000 < 2 ^ 32"
    using assms by (simp_all add: pos_imp_zdiv_nonneg_iff)
  ultimately show ?thesis
    by (simp add: make_sqpoll_params_def set_sqpoll_params_def unsigned_of_int take_bit_int_eq_self_iff)
qed

end
