(* ===== verification/Echo.thy ===== *)
theory Echo
  imports Utils "HOL-Library.Multiset"
begin

text \<open>
  The callback-style echo server (\<open>examples/echo.cpp\<close>): packing an operation code and a descriptor into
  the \<open>user_data\<close> of a completion, the handlers by operation code, and the loop that dispatches
  completions to them.

  \<open>pending\<close> holds the \<open>user_data\<close> of the operations that were submitted and not completed; \<open>bufs\<close> is
  \<open>buf_map\<close>, and \<open>sent\<close> the log of the writes (descriptor and size). Whether an entry is
  left, and the result of \<open>io_uring_submit\<close>, are the fields of \<open>env\<close>.
\<close>

section \<open>user_data\<close>

definition OP_TRAP :: u32 where "OP_TRAP = 0"
definition OP_ACCEPT :: u32 where "OP_ACCEPT = 1"
definition OP_READ :: u32 where "OP_READ = 2"
definition OP_WRITE :: u32 where "OP_WRITE = 3"
definition OP_CLOSE :: u32 where "OP_CLOSE = 4"
definition OP_MAX :: u32 where "OP_MAX = 5"

lemmas OP_defs = OP_TRAP_def OP_ACCEPT_def OP_READ_def OP_WRITE_def OP_CLOSE_def OP_MAX_def

definition data_pack :: "u32 \<Rightarrow> u32 \<Rightarrow> 64 word" where
  "data_pack high32 low32 = push_bit 32 (ucast high32) OR ucast low32"

definition data_unpack :: "64 word \<Rightarrow> u32 \<times> 64 word" where
  "data_unpack data64 = (ucast data64, drop_bit 32 data64)"

lemma data_unpack_pack: "data_unpack (data_pack h l) = (l, ucast h)"
proof -
  have "ucast (data_pack h l) = l"
    by (rule bit_word_eqI) (auto simp: data_pack_def bit_simps)
  moreover have "drop_bit 32 (data_pack h l) = ucast h"
    by (rule bit_word_eqI) (auto simp: data_pack_def bit_simps dest: bit_imp_le_length)
  ultimately show ?thesis by (simp add: data_unpack_def)
qed

lemma data_pack_unpack: "data_pack (ucast (drop_bit 32 d)) (ucast d) = d"
proof (rule bit_word_eqI)
  fix n assume "n < LENGTH(64)"
  then show "bit (data_pack (ucast (drop_bit 32 d)) (ucast d)) n = bit d n"
    by (cases "n < 32") (auto simp: data_pack_def bit_simps)
qed

lemma data_pack_eq [simp]: "data_pack h l = data_pack h' l' \<longleftrightarrow> h = h' \<and> l = l'"
proof
  assume eq: "data_pack h l = data_pack h' l'"
  then have "l = l'" "(ucast h :: 64 word) = ucast h'"
    using data_unpack_pack [of h l] data_unpack_pack [of h' l'] by simp_all
  moreover have "ucast (ucast x :: 64 word) = x" for x :: u32
    by (rule bit_word_eqI) (auto simp: bit_simps)
  ultimately show "h = h' \<and> l = l'" by metis
qed simp

section \<open>State and handlers\<close>

record echo =
  pending_ops :: "64 word multiset"
  bufs :: "u32 \<Rightarrow> char list option"
  sent :: "(u32 \<times> int) list"

record echo_env =
  sqe_left :: "echo \<Rightarrow> bool"
  submit_result :: "echo \<Rightarrow> int"

definition echo_async_operation :: "echo_env \<Rightarrow> 64 word \<Rightarrow> echo \<Rightarrow> echo result" where
  "echo_async_operation env user_data s =
     (if \<not> sqe_left env s then Inl Null_deref
      else let s1 = s\<lparr>pending_ops := pending_ops s + {#user_data#}\<rparr>
        in and_then (snd (nofail_less_equal (submit_result env s1) 0)) (\<lambda>_. Inr s1))"

definition echo_async_accept :: "echo_env \<Rightarrow> echo \<Rightarrow> echo result" where
  "echo_async_accept env s = echo_async_operation env (data_pack 0 OP_ACCEPT) s"

definition echo_async_read :: "echo_env \<Rightarrow> u32 \<Rightarrow> echo \<Rightarrow> echo result" where
  "echo_async_read env client_fd s = echo_async_operation env (data_pack client_fd OP_READ) s"

definition echo_async_write :: "echo_env \<Rightarrow> u32 \<Rightarrow> int \<Rightarrow> echo \<Rightarrow> echo result" where
  "echo_async_write env client_fd size_bytes s =
     echo_async_operation env (data_pack client_fd OP_WRITE)
       (s\<lparr>sent := sent s @ [(client_fd, size_bytes)]\<rparr>)"

definition echo_async_close :: "echo_env \<Rightarrow> u32 \<Rightarrow> echo \<Rightarrow> echo result" where
  "echo_async_close env client_fd s = echo_async_operation env (data_pack client_fd OP_CLOSE) s"

text \<open>\<open>buf_map[client_fd]\<close> makes an entry when there is none.\<close>

definition buf_at :: "u32 \<Rightarrow> echo \<Rightarrow> char list \<times> echo" where
  "buf_at client_fd s = (case bufs s client_fd of
       Some b \<Rightarrow> (b, s)
     | None \<Rightarrow> let b = replicate 4096 (CHR 0x00) in (b, s\<lparr>bufs := (bufs s)(client_fd \<mapsto> b)\<rparr>))"

definition on_accept :: "echo_env \<Rightarrow> int \<Rightarrow> echo \<Rightarrow> echo result" where
  "on_accept env res s = and_then (snd (nofail_less res 0)) (\<lambda>client_fd.
     let (buf, s1) = buf_at (of_int client_fd) s
     in and_then (echo_async_read env (of_int client_fd) s1) (echo_async_accept env))"

definition on_read :: "echo_env \<Rightarrow> u32 \<Rightarrow> int \<Rightarrow> echo \<Rightarrow> echo result" where
  "on_read env client_fd res s = and_then (snd (nofail_less res 0)) (\<lambda>size_bytes.
     let (buf, s1) = buf_at client_fd s in echo_async_write env client_fd size_bytes s1)"

definition on_write :: "echo_env \<Rightarrow> u32 \<Rightarrow> int \<Rightarrow> echo \<Rightarrow> echo result" where
  "on_write env client_fd res s = and_then (snd (nofail_less res 0)) (\<lambda>size_bytes.
     let (buf, s1) = buf_at client_fd s;
         close_proactive = (size_bytes > 2 \<and> buf ! 0 = CHR ''Z'' \<and> buf ! 1 = CHR ''z'');
         close_reactive = (size_bytes = 0)
     in if close_reactive \<or> close_proactive
        then and_then (echo_async_close env client_fd s1)
          (\<lambda>s2. Inr (s2\<lparr>bufs := (bufs s2)(client_fd := None)\<rparr>))
        else echo_async_read env client_fd s1)"

text \<open>The body of the loop for one completion: \<open>handlers[op]\<close> is out of range from \<open>OP_MAX\<close> on, and
  there is no handler for \<open>OP_CLOSE\<close>.\<close>

definition echo_dispatch :: "echo_env \<Rightarrow> 64 word \<Rightarrow> int \<Rightarrow> echo \<Rightarrow> echo result" where
  "echo_dispatch env cqe_user_data cqe_res s =
     (let (op, user_data) = data_unpack cqe_user_data; fd = ucast user_data
      in if op \<ge> OP_MAX then Inl Dangling
         else if op = OP_TRAP then Inl Terminated
         else if op = OP_ACCEPT then on_accept env cqe_res s
         else if op = OP_READ then on_read env fd cqe_res s
         else if op = OP_WRITE then on_write env fd cqe_res s
         else Inr s)"

definition echo_start :: "echo_env \<Rightarrow> echo result" where
  "echo_start env = echo_async_accept env \<lparr>pending_ops = {#}, bufs = (\<lambda>_. None), sent = []\<rparr>"

text \<open>One round of the loop: some pending operation completes with any result; a read may change the
  buffer, and an accepted descriptor is not one of an open client.\<close>

definition complete_op :: "64 word \<Rightarrow> char list \<Rightarrow> echo \<Rightarrow> echo" where
  "complete_op d bytes s =
     (let s1 = s\<lparr>pending_ops := pending_ops s - {#d#}\<rparr>; fd = ucast (drop_bit 32 d)
      in if ucast d = OP_READ \<and> bufs s fd \<noteq> None then s1\<lparr>bufs := (bufs s1)(fd \<mapsto> bytes)\<rparr> else s1)"

inductive echo_reachable :: "echo_env \<Rightarrow> echo \<Rightarrow> bool" for env where
  echo_begin: "echo_start env = Inr s \<Longrightarrow> echo_reachable env s"
| echo_round: "echo_reachable env s \<Longrightarrow> d \<in># pending_ops s \<Longrightarrow>
     (fst (data_unpack d) = OP_ACCEPT \<Longrightarrow> bufs s (of_int res) = None) \<Longrightarrow>
     echo_dispatch env d res (complete_op d bytes s) = Inr t \<Longrightarrow> echo_reachable env t"

section \<open>Invariant\<close>

definition client_ops :: "echo \<Rightarrow> u32 \<Rightarrow> nat" where
  "client_ops s fd = count (pending_ops s) (data_pack fd OP_READ)
     + count (pending_ops s) (data_pack fd OP_WRITE)"

definition echo_inv :: "echo \<Rightarrow> bool" where
  "echo_inv s \<longleftrightarrow> count (pending_ops s) (data_pack 0 OP_ACCEPT) = 1
     \<and> (\<forall>fd. client_ops s fd = (if bufs s fd = None then 0 else 1))
     \<and> (\<forall>d \<in># pending_ops s. d = data_pack 0 OP_ACCEPT
          \<or> (\<exists>fd. d = data_pack fd OP_READ \<or> d = data_pack fd OP_WRITE \<or> d = data_pack fd OP_CLOSE))"

lemma echo_async_operation_Inr [simp]:
  "echo_async_operation env d s = Inr t \<Longrightarrow> t = s\<lparr>pending_ops := pending_ops s + {#d#}\<rparr>"
  by (auto simp: echo_async_operation_def Let_def split: if_splits)

lemma OP_distinct [simp]:
  "OP_ACCEPT \<noteq> OP_READ" "OP_ACCEPT \<noteq> OP_WRITE" "OP_ACCEPT \<noteq> OP_CLOSE" "OP_READ \<noteq> OP_WRITE"
  "OP_READ \<noteq> OP_CLOSE" "OP_WRITE \<noteq> OP_CLOSE" "OP_READ \<noteq> OP_ACCEPT" "OP_WRITE \<noteq> OP_ACCEPT"
  "OP_CLOSE \<noteq> OP_ACCEPT" "OP_WRITE \<noteq> OP_READ" "OP_CLOSE \<noteq> OP_READ" "OP_CLOSE \<noteq> OP_WRITE"
  "OP_ACCEPT \<noteq> OP_TRAP" "OP_READ \<noteq> OP_TRAP" "OP_WRITE \<noteq> OP_TRAP" "OP_CLOSE \<noteq> OP_TRAP"
  "\<not> OP_ACCEPT \<ge> OP_MAX" "\<not> OP_READ \<ge> OP_MAX" "\<not> OP_WRITE \<ge> OP_MAX" "\<not> OP_CLOSE \<ge> OP_MAX"
  by (simp_all add: OP_defs word_le_nat_alt)

lemma echo_invD:
  assumes "echo_inv s"
  shows "count (pending_ops s) (data_pack 0 OP_ACCEPT) = 1"
    "count (pending_ops s) (data_pack fd OP_READ) + count (pending_ops s) (data_pack fd OP_WRITE)
      = (if bufs s fd = None then 0 else 1)"
    "d \<in># pending_ops s \<Longrightarrow> d = data_pack 0 OP_ACCEPT
      \<or> (\<exists>fd. d = data_pack fd OP_READ \<or> d = data_pack fd OP_WRITE \<or> d = data_pack fd OP_CLOSE)"
  using assms unfolding echo_inv_def client_ops_def by blast+

lemma echo_start_inv: "echo_start env = Inr s \<Longrightarrow> echo_inv s"
  by (auto simp: echo_start_def echo_async_accept_def echo_inv_def client_ops_def
      dest!: echo_async_operation_Inr)

lemma ucast_fd [simp]: "ucast (ucast (fd :: u32) :: 64 word) = fd"
  by (rule bit_word_eqI) (auto simp: bit_simps)

lemma pack_parts [simp]: "ucast (data_pack fd op) = op" "ucast (drop_bit 32 (data_pack fd op)) = fd"
  using data_unpack_pack [of fd op] by (simp_all add: data_unpack_def)

text \<open>Replacing one pending operation of a client by another keeps its count.\<close>

lemma echo_accept_inv:
  assumes "echo_inv s" "data_pack 0 OP_ACCEPT \<in># pending_ops s" "bufs s (of_int res) = None"
    and "on_accept env res (complete_op (data_pack 0 OP_ACCEPT) bytes s) = Inr t"
  shows "echo_inv t"
proof -
  let ?fd = "of_int res :: u32" and ?b = "replicate 4096 (CHR 0x00)"
  have t: "t = s\<lparr>bufs := (bufs s)(?fd \<mapsto> ?b), pending_ops := pending_ops s - {#data_pack 0 OP_ACCEPT#}
      + {#data_pack ?fd OP_READ#} + {#data_pack 0 OP_ACCEPT#}\<rparr>"
    using assms(3,4) by (auto simp: on_accept_def complete_op_def buf_at_def Let_def nofail_less_def nofail_def
        echo_async_read_def echo_async_accept_def dest!: echo_async_operation_Inr split: if_splits)
  show ?thesis unfolding echo_inv_def
  proof (intro conjI allI)
    show "count (pending_ops t) (data_pack 0 OP_ACCEPT) = 1" using echo_invD(1) [OF assms(1)] by (simp add: t)
    show "client_ops t f = (if bufs t f = None then 0 else 1)" for f
      using echo_invD(2) [OF assms(1), of f] assms(3) by (cases "f = ?fd") (simp_all add: t client_ops_def)
    show "\<forall>d \<in># pending_ops t. d = data_pack 0 OP_ACCEPT
      \<or> (\<exists>fd. d = data_pack fd OP_READ \<or> d = data_pack fd OP_WRITE \<or> d = data_pack fd OP_CLOSE)"
      using echo_invD(3) [OF assms(1)] by (auto simp: t dest!: in_diffD)
  qed
qed

lemma echo_read_inv:
  assumes "echo_inv s" "data_pack fd OP_READ \<in># pending_ops s"
    and "on_read env fd res (complete_op (data_pack fd OP_READ) bytes s) = Inr t"
  shows "echo_inv t"
proof -
  have pos: "0 < count (pending_ops s) (data_pack fd OP_READ)" using assms(2) by simp
  note cnt = echo_invD(2) [OF assms(1), of fd]
  have live: "bufs s fd \<noteq> None"
  proof
    assume "bufs s fd = None"
    with cnt have "count (pending_ops s) (data_pack fd OP_READ) + count (pending_ops s) (data_pack fd OP_WRITE) = 0"
      by (simp only: if_True simp_thms)
    with pos show False by linarith
  qed
  then have "count (pending_ops s) (data_pack fd OP_READ) + count (pending_ops s) (data_pack fd OP_WRITE) = 1"
    using cnt by (simp only: if_False)
  with pos have one: "count (pending_ops s) (data_pack fd OP_READ) = 1" "count (pending_ops s) (data_pack fd OP_WRITE) = 0"
    by linarith+
  have t: "t = s\<lparr>pending_ops := pending_ops s - {#data_pack fd OP_READ#} + {#data_pack fd OP_WRITE#},
      bufs := (bufs s)(fd \<mapsto> bytes), sent := sent s @ [(fd, res)]\<rparr>"
    using assms(3) live by (auto simp: on_read_def complete_op_def buf_at_def Let_def nofail_less_def nofail_def
        echo_async_write_def dest!: echo_async_operation_Inr split: if_splits)
  show ?thesis unfolding echo_inv_def
  proof (intro conjI allI)
    show "count (pending_ops t) (data_pack 0 OP_ACCEPT) = 1" using echo_invD(1) [OF assms(1)] by (simp add: t)
    show "client_ops t f = (if bufs t f = None then 0 else 1)" for f
      using echo_invD(2) [OF assms(1), of f] one by (cases "f = fd") (simp_all add: t client_ops_def)
    show "\<forall>d \<in># pending_ops t. d = data_pack 0 OP_ACCEPT
      \<or> (\<exists>fd. d = data_pack fd OP_READ \<or> d = data_pack fd OP_WRITE \<or> d = data_pack fd OP_CLOSE)"
      using echo_invD(3) [OF assms(1)] by (auto simp: t dest!: in_diffD)
  qed
qed

lemma echo_write_inv:
  assumes "echo_inv s" "data_pack fd OP_WRITE \<in># pending_ops s"
    and "on_write env fd res (complete_op (data_pack fd OP_WRITE) bytes s) = Inr t"
  shows "echo_inv t"
proof -
  have pos: "0 < count (pending_ops s) (data_pack fd OP_WRITE)" using assms(2) by simp
  note cnt = echo_invD(2) [OF assms(1), of fd]
  have live: "bufs s fd \<noteq> None"
  proof
    assume "bufs s fd = None"
    with cnt have "count (pending_ops s) (data_pack fd OP_READ) + count (pending_ops s) (data_pack fd OP_WRITE) = 0"
      by (simp only: if_True simp_thms)
    with pos show False by linarith
  qed
  then have "count (pending_ops s) (data_pack fd OP_READ) + count (pending_ops s) (data_pack fd OP_WRITE) = 1"
    using cnt by (simp only: if_False)
  with pos have one: "count (pending_ops s) (data_pack fd OP_WRITE) = 1" "count (pending_ops s) (data_pack fd OP_READ) = 0"
    by linarith+
  have t: "t = s\<lparr>pending_ops := pending_ops s - {#data_pack fd OP_WRITE#} + {#data_pack fd OP_CLOSE#},
        bufs := (bufs s)(fd := None)\<rparr>
    \<or> t = s\<lparr>pending_ops := pending_ops s - {#data_pack fd OP_WRITE#} + {#data_pack fd OP_READ#}\<rparr>"
    using assms(3) live by (auto simp: on_write_def complete_op_def buf_at_def Let_def nofail_less_def nofail_def
        echo_async_close_def echo_async_read_def dest!: echo_async_operation_Inr split: if_splits)
  show ?thesis unfolding echo_inv_def
  proof (intro conjI allI)
    show "count (pending_ops t) (data_pack 0 OP_ACCEPT) = 1"
      using t echo_invD(1) [OF assms(1)] by auto
    show "client_ops t f = (if bufs t f = None then 0 else 1)" for f
      using t echo_invD(2) [OF assms(1), of f] one live by (cases "f = fd") (auto simp: client_ops_def)
    show "\<forall>d \<in># pending_ops t. d = data_pack 0 OP_ACCEPT
      \<or> (\<exists>fd. d = data_pack fd OP_READ \<or> d = data_pack fd OP_WRITE \<or> d = data_pack fd OP_CLOSE)"
    proof
      fix d assume "d \<in># pending_ops t"
      then have "d \<in># pending_ops s \<or> d = data_pack fd OP_CLOSE \<or> d = data_pack fd OP_READ"
        using t by (auto dest: in_diffD)
      with echo_invD(3) [OF assms(1), of d] show "d = data_pack 0 OP_ACCEPT
        \<or> (\<exists>fd. d = data_pack fd OP_READ \<or> d = data_pack fd OP_WRITE \<or> d = data_pack fd OP_CLOSE)"
        by blast
    qed
  qed
qed

lemma echo_close_inv:
  assumes "echo_inv s" "t = complete_op (data_pack fd OP_CLOSE) bytes s"
  shows "echo_inv t"
  using assms by (auto simp: echo_inv_def client_ops_def complete_op_def dest: in_diffD)

lemma echo_reachable_inv: "echo_reachable env s \<Longrightarrow> echo_inv s"
proof (induction rule: echo_reachable.induct)
  case (echo_begin s)
  then show ?case by (rule echo_start_inv)
next
  case (echo_round s d res bytes t)
  from echo_round.IH echo_round.hyps(2)
  consider "d = data_pack 0 OP_ACCEPT" | fd where "d = data_pack fd OP_READ"
    | fd where "d = data_pack fd OP_WRITE" | fd where "d = data_pack fd OP_CLOSE"
    unfolding echo_inv_def by blast
  then show ?case
  proof cases
    case 1
    with echo_round echo_accept_inv [of s res env bytes t] show ?thesis
      by (simp add: echo_dispatch_def data_unpack_pack)
  next
    case (2 fd)
    with echo_round echo_read_inv [of s fd env res bytes t] show ?thesis
      by (simp add: echo_dispatch_def data_unpack_pack)
  next
    case (3 fd)
    with echo_round echo_write_inv [of s fd env res bytes t] show ?thesis
      by (simp add: echo_dispatch_def data_unpack_pack)
  next
    case (4 fd)
    with echo_round echo_close_inv [of s t fd bytes] show ?thesis
      by (simp add: echo_dispatch_def data_unpack_pack)
  qed
qed

section \<open>Properties\<close>

text \<open>
  C33. The server keeps exactly one operation per client: in every state that the loop reaches, whatever
  the completions and their order, one accept is pending, each client with a buffer has exactly one
  pending read or write, a descriptor without a buffer has none, and no completion can be dispatched
  to the trap or past the end of the handlers.
\<close>

theorem echo_one_operation_per_client:
  assumes "echo_reachable env s"
  shows "count (pending_ops s) (data_pack 0 OP_ACCEPT) = 1
    \<and> (\<forall>fd. count (pending_ops s) (data_pack fd OP_READ) + count (pending_ops s) (data_pack fd OP_WRITE)
         = (if bufs s fd = None then 0 else 1))
    \<and> (\<forall>d \<in># pending_ops s. fst (data_unpack d) < OP_MAX \<and> fst (data_unpack d) \<noteq> OP_TRAP)"
proof -
  have inv: "echo_inv s" by (rule echo_reachable_inv [OF assms])
  have "fst (data_unpack d) < OP_MAX \<and> fst (data_unpack d) \<noteq> OP_TRAP" if "d \<in># pending_ops s" for d
    using inv that unfolding echo_inv_def by (auto simp: data_unpack_pack OP_defs)
  with inv show ?thesis by (simp add: echo_inv_def client_ops_def)
qed

definition sample_echo_env :: echo_env where
  "sample_echo_env = \<lparr>sqe_left = (\<lambda>_. True), submit_result = (\<lambda>_. 1)\<rparr>"

theorem echo_one_operation_per_client_witness:
  "\<exists>t. echo_reachable sample_echo_env t \<and> bufs t 7 \<noteq> None
     \<and> count (pending_ops t) (data_pack 7 OP_READ) + count (pending_ops t) (data_pack 7 OP_WRITE) = 1"
proof -
  let ?s = "\<lparr>pending_ops = {#data_pack 0 OP_ACCEPT#}, bufs = (\<lambda>_. None), sent = []\<rparr>"
  have "echo_start sample_echo_env = Inr ?s"
    by (simp add: echo_start_def echo_async_accept_def echo_async_operation_def sample_echo_env_def
        nofail_less_equal_def nofail_def)
  then have r: "echo_reachable sample_echo_env ?s" by (rule echo_begin)
  have "\<exists>t. echo_dispatch sample_echo_env (data_pack 0 OP_ACCEPT) 7 (complete_op (data_pack 0 OP_ACCEPT) [] ?s) = Inr t
      \<and> bufs t 7 \<noteq> None"
    by (simp add: echo_dispatch_def data_unpack_pack on_accept_def complete_op_def buf_at_def
        echo_async_accept_def echo_async_read_def echo_async_operation_def sample_echo_env_def
        nofail_less_equal_def nofail_less_def nofail_def Let_def)
  then obtain t where t: "echo_dispatch sample_echo_env (data_pack 0 OP_ACCEPT) 7
      (complete_op (data_pack 0 OP_ACCEPT) [] ?s) = Inr t" "bufs t 7 \<noteq> None" by blast
  have "echo_reachable sample_echo_env t"
    by (rule echo_round [OF r _ _ t(1)]) simp_all
  from echo_one_operation_per_client [OF this] this t(2) show ?thesis by auto
qed

end
