(* ===== verification/EchoCoroutine.thy ===== *)
theory EchoCoroutine
  imports Echo
begin

text \<open>
  The echo server written with coroutines (\<open>examples/echo_coroutine.cpp\<close>), and its equivalence with the
  callback server of \<open>examples/echo.cpp\<close> (\<open>Echo\<close>).

  A coroutine is the point at which it is suspended and the locals that live across it; resuming it with
  the result of the operation it awaits yields its next state and the next operation it requests.
  What is printed is left out, as in \<open>Echo\<close>.
\<close>

section \<open>The coroutine\<close>

text \<open>The points of suspension of \<open>echo\<close>: the three \<open>co_await\<close>s, and the final one.\<close>

datatype echo_point = Await_read | Await_write | Await_close | Finished

record echo_co =
  point :: echo_point
  co_buf :: "char list"

datatype request =
    Req_read u32 nat
  | Req_write u32 int
  | Req_close u32
  | Req_accept

text \<open>Starting \<open>echo(uring, client_fd)\<close> runs it to its first \<open>co_await\<close>.\<close>

definition echo_co_start :: "u32 \<Rightarrow> echo_co \<times> request" where
  "echo_co_start client_fd =
     (\<lparr>point = Await_read, co_buf = replicate 4096 (CHR 0x00)\<rparr>, Req_read client_fd 4096)"

text \<open>\<open>res\<close> is the awaited result and \<open>bytes\<close> the contents of \<open>buf\<close> after a read.\<close>

definition echo_co_resume :: "u32 \<Rightarrow> int \<Rightarrow> char list \<Rightarrow> echo_co \<Rightarrow> (echo_co \<times> request option) result" where
  "echo_co_resume client_fd res bytes c = (case point c of
     Await_read \<Rightarrow> and_then (snd (nofail_less res 0))
       (\<lambda>n. Inr (\<lparr>point = Await_write, co_buf = bytes\<rparr>, Some (Req_write client_fd n)))
   | Await_write \<Rightarrow> and_then (snd (nofail_less res 0))
       (\<lambda>n. let buf = co_buf c;
              close_proactive = (n > 2 \<and> buf ! 0 = CHR ''Z'' \<and> buf ! 1 = CHR ''z'');
              close_reactive = (n = 0)
          in if close_reactive \<or> close_proactive
             then Inr (c\<lparr>point := Await_close\<rparr>, Some (Req_close client_fd))
             else Inr (c\<lparr>point := Await_read\<rparr>, Some (Req_read client_fd 4096)))
   | Await_close \<Rightarrow> Inr (c\<lparr>point := Finished\<rparr>, None)
   | Finished \<Rightarrow> Inl Dangling)"

text \<open>\<open>server\<close>: one round of its loop, with the coroutine it spawns; the loop then awaits the next accept.\<close>

definition server_co_resume :: "int \<Rightarrow> ((echo_co \<times> request) \<times> request) result" where
  "server_co_resume res = and_then (snd (nofail_less res 0))
     (\<lambda>client_fd. Inr (echo_co_start (of_int client_fd), Req_accept))"

section \<open>Running one client\<close>

text \<open>The sizes that the coroutine writes when its operations complete with \<open>inputs\<close>.\<close>

definition written :: "request option \<Rightarrow> int list" where
  "written r = (case r of Some (Req_write fd n) \<Rightarrow> [n] | _ \<Rightarrow> [])"

fun co_run :: "u32 \<Rightarrow> (int \<times> char list) list \<Rightarrow> echo_co \<Rightarrow> (echo_co \<times> int list) result" where
  "co_run fd [] c = Inr (c, [])"
| "co_run fd ((res, bytes) # inputs) c = and_then (echo_co_resume fd res bytes c)
     (\<lambda>(c1, r). and_then (co_run fd inputs c1) (\<lambda>(c2, ws). Inr (c2, written r @ ws)))"

text \<open>The callback server on the same inputs: the pending operation of the client completes.\<close>

definition client_op :: "echo \<Rightarrow> u32 \<Rightarrow> u32 option" where
  "client_op s fd = (if data_pack fd OP_READ \<in># pending_ops s then Some OP_READ
     else if data_pack fd OP_WRITE \<in># pending_ops s then Some OP_WRITE
     else if data_pack fd OP_CLOSE \<in># pending_ops s then Some OP_CLOSE else None)"

fun cb_run :: "echo_env \<Rightarrow> u32 \<Rightarrow> (int \<times> char list) list \<Rightarrow> echo \<Rightarrow> echo result" where
  "cb_run env fd [] s = Inr s"
| "cb_run env fd ((res, bytes) # inputs) s = (case client_op s fd of
     None \<Rightarrow> Inl Dangling
   | Some op \<Rightarrow> let d = data_pack fd op in
       and_then (echo_dispatch env d res (complete_op d bytes s)) (cb_run env fd inputs))"

section \<open>Simulation\<close>

text \<open>The callback server's view of the client agrees with the coroutine: the same operation is pending
  and no other, and the buffer is the same while there is one.\<close>

definition pending_of :: "echo_point \<Rightarrow> u32 option" where
  "pending_of p = (case p of Await_read \<Rightarrow> Some OP_READ | Await_write \<Rightarrow> Some OP_WRITE
     | Await_close \<Rightarrow> Some OP_CLOSE | Finished \<Rightarrow> None)"

definition echo_sim :: "u32 \<Rightarrow> echo \<Rightarrow> echo_co \<Rightarrow> bool" where
  "echo_sim fd s c \<longleftrightarrow>
     (\<forall>op \<in> {OP_READ, OP_WRITE, OP_CLOSE}. count (pending_ops s) (data_pack fd op)
        = (if pending_of (point c) = Some op then 1 else 0))
     \<and> bufs s fd = (if point c \<in> {Await_read, Await_write} then Some (co_buf c) else None)"

text \<open>Submission entries do not run out and submitting succeeds.\<close>

definition submits :: "echo_env \<Rightarrow> bool" where
  "submits env \<longleftrightarrow> (\<forall>s. sqe_left env s \<and> submit_result env s > 0)"

lemma submits_operation:
  "submits env \<Longrightarrow> echo_async_operation env d s = Inr (s\<lparr>pending_ops := pending_ops s + {#d#}\<rparr>)"
  by (simp add: submits_def echo_async_operation_def nofail_less_equal_def nofail_def not_le Let_def)

lemma echo_sim_client_op: "echo_sim fd s c \<Longrightarrow> client_op s fd = pending_of (point c)"
  by (cases "point c") (auto simp: echo_sim_def client_op_def pending_of_def count_eq_zero_iff [symmetric]
      simp del: count_eq_zero_iff)

lemma count_pack [simp]:
  "count {#data_pack fd op#} (data_pack fd' op') = (if fd = fd' \<and> op = op' then 1 else 0)"
  by simp

text \<open>One completion: both fault, or both go on in related states.\<close>

lemma echo_step_sim:
  assumes sim: "echo_sim fd s c" and env: "submits env" and op: "pending_of (point c) = Some op"
  shows "case echo_co_resume fd res bytes c of
      Inl e \<Rightarrow> echo_dispatch env (data_pack fd op) res (complete_op (data_pack fd op) bytes s) = Inl e
    | Inr (c', r) \<Rightarrow> \<exists>t. echo_dispatch env (data_pack fd op) res (complete_op (data_pack fd op) bytes s) = Inr t
        \<and> echo_sim fd t c' \<and> sent t = sent s @ map (Pair fd) (written r)"
proof -
  note cnt = sim [unfolded echo_sim_def]
  show ?thesis
  proof (cases "point c")
    case Await_read
    with op have [simp]: "op = OP_READ" by (simp add: pending_of_def)
    have b: "bufs s fd = Some (co_buf c)" using cnt Await_read by simp
    show ?thesis
    proof (cases "res < 0")
      case True
      with Await_read show ?thesis
        by (simp add: echo_co_resume_def nofail_less_def nofail_def echo_dispatch_def data_unpack_pack on_read_def)
    next
      case False
      with Await_read b cnt show ?thesis
        by (simp add: echo_co_resume_def nofail_less_def nofail_def echo_dispatch_def data_unpack_pack on_read_def
            complete_op_def buf_at_def echo_async_write_def submits_operation [OF env] Let_def
            echo_sim_def pending_of_def written_def)
    qed
  next
    case Await_write
    with op have [simp]: "op = OP_WRITE" by (simp add: pending_of_def)
    have b: "bufs s fd = Some (co_buf c)" using cnt Await_write by simp
    show ?thesis
    proof (cases "res < 0")
      case True
      with Await_write show ?thesis
        by (simp add: echo_co_resume_def nofail_less_def nofail_def echo_dispatch_def data_unpack_pack on_write_def)
    next
      case False
      with Await_write b cnt show ?thesis
        by (simp add: echo_co_resume_def nofail_less_def nofail_def echo_dispatch_def data_unpack_pack on_write_def
            complete_op_def buf_at_def echo_async_read_def echo_async_close_def submits_operation [OF env] Let_def
            echo_sim_def pending_of_def written_def)
    qed
  next
    case Await_close
    with op have [simp]: "op = OP_CLOSE" by (simp add: pending_of_def)
    from Await_close cnt show ?thesis
      by (simp add: echo_co_resume_def echo_dispatch_def data_unpack_pack complete_op_def Let_def
          echo_sim_def pending_of_def written_def)
  next
    case Finished
    with op show ?thesis by (simp add: pending_of_def)
  qed
qed

text \<open>Accepting a client puts both servers in agreement: the callback server has the read pending and the
  buffer in its map when the coroutine has been spawned and runs to its first \<open>co_await\<close>.\<close>

lemma accept_starts_in_agreement:
  assumes env: "submits env" and res: "0 \<le> res" and new: "bufs s (of_int res) = None"
    and none: "\<forall>op \<in> {OP_READ, OP_WRITE, OP_CLOSE}. count (pending_ops s) (data_pack (of_int res) op) = 0"
  shows "\<exists>t c r. on_accept env res s = Inr t \<and> server_co_resume res = Inr ((c, r), Req_accept)
    \<and> r = Req_read (of_int res) 4096 \<and> echo_sim (of_int res) t c"
proof -
  from new none show ?thesis
    using res by (auto simp: on_accept_def server_co_resume_def nofail_less_def nofail_def buf_at_def
        echo_async_read_def echo_async_accept_def submits_operation [OF env] Let_def echo_co_start_def
        echo_sim_def pending_of_def)
qed



end
