(* ===== verification/Cat.thy ===== *)
theory Cat
  imports Prelude
begin

text \<open>
  Splitting a file into chunks for one vectored read and printing what was read:
  \<open>make_iovecs_with_buf\<close> and \<open>print_to_stdout\<close> (\<open>examples/cat.cpp\<close>). Sizes are \<open>size_t\<close>; an
  entry's base pointer is modelled by its offset in the buffer.
\<close>

record iovec =
  iov_off :: size_t
  iov_len :: size_t

definition chunks_of :: "size_t \<Rightarrow> size_t \<Rightarrow> size_t" where
  "chunks_of size_bytes chunk_size = (size_bytes + chunk_size - 1) div chunk_size"

text \<open>The generator: \<open>chunks\<close> times, with \<open>offset\<close> carried along.\<close>

fun generate_iovecs :: "nat \<Rightarrow> size_t \<Rightarrow> size_t \<Rightarrow> size_t \<Rightarrow> iovec list" where
  "generate_iovecs 0 size_bytes chunk_size offset = []"
| "generate_iovecs (Suc chunks) size_bytes chunk_size offset =
     (let iov = \<lparr>iov_off = offset, iov_len = min (size_bytes - offset) chunk_size\<rparr>
      in iov # generate_iovecs chunks size_bytes chunk_size (offset + iov_len iov))"

definition make_iovecs_with_buf :: "size_t \<Rightarrow> size_t \<Rightarrow> iovec list result" where
  "make_iovecs_with_buf size_bytes chunk_size =
     (if \<not> chunk_size > 0 then Inl Assertion_failed
      else Inr (generate_iovecs (unat (chunks_of size_bytes chunk_size)) size_bytes chunk_size 0))"

text \<open>What one entry copies out of the buffer, and the whole output.\<close>

definition iov_data :: "'b list \<Rightarrow> iovec \<Rightarrow> 'b list" where
  "iov_data buf iov = take (unat (iov_len iov)) (drop (unat (iov_off iov)) buf)"

definition print_to_stdout :: "'b list \<Rightarrow> iovec list \<Rightarrow> size_t \<Rightarrow> size_t \<Rightarrow> 'b list result" where
  "print_to_stdout buf iovecs size_bytes chunk_size =
     (if \<not> chunk_size > 0 then Inl Assertion_failed
      else if unat (chunks_of size_bytes chunk_size) \<noteq> length iovecs then Inl Assertion_failed
      else Inr (concat (map (iov_data buf) iovecs)))"

section \<open>Lemmas\<close>

lemma chunks_of_ceiling:
  assumes "0 < unat c" "unat n + unat c \<le> 2 ^ 64"
  shows "unat (chunks_of n c) = (unat n + unat c - 1) div unat c"
proof -
  have "n + c - 1 = of_nat (unat n + unat c - 1)"
    using assms(1) by (simp add: of_nat_diff)
  moreover have "unat n + unat c - 1 < 2 ^ 64" using assms by linarith
  ultimately have "unat (n + c - 1) = unat n + unat c - 1" by (simp add: unat_count)
  then show ?thesis by (simp add: chunks_of_def unat_div)
qed

text \<open>The entries from an offset on cover the rest of the buffer.\<close>

lemma chunks_Suc:
  fixes c r :: nat
  assumes c: "0 < c" and k: "Suc k = (r + c - 1) div c"
  shows "0 < r" and "k = (r - min r c + c - 1) div c"
proof -
  show r: "0 < r"
  proof (rule ccontr)
    assume "\<not> 0 < r"
    then have "(r + c - 1) div c = 0" using c by simp
    with k show False by simp
  qed
  show "k = (r - min r c + c - 1) div c"
  proof (cases "r \<le> c")
    case True
    then have "(r + c - 1) div c = 1" using r by (intro div_nat_eqI) auto
    with k True c show ?thesis by simp
  next
    case False
    then have "(r + c - 1) div c = Suc ((r - c + c - 1) div c)" using c by (simp add: le_div_geq)
    with k False show ?thesis by simp
  qed
qed

lemma unat_chunk:
  fixes n off c :: "64 word"
  assumes "unat off \<le> unat n"
  shows "unat (min (n - off) c) = min (unat n - unat off) (unat c)"
    and "unat (off + min (n - off) c) = unat off + min (unat n - unat off) (unat c)"
proof -
  have "unat (n - off) = unat n - unat off" using assms by (simp add: unat_sub word_le_nat_alt)
  then show l: "unat (min (n - off) c) = min (unat n - unat off) (unat c)"
    by (simp add: min_def word_le_nat_alt)
  have "unat off + unat (min (n - off) c) \<le> unat n" using l assms by simp
  moreover have "unat n < 2 ^ 64" using unsigned_less [of n] by simp
  ultimately have "unat off + unat (min (n - off) c) < 2 ^ 64" by linarith
  then show "unat (off + min (n - off) c) = unat off + min (unat n - unat off) (unat c)"
    using l by (simp add: unat_word_ariths)
qed

lemma generate_covers:
  assumes "0 < unat c" "length buf = unat n" "unat off \<le> unat n"
    and "k = (unat n - unat off + unat c - 1) div unat c"
  shows "concat (map (iov_data buf) (generate_iovecs k n c off)) = drop (unat off) buf
    \<and> length (generate_iovecs k n c off) = k
    \<and> (\<forall>iov \<in> set (generate_iovecs k n c off). 0 < unat (iov_len iov) \<and> iov_len iov \<le> c
         \<and> unat (iov_off iov) + unat (iov_len iov) \<le> unat n)"
  using assms(3,4)
proof (induction k arbitrary: off)
  case 0
  then have "unat n - unat off + unat c - 1 < unat c"
    using assms(1) by (metis div_eq_0_iff neq0_conv)
  then have "unat off = unat n" using 0 assms(1) by linarith
  then show ?case using assms(2) by simp
next
  case (Suc k)
  let ?l = "min (n - off) c" let ?iov = "\<lparr>iov_off = off, iov_len = ?l\<rparr>"
  note l = unat_chunk [OF Suc.prems(1), of c] and chunks = chunks_Suc [OF assms(1) Suc.prems(2)]
  have le: "unat (off + ?l) \<le> unat n" using l Suc.prems(1) by simp
  have "k = (unat n - unat (off + ?l) + unat c - 1) div unat c" using chunks(2) l(2) by simp
  note ih = Suc.IH [OF le this]
  have "iov_data buf ?iov = take (unat ?l) (drop (unat off) buf)" by (simp add: iov_data_def)
  with ih l have "concat (map (iov_data buf) (generate_iovecs (Suc k) n c off))
      = take (unat ?l) (drop (unat off) buf) @ drop (unat off + unat ?l) buf" by (simp add: Let_def)
  also have "\<dots> = drop (unat off) buf"
    by (metis add.commute append_take_drop_id drop_drop)
  finally have cover: "concat (map (iov_data buf) (generate_iovecs (Suc k) n c off)) = drop (unat off) buf" .
  have "0 < unat (iov_len ?iov)" "iov_len ?iov \<le> c" "unat (iov_off ?iov) + unat (iov_len ?iov) \<le> unat n"
    using l chunks(1) assms(1) Suc.prems(1) by simp_all
  with ih cover show ?case by (simp add: Let_def)
qed

section \<open>The whole buffer\<close>

text \<open>
  The chunks of a file are a partition of its buffer: for a positive chunk size (and sizes whose sum
  fits) every entry is non-empty, at most a chunk long and inside the buffer, there are
  \<open>ceil(size / chunk)\<close> of them, and in order they make up the buffer. Printing them prints the
  buffer when the number of bytes read needs as many chunks, and fails the assertion otherwise; so a
  short read that needs fewer chunks aborts, and one that needs as many prints bytes that were not read.
\<close>

lemma iovecs_partition_buffer:
  fixes n c :: size_t
  assumes "0 < unat c" and "unat n + unat c \<le> 2 ^ 64" and "length buf = unat n"
  shows "\<exists>iovs. make_iovecs_with_buf n c = Inr iovs
    \<and> length iovs = (unat n + unat c - 1) div unat c
    \<and> concat (map (iov_data buf) iovs) = buf
    \<and> (\<forall>iov \<in> set iovs. 0 < unat (iov_len iov) \<and> iov_len iov \<le> c
         \<and> unat (iov_off iov) + unat (iov_len iov) \<le> unat n)
    \<and> (\<forall>m. print_to_stdout buf iovs m c
         = (if unat (chunks_of m c) = unat (chunks_of n c) then Inr buf else Inl Assertion_failed))"
proof -
  let ?k = "unat (chunks_of n c)"
  have k: "?k = (unat n - unat 0 + unat c - 1) div unat c"
    using chunks_of_ceiling [OF assms(1,2)] by simp
  have c: "c > 0" using assms(1) by (simp add: word_less_nat_alt)
  from generate_covers [OF assms(1,3) _ k] have
    cov: "concat (map (iov_data buf) (generate_iovecs ?k n c 0)) = buf"
      "length (generate_iovecs ?k n c 0) = ?k"
      "\<forall>iov \<in> set (generate_iovecs ?k n c 0). 0 < unat (iov_len iov) \<and> iov_len iov \<le> c
         \<and> unat (iov_off iov) + unat (iov_len iov) \<le> unat n"
    by simp_all
  with c k show ?thesis
    by (intro exI [of _ "generate_iovecs ?k n c 0"]) (simp add: make_iovecs_with_buf_def print_to_stdout_def)
qed

end
