(* ===== verification/CatMain.thy ===== *)
theory CatMain
  imports Cat Utils
begin

text \<open>
  The program \<open>examples/cat.cpp\<close>: \<open>get_file_info\<close> and \<open>main\<close>, over the system calls and liburing, which
  are arguments (\<open>cat_env\<close>). \<open>file_view\<close> and \<open>file_laws\<close> state what the calls do as far as the program
  relies on it: descriptors, file sizes, and a vectored read, which takes at most
  \<open>IOV_MAX\<close> (1024) entries.
\<close>

section \<open>The program\<close>

record 'k cat_env =
  sys_open :: "string \<Rightarrow> 'k \<Rightarrow> int \<times> 'k"
  sys_fstat :: "int \<Rightarrow> 'k \<Rightarrow> (int \<times> size_t) \<times> 'k"
  sys_close :: "int \<Rightarrow> 'k \<Rightarrow> 'k"
  queue_init :: "u32 \<Rightarrow> 'k \<Rightarrow> 'k"
  queue_exit :: "'k \<Rightarrow> 'k"
  get_sqe :: "'k \<Rightarrow> addr \<times> 'k"
  prep_readv :: "addr \<Rightarrow> int \<Rightarrow> iovec list \<Rightarrow> 'k \<Rightarrow> 'k"
  submit :: "'k \<Rightarrow> int \<times> 'k"
  wait_cqe :: "'k \<Rightarrow> (int \<times> int \<times> char list) \<times> 'k"
  cqe_seen :: "'k \<Rightarrow> 'k"

text \<open>\<open>fstat\<close> is checked with its result; the size it stores is only used on success.\<close>

definition get_file_info :: "'k cat_env \<Rightarrow> string \<Rightarrow> 'k \<Rightarrow> ((int \<times> size_t) \<times> 'k) result" where
  "get_file_info env file_path s =
     (let (fd, s1) = sys_open env file_path s
      in and_then (snd (nofail_less fd 0)) (\<lambda>fd.
         let ((r, st_size), s2) = sys_fstat env fd s1
         in and_then (snd (nofail_less r 0)) (\<lambda>_. Inr ((fd, st_size), s2))))"

text \<open>The buffer is value-initialised; the read replaces its beginning.\<close>

definition read_into :: "size_t \<Rightarrow> char list \<Rightarrow> char list" where
  "read_into size_bytes bytes = bytes @ replicate (unat size_bytes - length bytes) (CHR 0x00)"

text \<open>One round of the loop, with the guards at its end in the order of their destruction: the
  completion is given back and the descriptor closed. A failed check ends the process, so that no guard
  runs. The result is what was printed.\<close>

definition cat_file :: "'k cat_env \<Rightarrow> string \<Rightarrow> 'k \<Rightarrow> (char list \<times> 'k) result" where
  "cat_file env filename s =
     and_then (get_file_info env filename s) (\<lambda>((fd, size_bytes), s1).
     and_then (make_iovecs_with_buf size_bytes 64) (\<lambda>iovecs.
       let (sqe, s2) = get_sqe env s1
       in if sqe = null then Inl Null_deref
          else let (r, s3) = submit env (prep_readv env sqe fd iovecs s2)
          in and_then (snd (nofail_less_equal r 0)) (\<lambda>_.
             let ((r, res, bytes), s4) = wait_cqe env s3
             in and_then (snd (nofail_less r 0)) (\<lambda>_.
                and_then (snd (nofail_less res 0)) (\<lambda>res.
                and_then (print_to_stdout (read_into size_bytes bytes) iovecs (of_int res) 64) (\<lambda>out.
                  Inr (out, sys_close env fd (cqe_seen env s4))))))))"

fun cat_files :: "'k cat_env \<Rightarrow> string list \<Rightarrow> 'k \<Rightarrow> (char list \<times> 'k) result" where
  "cat_files env [] s = Inr ([], s)"
| "cat_files env (filename # filenames) s = and_then (cat_file env filename s) (\<lambda>(out, s1).
     and_then (cat_files env filenames s1) (\<lambda>(outs, s2). Inr (out @ outs, s2)))"

text \<open>\<open>main\<close> on \<open>argv[1]\<close> and so on: the exit code, what was printed, and the state.\<close>

definition cat_main :: "'k cat_env \<Rightarrow> string list \<Rightarrow> 'k \<Rightarrow> (int \<times> char list \<times> 'k) result" where
  "cat_main env filenames s =
     (if filenames = [] then Inr (1, [], s)
      else and_then (cat_files env filenames (queue_init env 1 s))
        (\<lambda>(out, s1). Inr (0, out, queue_exit env s1)))"

section \<open>What the calls do\<close>

text \<open>The files, the descriptor table, and the read that was prepared and that was submitted.\<close>

record file_view =
  v_files :: "string \<Rightarrow> char list option"
  v_fds :: "int \<Rightarrow> string option"
  v_sqe :: "(int \<times> iovec list) option"
  v_cqe :: "(int \<times> iovec list) option"

definition EINVAL :: int where "EINVAL = 22"

definition readv_result :: "iovec list \<Rightarrow> char list \<Rightarrow> int \<times> char list" where
  "readv_result iovecs bytes = (if length iovecs > 1024 then (- EINVAL, [])
     else let got = take (sum_list (map (\<lambda>iov. unat (iov_len iov)) iovecs)) bytes
       in (int (length got), got))"

definition file_laws :: "'k cat_env \<Rightarrow> ('k \<Rightarrow> file_view) \<Rightarrow> bool" where
  "file_laws env view \<longleftrightarrow>
     (\<forall>name s fd t. sys_open env name s = (fd, t) \<longrightarrow> (case v_files (view s) name of
        None \<Rightarrow> fd < 0
      | Some bytes \<Rightarrow> 0 \<le> fd \<and> v_fds (view s) fd = None
          \<and> view t = view s\<lparr>v_fds := (v_fds (view s))(fd \<mapsto> name)\<rparr>))
   \<and> (\<forall>fd s name bytes. v_fds (view s) fd = Some name \<longrightarrow> v_files (view s) name = Some bytes \<longrightarrow>
        (\<exists>t. sys_fstat env fd s = ((0, of_nat (length bytes)), t) \<and> view t = view s))
   \<and> (\<forall>fd s. view (sys_close env fd s) = view s\<lparr>v_fds := (v_fds (view s))(fd := None)\<rparr>)
   \<and> (\<forall>n s. view (queue_init env n s) = view s) \<and> (\<forall>s. view (queue_exit env s) = view s)
   \<and> (\<forall>s. v_sqe (view s) = None \<longrightarrow> fst (get_sqe env s) \<noteq> null \<and> view (snd (get_sqe env s)) = view s)
   \<and> (\<forall>e fd iovecs s. view (prep_readv env e fd iovecs s) = view s\<lparr>v_sqe := Some (fd, iovecs)\<rparr>)
   \<and> (\<forall>s x. v_sqe (view s) = Some x \<longrightarrow>
        fst (submit env s) = 1 \<and> view (snd (submit env s)) = view s\<lparr>v_sqe := None, v_cqe := Some x\<rparr>)
   \<and> (\<forall>s fd iovecs name bytes. v_cqe (view s) = Some (fd, iovecs) \<longrightarrow> v_fds (view s) fd = Some name \<longrightarrow>
        v_files (view s) name = Some bytes \<longrightarrow>
        (\<exists>t. wait_cqe env s = ((0, readv_result iovecs bytes), t) \<and> view t = view s))
   \<and> (\<forall>s. view (cqe_seen env s) = view s\<lparr>v_cqe := None\<rparr>)"

section \<open>One file\<close>

lemma nofail_simps [simp]:
  "0 \<le> r \<Longrightarrow> nofail_less r e = (e, Inr r)" "r < 0 \<Longrightarrow> snd (nofail_less r e) = Inl Terminated"
  "0 < r \<Longrightarrow> nofail_less_equal r e = (e, Inr r)"
  by (simp_all add: nofail_less_def nofail_less_equal_def nofail_def)

text \<open>The entries for a file ask for all of it.\<close>

lemma iovecs_for_file:
  assumes "length bytes < 2 ^ 63"
  shows "\<exists>iovecs. make_iovecs_with_buf (of_nat (length bytes)) 64 = Inr iovecs
    \<and> length iovecs = (length bytes + 63) div 64 \<and> sum_list (map (\<lambda>iov. unat (iov_len iov)) iovecs) = length bytes
    \<and> print_to_stdout bytes iovecs (of_nat (length bytes)) 64 = Inr bytes"
proof -
  let ?n = "of_nat (length bytes) :: size_t"
  have n: "unat ?n = length bytes" using assms by (intro unat_count) simp
  from iovecs_partition_buffer [of 64 ?n bytes] assms n obtain iovecs where
    iovecs: "make_iovecs_with_buf ?n 64 = Inr iovecs" "length iovecs = (length bytes + 64 - 1) div 64"
      "concat (map (iov_data bytes) iovecs) = bytes"
    and inside: "\<forall>iov \<in> set iovecs. unat (iov_off iov) + unat (iov_len iov) \<le> length bytes"
    and print: "\<forall>m. print_to_stdout bytes iovecs m 64
         = (if unat (chunks_of m 64) = unat (chunks_of ?n 64) then Inr bytes else Inl Assertion_failed)"
    by auto
  have "length (iov_data bytes iov) = unat (iov_len iov)" if "iov \<in> set iovecs" for iov
    using inside that by (auto simp: iov_data_def)
  then have "sum_list (map (\<lambda>iov. unat (iov_len iov)) iovecs) = length (concat (map (iov_data bytes) iovecs))"
    by (simp add: length_concat comp_def cong: map_cong)
  with iovecs print show ?thesis by (intro exI [of _ iovecs]) simp
qed

definition ring_idle :: "file_view \<Rightarrow> bool" where
  "ring_idle v \<longleftrightarrow> v_sqe v = None \<and> v_cqe v = None"

lemma file_lawsD:
  assumes "file_laws env view"
  shows "sys_open env name s = (fd, t) \<Longrightarrow> v_files (view s) name = None \<Longrightarrow> fd < 0"
    and "sys_open env name s = (fd, t) \<Longrightarrow> v_files (view s) name = Some bytes \<Longrightarrow>
      0 \<le> fd \<and> v_fds (view s) fd = None \<and> view t = view s\<lparr>v_fds := (v_fds (view s))(fd \<mapsto> name)\<rparr>"
    and "v_fds (view s) fd = Some name \<Longrightarrow> v_files (view s) name = Some bytes \<Longrightarrow>
      \<exists>t. sys_fstat env fd s = ((0, of_nat (length bytes)), t) \<and> view t = view s"
    and "view (sys_close env fd s) = view s\<lparr>v_fds := (v_fds (view s))(fd := None)\<rparr>"
    and "view (queue_init env n s) = view s" "view (queue_exit env s) = view s"
    and "v_sqe (view s) = None \<Longrightarrow> fst (get_sqe env s) \<noteq> null \<and> view (snd (get_sqe env s)) = view s"
    and "view (prep_readv env e fd iovecs s) = view s\<lparr>v_sqe := Some (fd, iovecs)\<rparr>"
    and "v_sqe (view s) = Some x \<Longrightarrow>
      fst (submit env s) = 1 \<and> view (snd (submit env s)) = view s\<lparr>v_sqe := None, v_cqe := Some x\<rparr>"
    and "v_cqe (view s) = Some (fd, iovecs) \<Longrightarrow> v_fds (view s) fd = Some name \<Longrightarrow>
      v_files (view s) name = Some bytes \<Longrightarrow>
      \<exists>t. wait_cqe env s = ((0, readv_result iovecs bytes), t) \<and> view t = view s"
    and "view (cqe_seen env s) = view s\<lparr>v_cqe := None\<rparr>"
proof -
  note L = assms [unfolded file_laws_def]
  note opn = L [THEN conjunct1, rule_format]
  show "sys_open env name s = (fd, t) \<Longrightarrow> v_files (view s) name = None \<Longrightarrow> fd < 0"
    using opn [of name s fd t] by simp
  show "sys_open env name s = (fd, t) \<Longrightarrow> v_files (view s) name = Some bytes \<Longrightarrow>
      0 \<le> fd \<and> v_fds (view s) fd = None \<and> view t = view s\<lparr>v_fds := (v_fds (view s))(fd \<mapsto> name)\<rparr>"
    using opn [of name s fd t] by simp
qed (fact assms [unfolded file_laws_def, THEN conjunct2, THEN conjunct1, rule_format]
    assms [unfolded file_laws_def, THEN conjunct2, THEN conjunct2, THEN conjunct1, rule_format]
    assms [unfolded file_laws_def, THEN conjunct2, THEN conjunct2, THEN conjunct2, THEN conjunct1, rule_format]
    assms [unfolded file_laws_def, THEN conjunct2, THEN conjunct2, THEN conjunct2, THEN conjunct2, THEN conjunct1, rule_format]
    assms [unfolded file_laws_def, THEN conjunct2, THEN conjunct2, THEN conjunct2, THEN conjunct2, THEN conjunct2, THEN conjunct1, rule_format]
    assms [unfolded file_laws_def, THEN conjunct2, THEN conjunct2, THEN conjunct2, THEN conjunct2, THEN conjunct2, THEN conjunct2, THEN conjunct1, rule_format]
    assms [unfolded file_laws_def, THEN conjunct2, THEN conjunct2, THEN conjunct2, THEN conjunct2, THEN conjunct2, THEN conjunct2, THEN conjunct2, THEN conjunct1, rule_format]
    assms [unfolded file_laws_def, THEN conjunct2, THEN conjunct2, THEN conjunct2, THEN conjunct2, THEN conjunct2, THEN conjunct2, THEN conjunct2, THEN conjunct2, THEN conjunct1, rule_format]
    assms [unfolded file_laws_def, THEN conjunct2, THEN conjunct2, THEN conjunct2, THEN conjunct2, THEN conjunct2, THEN conjunct2, THEN conjunct2, THEN conjunct2, THEN conjunct2, rule_format])+

text \<open>Up to the completion: the descriptor is open and the read has its result.\<close>

lemma cat_file_reads:
  assumes laws: "file_laws env view" and idle: "ring_idle (view s)"
    and content: "v_files (view s) filename = Some bytes" and len: "length bytes < 2 ^ 63"
  obtains fd iovecs t where "make_iovecs_with_buf (of_nat (length bytes)) 64 = Inr iovecs"
    "view (sys_close env fd (cqe_seen env t)) = view s"
    "cat_file env filename s = (case readv_result iovecs bytes of (res, got) \<Rightarrow>
       and_then (snd (nofail_less res 0)) (\<lambda>res.
       and_then (print_to_stdout (read_into (of_nat (length bytes)) got) iovecs (of_int res) 64) (\<lambda>out.
         Inr (out, sys_close env fd (cqe_seen env t)))))"
proof -
  let ?n = "of_nat (length bytes) :: size_t"
  note L = file_lawsD [OF laws]
  from iovecs_for_file [OF len] obtain iovecs where iovecs: "make_iovecs_with_buf ?n 64 = Inr iovecs" by blast
  obtain fd s1 where o1: "sys_open env filename s = (fd, s1)" by force
  note fd = L(2) [OF o1 content]
  then have v1: "view s1 = view s\<lparr>v_fds := (v_fds (view s))(fd \<mapsto> filename)\<rparr>" by blast
  from L(3) [of s1 fd filename bytes] v1 content obtain s2 where
    o2: "sys_fstat env fd s1 = ((0, ?n), s2)" and v2: "view s2 = view s1" by auto
  obtain sqe s3 where o3: "get_sqe env s2 = (sqe, s3)" by force
  have "sqe \<noteq> null" and v3: "view s3 = view s1"
    using L(7) [of s2] o3 v1 v2 idle by (simp_all add: ring_idle_def)
  let ?s4 = "prep_readv env sqe fd iovecs s3"
  obtain r s5 where o5: "submit env ?s4 = (r, s5)" by force
  have "r = 1" and v5: "view s5 = view s1\<lparr>v_sqe := None, v_cqe := Some (fd, iovecs)\<rparr>"
    using L(9) [of ?s4 "(fd, iovecs)"] o5 by (simp_all add: L(8) v3)
  from L(10) [of s5 fd iovecs filename bytes] v5 v1 content obtain t where
    o6: "wait_cqe env s5 = ((0, readv_result iovecs bytes), t)" and v6: "view t = view s5" by auto
  have "view (sys_close env fd (cqe_seen env t)) = view s"
    using idle fd by (simp add: L(4,11) v6 v5 v1 ring_idle_def fun_upd_idem)
  moreover have "cat_file env filename s = (case readv_result iovecs bytes of (res, got) \<Rightarrow>
       and_then (snd (nofail_less res 0)) (\<lambda>res.
       and_then (print_to_stdout (read_into ?n got) iovecs (of_int res) 64) (\<lambda>out.
         Inr (out, sys_close env fd (cqe_seen env t)))))"
    using fd \<open>sqe \<noteq> null\<close> \<open>r = 1\<close>
    by (simp add: cat_file_def get_file_info_def o1 o2 o3 o5 o6 iovecs Let_def split_beta)
  ultimately show ?thesis using that iovecs by blast
qed

definition readable :: "file_view \<Rightarrow> string \<Rightarrow> bool" where
  "readable v filename = (case v_files v filename of None \<Rightarrow> False | Some bytes \<Rightarrow> length bytes \<le> 65536)"

lemma cat_file_ok:
  assumes laws: "file_laws env view" and idle: "ring_idle (view s)" and ok: "readable (view s) filename"
  shows "\<exists>t. cat_file env filename s = Inr (the (v_files (view s) filename), t) \<and> view t = view s"
proof -
  from ok obtain bytes where content: "v_files (view s) filename = Some bytes" "length bytes \<le> 65536"
    by (auto simp: readable_def split: option.splits)
  then have len: "length bytes < 2 ^ 63" by simp
  obtain fd iovecs t where
    iovecs: "make_iovecs_with_buf (of_nat (length bytes)) 64 = Inr iovecs"
    and t: "view (sys_close env fd (cqe_seen env t)) = view s"
    and c: "cat_file env filename s = (case readv_result iovecs bytes of (res, got) \<Rightarrow>
       and_then (snd (nofail_less res 0)) (\<lambda>res.
       and_then (print_to_stdout (read_into (of_nat (length bytes)) got) iovecs (of_int res) 64) (\<lambda>out.
         Inr (out, sys_close env fd (cqe_seen env t)))))" by (rule cat_file_reads [OF laws idle content(1) len])
  from iovecs_for_file [OF len, unfolded iovecs sum.inject] have i: "length iovecs = (length bytes + 63) div 64"
    "sum_list (map (\<lambda>iov. unat (iov_len iov)) iovecs) = length bytes"
    "print_to_stdout bytes iovecs (of_nat (length bytes)) 64 = Inr bytes" by blast+
  have "length iovecs \<le> 1024" using i(1) content(2) by simp
  then have "readv_result iovecs bytes = (int (length bytes), bytes)" by (simp add: readv_result_def i(2))
  moreover have "read_into (of_nat (length bytes)) bytes = bytes"
    using len by (simp add: read_into_def unat_count)
  ultimately show ?thesis using c t i(3) content(1) by simp
qed

lemma cat_file_fails:
  assumes laws: "file_laws env view" and idle: "ring_idle (view s)" and no: "\<not> readable (view s) filename"
    and size: "\<forall>bytes. v_files (view s) filename = Some bytes \<longrightarrow> length bytes < 2 ^ 63"
  shows "cat_file env filename s = Inl Terminated"
proof (cases "v_files (view s) filename")
  case None
  obtain fd s1 where o1: "sys_open env filename s = (fd, s1)" by force
  from file_lawsD(1) [OF laws o1 None] show ?thesis
    by (simp add: cat_file_def get_file_info_def o1)
next
  case (Some bytes)
  with size have len: "length bytes < 2 ^ 63" by blast
  obtain fd iovecs t where
    iovecs: "make_iovecs_with_buf (of_nat (length bytes)) 64 = Inr iovecs"
    and c: "cat_file env filename s = (case readv_result iovecs bytes of (res, got) \<Rightarrow>
       and_then (snd (nofail_less res 0)) (\<lambda>res.
       and_then (print_to_stdout (read_into (of_nat (length bytes)) got) iovecs (of_int res) 64) (\<lambda>out.
         Inr (out, sys_close env fd (cqe_seen env t)))))" by (rule cat_file_reads [OF laws idle Some len])
  from iovecs_for_file [OF len, unfolded iovecs sum.inject] have "length iovecs = (length bytes + 63) div 64" by blast
  moreover have "65536 < length bytes" using no Some by (simp add: readable_def)
  ultimately have "1024 < length iovecs" by simp
  then show ?thesis unfolding c by (simp add: readv_result_def EINVAL_def)
qed

lemma cat_files_cases:
  assumes laws: "file_laws env view" and "ring_idle (view s)"
    and "\<forall>name bytes. v_files (view s) name = Some bytes \<longrightarrow> length bytes < 2 ^ 63"
  shows "if \<forall>name \<in> set filenames. readable (view s) name
    then \<exists>t. cat_files env filenames s
        = Inr (concat (map (\<lambda>name. the (v_files (view s) name)) filenames), t) \<and> view t = view s
    else cat_files env filenames s = Inl Terminated"
  using assms(2,3)
proof (induction filenames arbitrary: s)
  case Nil
  then show ?case by simp
next
  case (Cons name names)
  show ?case
  proof (cases "readable (view s) name")
    case True
    from cat_file_ok [OF laws Cons.prems(1) True] obtain t where
      t: "cat_file env name s = Inr (the (v_files (view s) name), t)" "view t = view s" by blast
    from Cons.IH [of t] Cons.prems t True show ?thesis by (auto split: if_splits)
  next
    case False
    with cat_file_fails [OF laws Cons.prems(1) False] Cons.prems(2) show ?thesis by auto
  qed
qed

section \<open>Property\<close>

text \<open>
  C36. The program prints the files it is given, one after the other and completely, returns 0, and leaves
  no descriptor open and nothing in the ring, if every one of them exists and has at most 65536 bytes.
  A file that is larger needs more than 1024 entries of 64 bytes, which a vectored read refuses:
  there, and at a file that cannot be opened, the process ends.
\<close>

theorem cat_prints_files:
  assumes "file_laws env view" and "ring_idle (view s)"
    and "\<forall>name bytes. v_files (view s) name = Some bytes \<longrightarrow> length bytes < 2 ^ 63"
    and "filenames \<noteq> []"
  shows "if \<forall>name \<in> set filenames. readable (view s) name
    then \<exists>t. cat_main env filenames s
        = Inr (0, concat (map (\<lambda>name. the (v_files (view s) name)) filenames), t) \<and> view t = view s
    else cat_main env filenames s = Inl Terminated"
proof -
  note L = file_lawsD(5,6) [OF assms(1)]
  have "ring_idle (view (queue_init env 1 s))" using assms(2) by (simp add: L)
  from cat_files_cases [OF assms(1) this, of filenames] assms(3) assms(4) show ?thesis
    by (auto simp: L cat_main_def split: if_splits)
qed

text \<open>A kernel with a counter for descriptors, a small file and a large one.\<close>

definition sample_view :: "nat \<times> file_view \<Rightarrow> file_view" where
  "sample_view k = (snd k)\<lparr>v_fds := (\<lambda>fd. if fd < int (fst k) then v_fds (snd k) fd else None)\<rparr>"

definition sample_read :: "file_view \<Rightarrow> int \<times> char list" where
  "sample_read v = (case v_cqe v of None \<Rightarrow> (0, []) | Some (fd, iovecs) \<Rightarrow>
     (case v_fds v fd of None \<Rightarrow> (0, []) | Some name \<Rightarrow>
     (case v_files v name of None \<Rightarrow> (0, []) | Some bytes \<Rightarrow> readv_result iovecs bytes)))"

definition sample_file_env :: "(nat \<times> file_view) cat_env" where
  "sample_file_env =
     \<lparr>sys_open = (\<lambda>name (n, v). if v_files v name = None then (- 1, (n, v))
        else (int n, (n + 1, v\<lparr>v_fds := (v_fds v)(int n \<mapsto> name)\<rparr>))),
      sys_fstat = (\<lambda>fd k. ((0, case v_fds (sample_view k) fd of None \<Rightarrow> 0 | Some name \<Rightarrow>
        (case v_files (snd k) name of None \<Rightarrow> 0 | Some bytes \<Rightarrow> of_nat (length bytes))), k)),
      sys_close = (\<lambda>fd (n, v). (n, v\<lparr>v_fds := (v_fds v)(fd := None)\<rparr>)),
      queue_init = (\<lambda>n k. k), queue_exit = (\<lambda>k. k), get_sqe = (\<lambda>k. (64, k)),
      prep_readv = (\<lambda>e fd iovecs (n, v). (n, v\<lparr>v_sqe := Some (fd, iovecs)\<rparr>)),
      submit = (\<lambda>(n, v). (1, (n, v\<lparr>v_cqe := v_sqe v, v_sqe := None\<rparr>))),
      wait_cqe = (\<lambda>k. ((0, sample_read (sample_view k)), k)),
      cqe_seen = (\<lambda>(n, v). (n, v\<lparr>v_cqe := None\<rparr>))\<rparr>"

lemma sample_file_laws: "file_laws sample_file_env sample_view"
  unfolding file_laws_def
proof (intro conjI)
  show "\<forall>name s fd t. sys_open sample_file_env name s = (fd, t) \<longrightarrow> (case v_files (sample_view s) name of
        None \<Rightarrow> fd < 0
      | Some bytes \<Rightarrow> 0 \<le> fd \<and> v_fds (sample_view s) fd = None
          \<and> sample_view t = sample_view s\<lparr>v_fds := (v_fds (sample_view s))(fd \<mapsto> name)\<rparr>)"
    by (auto simp: sample_file_env_def sample_view_def fun_eq_iff split: option.split if_splits)
qed (auto simp: sample_file_env_def sample_view_def sample_read_def fun_eq_iff)

definition sample_files :: "nat \<times> file_view" where
  "sample_files = (3, \<lparr>v_files = [''a'' \<mapsto> ''hello'', ''b'' \<mapsto> replicate 65537 (CHR ''x'')],
     v_fds = (\<lambda>_. None), v_sqe = None, v_cqe = None\<rparr>)"

theorem cat_prints_files_witness:
  "(\<exists>t. cat_main sample_file_env [''a'', ''a''] sample_files = Inr (0, ''hellohello'', t))
    \<and> cat_main sample_file_env [''a'', ''b''] sample_files = Inl Terminated"
proof -
  have idle: "ring_idle (sample_view sample_files)"
    by (simp add: ring_idle_def sample_view_def sample_files_def)
  have f: "v_files (sample_view sample_files) = [''a'' \<mapsto> ''hello'', ''b'' \<mapsto> replicate 65537 (CHR ''x'')]"
    by (simp add: sample_view_def sample_files_def)
  have size: "\<forall>name bytes. v_files (sample_view sample_files) name = Some bytes \<longrightarrow> length bytes < 2 ^ 63"
    by (auto simp: f)
  have "readable (sample_view sample_files) ''a''" "\<not> readable (sample_view sample_files) ''b''"
    by (simp_all add: readable_def f)
  with cat_prints_files [OF sample_file_laws idle size, of "[''a'', ''a'']"]
    cat_prints_files [OF sample_file_laws idle size, of "[''a'', ''b'']"]
  show ?thesis by (simp add: f) blast
qed

end
