(* ===== verification/Features.thy ===== *)
theory Features
  imports AsyncOp
begin

text \<open>
  The optional operations of the coroutine library, built on \<open>Async_operation\<close>:
  linked chains (\<open>feature_io_link.h\<close>), draining (\<open>feature_io_drain.h\<close>), multishot operations
  (\<open>feature_multishot.h\<close>) and provided buffers (\<open>feature_provided_buffers.h\<close>). Each constructor is
  the base constructor followed by the writes the feature makes through the entry's pointer; these
  writes fault when the pointer is null. \<open>U\<close> holds the flag values of the kernel interface.
\<close>

section \<open>Linked operations\<close>

text \<open>The constructor of \<open>Sync_link_operation\<close>, for the object at \<open>self\<close>: it takes over the base
  object of \<open>nxt\<close>. \<open>hard\<close> is its template argument; \<open>operator&\<close> and \<open>operator|\<close> pass
  \<open>False\<close> and \<open>True\<close>.\<close>

definition sync_link_operation :: "uapi \<Rightarrow> bool \<Rightarrow> addr \<Rightarrow> addr \<Rightarrow> addr
    \<Rightarrow> ('p, 'k, 'z) aio_scheme \<Rightarrow> ('p, 'k, 'z) aio_scheme result" where
  "sync_link_operation U hard previous nxt self s =
     and_then (get_ud nxt s) (\<lambda>n.
       let s1 = put_ud self n s in
       and_then (get_ud previous s1) (\<lambda>p.
         and_then (upd_sqe (ud_sqe p)
             (or_flags (if \<not> hard then IOSQE_IO_LINK U else IOSQE_IO_HARDLINK U)) s1) (\<lambda>s2.
           and_then (upd_sqe (ud_sqe p) (or_flags (IOSQE_CQE_SKIP_SUCCESS U)) s2) (\<lambda>s3.
             upd_sqe (ud_sqe n) (io_uring_sqe_set_data self) s3))))"

text \<open>A chain \<open>a & b | c\<close>: the operators associate to the left.\<close>

fun link_chain :: "uapi \<Rightarrow> addr \<Rightarrow> (bool \<times> addr \<times> addr) list
    \<Rightarrow> ('p, 'k, 'z) aio_scheme \<Rightarrow> (addr \<times> ('p, 'k, 'z) aio_scheme) result" where
  "link_chain U previous [] s = Inr (previous, s)"
| "link_chain U previous ((hard, nxt, self) # rest) s =
     and_then (sync_link_operation U hard previous nxt self s) (link_chain U self rest)"

section \<open>Draining operations\<close>

definition async_drain_operation :: "uapi \<Rightarrow> ('k \<Rightarrow> addr \<times> 'k) \<Rightarrow> ('p sqe \<Rightarrow> 'p sqe) \<Rightarrow> addr \<Rightarrow> addr
    \<Rightarrow> ('p, 'k, 'z) aio_scheme \<Rightarrow> ('p, 'k, 'z) aio_scheme result" where
  "async_drain_operation U io_uring_get_sqe prep uring self s =
     (let s1 = async_operation io_uring_get_sqe prep uring self s
      in and_then (get_ud self s1) (\<lambda>ud. upd_sqe (ud_sqe ud) (or_flags (IOSQE_IO_DRAIN U)) s1))"

section \<open>Multishot operations\<close>

definition multishot_await_resume :: "uapi \<Rightarrow> addr
    \<Rightarrow> ('p, 'k, 'z) aio_scheme \<Rightarrow> (int \<times> ('p, 'k, 'z) aio_scheme) result" where
  "multishot_await_resume U self s =
     and_then (await_resume self s) (\<lambda>res.
       and_then (get_ud self s) (\<lambda>ud.
         let over = (ud_cqe ud = null \<or> cqe_flags (cq s (ud_cqe ud)) AND IORING_CQE_F_MORE U = 0);
             ud1 = (if over then ud\<lparr>ud_uring := null\<rparr> else ud)
         in Inr (res, put_ud self (ud1\<lparr>ud_cqe := null\<rparr>) s)))"

text \<open>\<open>operator bool\<close>: is it awaitable?\<close>

definition multishot_bool :: "addr \<Rightarrow> ('p, 'k, 'z) aio_scheme \<Rightarrow> bool result" where
  "multishot_bool self s = and_then (get_ud self s) (\<lambda>ud. Inr (ud_uring ud \<noteq> null))"

text \<open>The destructor. \<open>prep_cancel\<close> is \<open>io_uring_prep_cancel\<close>, and \<open>submit\<close> is \<open>io_uring_submit\<close>, whose
  result is ignored.\<close>

definition multishot_dtor :: "uapi \<Rightarrow> ('k \<Rightarrow> addr \<times> 'k) \<Rightarrow> ('k \<Rightarrow> 'k) \<Rightarrow> (addr \<Rightarrow> 'p sqe \<Rightarrow> 'p sqe) \<Rightarrow> addr
    \<Rightarrow> ('p, 'k, 'z) aio_scheme \<Rightarrow> ('p, 'k, 'z) aio_scheme result" where
  "multishot_dtor U io_uring_get_sqe io_uring_submit prep_cancel self s =
     and_then (get_ud self s) (\<lambda>ud.
       let gone = (\<lambda>t. t\<lparr>uds := (uds t)(self := None)\<rparr>) in
       if ud_uring ud = null then Inr (gone s)
       else let (e, k) = io_uring_get_sqe (kern s);
                (e, k) = (if e = null then io_uring_get_sqe (io_uring_submit k) else (e, k));
                s1 = s\<lparr>kern := k\<rparr>
         in if e = null then Inr (gone s1)
            else and_then (upd_sqe e (or_flags (IOSQE_CQE_SKIP_SUCCESS U)) s1) (\<lambda>s2.
              and_then (upd_sqe e (prep_cancel self) s2) (\<lambda>s3.
                Inr (gone (s3\<lparr>kern := io_uring_submit (kern s3)\<rparr>)))))"

section \<open>Provided buffers\<close>

text \<open>The calls on the buffer ring, as a trace: \<open>io_uring_buf_ring_add\<close> with the address, length and id
  of a buffer, the mask and the offset from the tail; and \<open>io_uring_buf_ring_advance\<close>.\<close>

datatype buf_call =
    Buf_ring_add addr size_t int u32 int
  | Buf_ring_advance u32

text \<open>\<open>buffer(index)\<close>: the address of a buffer in the allocated block.\<close>

definition provided_buffer :: "addr \<Rightarrow> size_t \<Rightarrow> size_t \<Rightarrow> addr" where
  "provided_buffer base per_buffer_size index = base + per_buffer_size * index"

text \<open>\<open>make_provided_buffers\<close> after the ring was set up: \<open>buf_ring_mask\<close> is \<open>io_uring_buf_ring_mask\<close>.\<close>

definition make_provided_buffers :: "(u32 \<Rightarrow> u32) \<Rightarrow> addr \<Rightarrow> u32 \<Rightarrow> size_t \<Rightarrow> buf_call list" where
  "make_provided_buffers buf_ring_mask base nentries per_buffer_size =
     map (\<lambda>i. Buf_ring_add (provided_buffer base per_buffer_size (of_nat i)) per_buffer_size
            (int i) (buf_ring_mask nentries) (int i)) [0..<unat nentries]
     @ [Buf_ring_advance nentries]"

text \<open>\<open>buffer_rejoin\<close>: the finder of the helper is the \<open>buffer\<close> function above; \<open>bid\<close> is converted to
  \<open>size_t\<close>.\<close>

definition buffer_rejoin :: "(u32 \<Rightarrow> u32) \<Rightarrow> (size_t \<Rightarrow> addr) \<times> size_t \<times> u32 \<Rightarrow> int \<Rightarrow> buf_call list" where
  "buffer_rejoin buf_ring_mask helper bid =
     (let (buffer_finder, buffer_size, buf_ring_capacity) = helper
      in [Buf_ring_add (buffer_finder (of_int bid)) buffer_size bid (buf_ring_mask buf_ring_capacity) 0,
          Buf_ring_advance 1])"

definition async_provided_buffers_operations :: "uapi \<Rightarrow> ('k \<Rightarrow> addr \<times> 'k) \<Rightarrow> ('p sqe \<Rightarrow> 'p sqe)
    \<Rightarrow> u16 \<Rightarrow> addr \<Rightarrow> addr \<Rightarrow> ('p, 'k, 'z) aio_scheme \<Rightarrow> ('p, 'k, 'z) aio_scheme result" where
  "async_provided_buffers_operations U io_uring_get_sqe prep bgid uring self s =
     (let s1 = async_operation io_uring_get_sqe prep uring self s
      in and_then (get_ud self s1) (\<lambda>ud.
        and_then (upd_sqe (ud_sqe ud) (or_flags (IOSQE_BUFFER_SELECT U)) s1)
          (upd_sqe (ud_sqe ud) (\<lambda>e. e\<lparr>sqe_buf_group := bgid\<rparr>))))"

definition provided_await_resume :: "uapi \<Rightarrow> addr \<Rightarrow> ('p, 'k, 'z) aio_scheme \<Rightarrow> (int \<times> u32) result" where
  "provided_await_resume U self s =
     and_then (await_resume self s) (\<lambda>res.
       if res < 0 then Inr (res, 0)
       else and_then (get_ud self s) (\<lambda>ud.
         if ud_cqe ud = null then Inl Null_deref
         else let c = cq s (ud_cqe ud) in
           if cqe_flags c AND IORING_CQE_F_BUFFER U = 0 then Inr (res, 0)
           else Inr (cqe_res c, drop_bit (IORING_CQE_BUFFER_SHIFT U) (cqe_flags c))))"

section \<open>Lemmas\<close>

lemma sync_link_effect:
  assumes "uds s nxt = Some n" "uds s previous = Some p" "previous \<noteq> self"
    and "ud_sqe p \<noteq> null" "ud_sqe n \<noteq> null" "ud_sqe p \<noteq> ud_sqe n"
  shows "\<exists>s'. sync_link_operation U hard previous nxt self s = Inr s'
    \<and> uds s' = (uds s)(self \<mapsto> n)
    \<and> sqe_flags (sq s' (ud_sqe p)) = sqe_flags (sq s (ud_sqe p))
        OR (if hard then IOSQE_IO_HARDLINK U else IOSQE_IO_LINK U) OR IOSQE_CQE_SKIP_SUCCESS U
    \<and> sqe_user_data (sq s' (ud_sqe p)) = sqe_user_data (sq s (ud_sqe p))
    \<and> sqe_flags (sq s' (ud_sqe n)) = sqe_flags (sq s (ud_sqe n))
    \<and> sqe_user_data (sq s' (ud_sqe n)) = self
    \<and> (\<forall>e. e \<noteq> ud_sqe p \<and> e \<noteq> ud_sqe n \<longrightarrow> sq s' e = sq s e)"
  using assms
  by (cases hard) (simp_all add: sync_link_operation_def aio_defs or.assoc)

definition linkable :: "(addr \<Rightarrow> async_user_data option) \<Rightarrow> addr \<Rightarrow> addr \<Rightarrow> bool" where
  "linkable u op e \<longleftrightarrow> (\<exists>ud. u op = Some ud \<and> ud_sqe ud = e \<and> e \<noteq> null)"

text \<open>What a chain leaves behind in the entries \<open>e0 # es\<close>: every entry but the last is linked and skipped, every
  entry but the first names its operation, and nothing else is written.\<close>

definition chain_written :: "uapi \<Rightarrow> (bool \<times> addr \<times> addr) list \<Rightarrow> addr \<Rightarrow> addr list \<Rightarrow> ('p, 'k, 'z) aio_scheme
    \<Rightarrow> ('p, 'k, 'z) aio_scheme \<Rightarrow> bool" where
  "chain_written U items e0 es s s' \<longleftrightarrow>
     (\<forall>i < length items. sqe_flags (sq s' ((e0 # es) ! i)) = sqe_flags (sq s ((e0 # es) ! i))
        OR (if fst (items ! i) then IOSQE_IO_HARDLINK U else IOSQE_IO_LINK U) OR IOSQE_CQE_SKIP_SUCCESS U)
     \<and> sqe_flags (sq s' (last (e0 # es))) = sqe_flags (sq s (last (e0 # es)))
     \<and> (\<forall>i < length items. sqe_user_data (sq s' (es ! i)) = snd (snd (items ! i)))
     \<and> sqe_user_data (sq s' e0) = sqe_user_data (sq s e0)
     \<and> (\<forall>e. e \<notin> set (e0 # es) \<longrightarrow> sq s' e = sq s e)"

lemma chain_written_Cons:
  assumes flags: "sqe_flags (sq s1 e0) = sqe_flags (sq s e0)
      OR (if hard then IOSQE_IO_HARDLINK U else IOSQE_IO_LINK U) OR IOSQE_CQE_SKIP_SUCCESS U"
    and data: "sqe_user_data (sq s1 e0) = sqe_user_data (sq s e0)"
    and one: "sqe_flags (sq s1 e1) = sqe_flags (sq s e1)" "sqe_user_data (sq s1 e1) = self"
    and other: "\<forall>e. e \<noteq> e0 \<and> e \<noteq> e1 \<longrightarrow> sq s1 e = sq s e"
    and ih: "chain_written U items e1 es s1 s'" and len: "length es = length items" and dist: "distinct (e0 # e1 # es)"
  shows "chain_written U ((hard, nxt, self) # items) e0 (e1 # es) s s'"
proof -
  let ?items = "(hard, nxt, self) # items"
  have keep: "sqe_flags (sq s1 e) = sqe_flags (sq s e)" if "e \<in> set (e1 # es)" for e
    using that one(1) other dist by (cases "e = e1") auto
  have e0: "sq s' e0 = sq s1 e0" using ih dist by (auto simp: chain_written_def)
  have "sqe_flags (sq s' ((e0 # e1 # es) ! i)) = sqe_flags (sq s ((e0 # e1 # es) ! i))
      OR (if fst (?items ! i) then IOSQE_IO_HARDLINK U else IOSQE_IO_LINK U) OR IOSQE_CQE_SKIP_SUCCESS U"
    if "i < length ?items" for i
  proof (cases i)
    case (Suc j)
    then have "j < length items" "(e1 # es) ! j \<in> set (e1 # es)"
      using that len nth_mem [of j "e1 # es"] by simp_all
    with ih keep Suc show ?thesis by (simp add: chain_written_def)
  qed (use e0 flags in simp)
  moreover have "sqe_user_data (sq s' ((e1 # es) ! i)) = snd (snd (?items ! i))" if "i < length ?items" for i
    using that ih one(2) by (cases i) (simp_all add: chain_written_def)
  moreover have "sqe_flags (sq s' (last (e0 # e1 # es))) = sqe_flags (sq s (last (e0 # e1 # es)))"
    using ih keep [of "last (e1 # es)"] last_in_set [of "e1 # es"] by (simp add: chain_written_def)
  moreover have "sq s' e = sq s e" if "e \<notin> set (e0 # e1 # es)" for e
    using that ih other by (auto simp: chain_written_def)
  ultimately show ?thesis using e0 data unfolding chain_written_def by (simp only: simp_thms) blast
qed

lemma link_chain_effect:
  assumes "list_all2 (\<lambda>(hard, nxt, self) e. linkable (uds s) nxt e) items es" "linkable (uds s) previous e0"
    and "distinct (e0 # es)"
    and "\<forall>(h, nxt, self) \<in> set items. self \<noteq> previous \<and> self \<notin> fst ` snd ` set items"
    and "distinct (map (snd \<circ> snd) items)"
  shows "\<exists>s'. link_chain U previous items s
        = Inr (if items = [] then previous else snd (snd (last items)), s') \<and> chain_written U items e0 es s s'"
  using assms
proof (induction items arbitrary: es previous e0 s)
  case Nil
  then show ?case by (simp add: chain_written_def)
next
  case (Cons item items)
  obtain hard nxt self where item: "item = (hard, nxt, self)" by (cases item)
  from Cons.prems(1) obtain e1 es' where es: "es = e1 # es'" and l1: "linkable (uds s) nxt e1"
    and rest: "list_all2 (\<lambda>(hard, nxt, self) e. linkable (uds s) nxt e) items es'"
    by (auto simp: item list_all2_Cons1)
  have ne: "self \<noteq> previous" "self \<noteq> nxt" "self \<notin> fst ` snd ` set items"
    using Cons.prems(4) by (auto simp: item)
  from l1 Cons.prems(2) obtain n p where np: "uds s nxt = Some n" "ud_sqe n = e1" "e1 \<noteq> null"
    "uds s previous = Some p" "ud_sqe p = e0" "e0 \<noteq> null"
    by (auto simp: linkable_def)
  have "e0 \<noteq> e1" using Cons.prems(3) es by auto
  with sync_link_effect [OF np(1,4), of self U hard] np ne(1) obtain s1 where
    s1: "sync_link_operation U hard previous nxt self s = Inr s1" "uds s1 = (uds s)(self \<mapsto> n)"
    "sqe_flags (sq s1 e0) = sqe_flags (sq s e0)
      OR (if hard then IOSQE_IO_HARDLINK U else IOSQE_IO_LINK U) OR IOSQE_CQE_SKIP_SUCCESS U"
    "sqe_user_data (sq s1 e0) = sqe_user_data (sq s e0)"
    "sqe_flags (sq s1 e1) = sqe_flags (sq s e1)" "sqe_user_data (sq s1 e1) = self"
    "\<forall>e. e \<noteq> e0 \<and> e \<noteq> e1 \<longrightarrow> sq s1 e = sq s e"
    by metis
  have "list_all2 (\<lambda>(hard, nxt, self) e. linkable (uds s1) nxt e) items es'"
    using rest ne(3) unfolding s1(2)
    by (elim list.rel_mono_strong) (force simp: linkable_def)
  moreover have "linkable (uds s1) self e1" using np by (simp add: linkable_def s1(2))
  moreover have "distinct (e1 # es')" using Cons.prems(3) es by simp
  moreover have "\<forall>(h, n, sf) \<in> set items. sf \<noteq> self \<and> sf \<notin> fst ` snd ` set items"
    using Cons.prems(4,5) item by (auto simp: image_iff)
  moreover have "distinct (map (snd \<circ> snd) items)" using Cons.prems(5) by (simp add: comp_def)
  ultimately obtain s' where ih: "link_chain U self items s1
      = Inr (if items = [] then self else snd (snd (last items)), s')" "chain_written U items e1 es' s1 s'"
    using Cons.IH by blast
  have "chain_written U (item # items) e0 es s s'"
    unfolding item es using Cons.prems(3) rest
    by (intro chain_written_Cons [OF s1(3-7) ih(2)]) (simp_all add: es list_all2_lengthD)
  then show ?case using s1(1) ih(1) by (auto simp: item)
qed

text \<open>The values of the kernel interface, for the witnesses.\<close>

definition linux_uapi :: uapi where
  "linux_uapi = \<lparr>IOSQE_IO_DRAIN = 2, IOSQE_IO_LINK = 4, IOSQE_IO_HARDLINK = 8,
     IOSQE_BUFFER_SELECT = 32, IOSQE_CQE_SKIP_SUCCESS = 64, IORING_CQE_F_BUFFER = 1,
     IORING_CQE_F_MORE = 2, IORING_CQE_BUFFER_SHIFT = 16\<rparr>"

section \<open>Properties\<close>

text \<open>
  A linked chain of any length, with \<open>&\<close> and \<open>|\<close> in any order, is built without a fault on
  operations that all have a submission entry: each entry but the last gets the link flag of
  its own operator (soft or hard) and \<open>IOSQE_CQE_SKIP_SUCCESS\<close> on top of its flags, the last entry's
  flags are unchanged, so that only its completion is always posted; every entry carries
  the address of the object that now owns it, and no other entry is touched.
\<close>

theorem link_chain_flags:
  assumes "list_all2 (\<lambda>(hard, nxt, self) e. linkable (uds s) nxt e) items es" "linkable (uds s) previous e0"
    and "distinct (e0 # es)"
    and "\<forall>(h, nxt, self) \<in> set items. self \<noteq> previous \<and> self \<notin> fst ` snd ` set items"
    and "distinct (map (snd \<circ> snd) items)" and "items \<noteq> []"
  shows "\<exists>s'. link_chain U previous items s = Inr (snd (snd (last items)), s')
    \<and> (\<forall>i < length items. sqe_flags (sq s' ((e0 # es) ! i)) = sqe_flags (sq s ((e0 # es) ! i))
        OR (if fst (items ! i) then IOSQE_IO_HARDLINK U else IOSQE_IO_LINK U) OR IOSQE_CQE_SKIP_SUCCESS U)
    \<and> sqe_flags (sq s' (last es)) = sqe_flags (sq s (last es))
    \<and> (\<forall>i < length items. sqe_user_data (sq s' (es ! i)) = snd (snd (items ! i)))
    \<and> sqe_user_data (sq s' e0) = sqe_user_data (sq s e0)
    \<and> (\<forall>e. e \<notin> set (e0 # es) \<longrightarrow> sq s' e = sq s e)"
proof -
  have "es \<noteq> []" using assms(1,6) by (auto simp: list_all2_Cons1)
  with link_chain_effect [OF assms(1-5), of U] assms(6) show ?thesis by (simp add: chain_written_def)
qed

theorem link_chain_flags_witness:
  "\<exists>s'. link_chain linux_uapi 16 [(False, 24, 32), (True, 40, 48)]
      ((sample_aio 0 0)\<lparr>uds := (\<lambda>a. Some \<lparr>ud_uring = 8, ud_sqe = a + 1024, ud_cqe = null, ud_h = Noop\<rparr>)\<rparr>)
      = Inr (48, s') \<and> sqe_flags (sq s' 1040) = 68 \<and> sqe_flags (sq s' 1048) = 72
    \<and> sqe_flags (sq s' 1064) = 0 \<and> sqe_user_data (sq s' 1064) = 48"
proof -
  let ?s = "(sample_aio 0 0)\<lparr>uds := (\<lambda>a. Some \<lparr>ud_uring = 8, ud_sqe = a + 1024, ud_cqe = null, ud_h = Noop\<rparr>)\<rparr>"
  let ?items = "[(False, 24 :: addr, 32 :: addr), (True, 40, 48)]"
  have "list_all2 (\<lambda>(hard, nxt, self) e. linkable (uds ?s) nxt e) ?items [1048, 1064]"
    "linkable (uds ?s) 16 1040" "distinct [1040, 1048, 1064 :: addr]"
    "\<forall>(h, nxt, self) \<in> set ?items. self \<noteq> 16 \<and> self \<notin> fst ` snd ` set ?items"
    "distinct (map (snd \<circ> snd) ?items)" "?items \<noteq> []"
    by (simp_all add: linkable_def)
  from link_chain_flags [OF this, of linux_uapi] show ?thesis
    by (auto simp: linux_uapi_def sample_aio_def less_Suc_eq numeral_2_eq_2)
qed

text \<open>
  The features do not handle a full submission queue as the base operation does: where
  \<open>Async_operation\<close> completes with \<open>-ENOMEM\<close>, draining, provided-buffers and linked operations
  dereference the null entry.
\<close>

theorem features_fault_on_full_queue:
  fixes io_uring_get_sqe s k U prep self uring
  assumes "io_uring_get_sqe (kern s) = (null, k)"
  defines "s1 \<equiv> async_operation io_uring_get_sqe prep uring self s"
  shows "await_resume self s1 = Inr (- ENOMEM)
    \<and> async_drain_operation U io_uring_get_sqe prep uring self s = Inl Null_deref
    \<and> async_provided_buffers_operations U io_uring_get_sqe prep bgid uring self s = Inl Null_deref
    \<and> (\<forall>hard nxt other. uds s1 nxt \<noteq> None \<and> other \<noteq> self \<longrightarrow>
          sync_link_operation U hard self nxt other s1 = Inl Null_deref)"
  using assms
  by (auto simp: async_drain_operation_def async_provided_buffers_operations_def
      sync_link_operation_def aio_defs Let_def)

theorem features_fault_on_full_queue_witness:
  "async_drain_operation linux_uapi (\<lambda>k. (null, k)) (\<lambda>e. e) 8 64 (sample_aio 64 0) = Inl Null_deref"
  using features_fault_on_full_queue [of "\<lambda>k. (null, k)" "sample_aio 64 0" "()"] by simp

text \<open>
  The buffer id of a completion is decoded as the kernel encodes it: for a successful result with a
  selected buffer the awaited pair is the result and exactly the 16-bit id in the upper half of the
  flags, whatever the other flags; without a selected buffer, or on an error, the id is 0.
\<close>

theorem provided_bid_roundtrip:
  assumes "await_resume self s = Inr res" and "uds s self = Some ud" and "ud_sqe ud \<noteq> null"
    and "IORING_CQE_F_BUFFER U = 1" and "IORING_CQE_BUFFER_SHIFT U = 16"
    and flags: "cqe_flags (cq s (ud_cqe ud)) = push_bit 16 (ucast (bid :: u16)) OR ucast (low :: u16)"
  shows "provided_await_resume U self s = Inr (res, if res \<ge> 0 \<and> bit low 0 then ucast bid else 0)"
proof -
  let ?f = "cqe_flags (cq s (ud_cqe ud))"
  have res: "ud_cqe ud \<noteq> null" "res = cqe_res (cq s (ud_cqe ud))"
    using assms(1-3) by (auto simp: aio_defs split: if_splits)
  have shift: "drop_bit 16 ?f = ucast bid"
    unfolding flags by (rule bit_word_eqI) (auto simp: bit_simps dest: bit_imp_le_length)
  have "?f AND 1 = 0 \<longleftrightarrow> \<not> bit ?f 0" by (simp add: and_one_eq even_iff_mod_2_eq_zero flip: bit_0) (simp add: bit_0 even_iff_mod_2_eq_zero)
  moreover have "bit ?f 0 = bit low 0" unfolding flags by (simp add: bit_simps)
  ultimately show ?thesis
    using assms res shift by (simp add: provided_await_resume_def get_ud_def Let_def)
qed

theorem provided_bid_roundtrip_witness:
  "provided_await_resume linux_uapi 64
     ((sample_aio 0 0)\<lparr>cq := (\<lambda>_. \<lparr>cqe_user_data = 64, cqe_res = 100,
          cqe_flags = push_bit 16 (ucast (5 :: u16)) OR ucast (1 :: u16)\<rparr>),
        uds := [64 \<mapsto> \<lparr>ud_uring = 8, ud_sqe = 128, ud_cqe = 256, ud_h = Noop\<rparr>]\<rparr>) = Inr (100, 5)"
proof -
  let ?s = "(sample_aio 0 0)\<lparr>cq := (\<lambda>_. \<lparr>cqe_user_data = 64, cqe_res = 100,
          cqe_flags = push_bit 16 (ucast (5 :: u16)) OR ucast (1 :: u16)\<rparr>),
        uds := [64 \<mapsto> \<lparr>ud_uring = 8, ud_sqe = 128, ud_cqe = 256, ud_h = Noop\<rparr>]\<rparr>"
  have "await_resume 64 ?s = Inr 100" by (simp add: aio_defs)
  from provided_bid_roundtrip [OF this, of "\<lparr>ud_uring = 8, ud_sqe = 128, ud_cqe = 256, ud_h = Noop\<rparr>" linux_uapi 5 1]
  show ?thesis by (simp add: linux_uapi_def)
qed

text \<open>
  C32. The provided buffers are disjoint regions inside the allocated block, and rejoining a buffer
  registers exactly the region, length and id that \<open>make_provided_buffers\<close> registered for it.
\<close>

theorem provided_buffers_disjoint_and_rejoin:
  assumes fits: "unat base + unat per * unat n \<le> 2 ^ 64" and i: "i < unat n" and sgn: "unat n \<le> 2 ^ 31"
  shows "unat (provided_buffer base per (of_nat i)) = unat base + unat per * i
    \<and> (\<forall>j < unat n. i < j \<and> 0 < unat per \<longrightarrow>
         unat (provided_buffer base per (of_nat i)) + unat per \<le> unat (provided_buffer base per (of_nat j)))
    \<and> unat (provided_buffer base per (of_nat i)) + unat per \<le> unat base + unat per * unat n
    \<and> (\<exists>a. make_provided_buffers m base n per ! i = Buf_ring_add a per (int i) (m n) (int i)
         \<and> buffer_rejoin m (provided_buffer base per, per, n) (int i)
             = [Buf_ring_add a per (int i) (m n) 0, Buf_ring_advance 1])"
proof -
  have at: "unat (provided_buffer base per (of_nat j)) = unat base + unat per * j"
    if "j < unat n" "0 < unat per" for j
  proof -
    have "unat per * j + unat per \<le> unat per * unat n"
      using that by (metis Suc_leI mult.commute mult_Suc mult_le_mono2 add.commute)
    then have lt: "unat base + unat per * j < 2 ^ 64" using fits that(2) by linarith
    have "j < 2 ^ 64" using that sgn by simp
    then have "unat (of_nat j :: size_t) = j" by (intro unat_count) simp
    moreover from this lt have "unat (per * of_nat j) = unat per * j" by (simp add: unat_word_ariths)
    ultimately show ?thesis
      using lt by (simp add: provided_buffer_def unat_word_ariths)
  qed
  have at0: "unat (provided_buffer base per (of_nat i)) = unat base + unat per * i"
    using at [OF i] by (cases "per = 0") (simp_all add: provided_buffer_def word_neq_0_conv unat_gt_0)
  have step: "unat per * i + unat per \<le> unat per * j" if "i < j" for j
    using that by (metis Suc_leI mult.commute mult_Suc mult_le_mono2 add.commute)
  have "make_provided_buffers m base n per ! i
      = Buf_ring_add (provided_buffer base per (of_nat i)) per (int i) (m n) (int i)"
    using i by (simp add: make_provided_buffers_def nth_append)
  then show ?thesis
    using at at0 step [OF i] step i by (auto simp: buffer_rejoin_def)
qed

theorem provided_buffers_disjoint_and_rejoin_witness:
  "buffer_rejoin (\<lambda>n. n - 1) (provided_buffer 4096 64, 64, 8) 3
     = [Buf_ring_add (provided_buffer 4096 64 3) 64 3 7 0, Buf_ring_advance 1]
   \<and> unat (provided_buffer 4096 64 3) = 4288"
  using provided_buffers_disjoint_and_rejoin [of 4096 64 8 3 "\<lambda>n. n - 1"]
  by (auto simp: make_provided_buffers_def nth_append)



end
