(* ===== verification/Wrappers.thy ===== *)
theory Wrappers
  imports Features
begin

text \<open>
  The asynchronous functions of the coroutine library: the wrappers at the end of
  \<open>include/coroutine.h\<close>, \<open>feature_io_drain.h\<close>, \<open>feature_multishot.h\<close> and
  \<open>feature_provided_buffers.h\<close>, which name an \<open>io_uring_prep_*\<close> function and forward its arguments
  with the conversions of its signature; and the linked chain of \<open>examples/feature_io_link.cpp\<close>,
  which puts three of them together.
\<close>

section \<open>The functions of liburing\<close>

text \<open>Their parameters after the entry, as declared by liburing: the length of a read or write is
  \<open>unsigned\<close>, its offset \<open>__u64\<close>.\<close>

record 'p prep_fns =
  prep_accept :: "int \<Rightarrow> addr \<Rightarrow> addr \<Rightarrow> int \<Rightarrow> 'p sqe \<Rightarrow> 'p sqe"
  prep_multishot_accept :: "int \<Rightarrow> addr \<Rightarrow> addr \<Rightarrow> int \<Rightarrow> 'p sqe \<Rightarrow> 'p sqe"
  prep_read :: "int \<Rightarrow> addr \<Rightarrow> u32 \<Rightarrow> size_t \<Rightarrow> 'p sqe \<Rightarrow> 'p sqe"
  prep_write :: "int \<Rightarrow> addr \<Rightarrow> u32 \<Rightarrow> size_t \<Rightarrow> 'p sqe \<Rightarrow> 'p sqe"
  prep_close :: "int \<Rightarrow> 'p sqe \<Rightarrow> 'p sqe"

section \<open>Wrappers\<close>

definition async_accept :: "'p prep_fns \<Rightarrow> ('k \<Rightarrow> addr \<times> 'k) \<Rightarrow> addr \<Rightarrow> int \<Rightarrow> addr \<Rightarrow> addr \<Rightarrow> int \<Rightarrow> addr
    \<Rightarrow> ('p, 'k, 'z) aio_scheme \<Rightarrow> ('p, 'k, 'z) aio_scheme" where
  "async_accept P get_sqe uring server_fd sockaddr addrlen flags =
     async_operation get_sqe (prep_accept P server_fd sockaddr addrlen flags) uring"

text \<open>The overload without an address.\<close>

definition async_accept_any :: "'p prep_fns \<Rightarrow> ('k \<Rightarrow> addr \<times> 'k) \<Rightarrow> addr \<Rightarrow> int \<Rightarrow> int \<Rightarrow> addr
    \<Rightarrow> ('p, 'k, 'z) aio_scheme \<Rightarrow> ('p, 'k, 'z) aio_scheme" where
  "async_accept_any P get_sqe uring server_fd flags =
     async_operation get_sqe (prep_accept P server_fd null null flags) uring"

definition async_read :: "'p prep_fns \<Rightarrow> ('k \<Rightarrow> addr \<times> 'k) \<Rightarrow> addr \<Rightarrow> int \<Rightarrow> addr \<Rightarrow> size_t \<Rightarrow> size_t \<Rightarrow> addr
    \<Rightarrow> ('p, 'k, 'z) aio_scheme \<Rightarrow> ('p, 'k, 'z) aio_scheme" where
  "async_read P get_sqe uring fd buf n offset =
     async_operation get_sqe (prep_read P fd buf (ucast n) offset) uring"

definition async_write :: "'p prep_fns \<Rightarrow> ('k \<Rightarrow> addr \<times> 'k) \<Rightarrow> addr \<Rightarrow> int \<Rightarrow> addr \<Rightarrow> size_t \<Rightarrow> size_t \<Rightarrow> addr
    \<Rightarrow> ('p, 'k, 'z) aio_scheme \<Rightarrow> ('p, 'k, 'z) aio_scheme" where
  "async_write P get_sqe uring fd buf n offset =
     async_operation get_sqe (prep_write P fd buf (ucast n) offset) uring"

definition async_close :: "'p prep_fns \<Rightarrow> ('k \<Rightarrow> addr \<times> 'k) \<Rightarrow> addr \<Rightarrow> int \<Rightarrow> addr
    \<Rightarrow> ('p, 'k, 'z) aio_scheme \<Rightarrow> ('p, 'k, 'z) aio_scheme" where
  "async_close P get_sqe uring fd = async_operation get_sqe (prep_close P fd) uring"

definition async_drain_accept :: "uapi \<Rightarrow> 'p prep_fns \<Rightarrow> ('k \<Rightarrow> addr \<times> 'k) \<Rightarrow> addr \<Rightarrow> int \<Rightarrow> int \<Rightarrow> addr
    \<Rightarrow> ('p, 'k, 'z) aio_scheme \<Rightarrow> ('p, 'k, 'z) aio_scheme result" where
  "async_drain_accept U P get_sqe uring server_fd flags =
     async_drain_operation U get_sqe (prep_accept P server_fd null null flags) uring"

text \<open>\<open>Async_multishot_operation\<close> inherits the constructor of the base.\<close>

definition async_multishot_accept :: "'p prep_fns \<Rightarrow> ('k \<Rightarrow> addr \<times> 'k) \<Rightarrow> addr \<Rightarrow> int \<Rightarrow> int \<Rightarrow> addr
    \<Rightarrow> ('p, 'k, 'z) aio_scheme \<Rightarrow> ('p, 'k, 'z) aio_scheme" where
  "async_multishot_accept P get_sqe uring server_fd flags =
     async_operation get_sqe (prep_multishot_accept P server_fd null null flags) uring"

text \<open>The token names the ring, the buffer ring and its group; the read passes its \<open>flags\<close> where
  \<open>io_uring_prep_read\<close> has the offset, converted from \<open>int\<close>.\<close>

definition use_provided_buffers :: "addr \<Rightarrow> addr \<Rightarrow> int \<Rightarrow> addr \<times> addr \<times> int" where
  "use_provided_buffers uring buf_ring bgid = (uring, buf_ring, bgid)"

definition make_buffer_helper :: "(size_t \<Rightarrow> addr) \<Rightarrow> size_t \<Rightarrow> u32 \<Rightarrow> (size_t \<Rightarrow> addr) \<times> size_t \<times> u32" where
  "make_buffer_helper buffer_finder buffer_size buf_ring_capacity = (buffer_finder, buffer_size, buf_ring_capacity)"

definition async_read_provided :: "uapi \<Rightarrow> 'p prep_fns \<Rightarrow> ('k \<Rightarrow> addr \<times> 'k) \<Rightarrow> addr \<times> addr \<times> int \<Rightarrow> int \<Rightarrow> addr
    \<Rightarrow> size_t \<Rightarrow> int \<Rightarrow> addr \<Rightarrow> ('p, 'k, 'z) aio_scheme \<Rightarrow> ('p, 'k, 'z) aio_scheme result" where
  "async_read_provided U P get_sqe pb fd buf n flags self s =
     (if buf \<noteq> null then Inl Assertion_failed
      else let (uring, buf_ring, bid) = pb
        in async_provided_buffers_operations U get_sqe (prep_read P fd null (ucast n) (of_int flags))
             (of_int bid) uring self s)"

lemmas wrapper_defs = async_accept_def async_accept_any_def async_read_def async_write_def
  async_close_def async_drain_accept_def async_multishot_accept_def async_read_provided_def

text \<open>The length of a request is taken modulo \<open>2 ^ 32\<close>: one of 4 GiB asks for nothing.\<close>

lemma async_read_length:
  "unat n < 2 ^ 32 \<Longrightarrow> unat (ucast n :: u32) = unat (n :: size_t)" "(ucast (4294967296 :: size_t) :: u32) = 0"
  by (simp_all add: unsigned_ucast_eq take_bit_nat_eq_self)

section \<open>A linked chain\<close>

text \<open>The operand of \<open>co_await\<close> in \<open>sayhello\<close>, with its operands evaluated from left to right; \<open>o1\<close>,
  \<open>o2\<close>, \<open>o3\<close> are the three operations and \<open>l1\<close>, \<open>l2\<close> what the two \<open>&\<close> return.\<close>

definition sayhello :: "uapi \<Rightarrow> 'p prep_fns \<Rightarrow> ('k \<Rightarrow> addr \<times> 'k) \<Rightarrow> addr \<Rightarrow> int \<Rightarrow> addr \<times> addr
    \<Rightarrow> addr \<times> addr \<times> addr \<Rightarrow> addr \<times> addr \<Rightarrow> ('p, 'k, 'z) aio_scheme \<Rightarrow> (addr \<times> ('p, 'k, 'z) aio_scheme) result" where
  "sayhello U P get_sqe uring client_fd texts ops links s =
     (let (hello, world) = texts; (o1, o2, o3) = ops; (l1, l2) = links;
          s1 = async_write P get_sqe uring client_fd hello 6 0 o1 s;
          s2 = async_write P get_sqe uring client_fd world 7 0 o2 s1;
          s3 = async_close P get_sqe uring client_fd o3 s2
      in link_chain U o1 [(False, o2, l1), (False, o3, l2)] s3)"

text \<open>The functions of liburing initialise the entry, so no flag of an earlier use is left.\<close>

definition preps_clear_flags :: "'p prep_fns \<Rightarrow> bool" where
  "preps_clear_flags P \<longleftrightarrow> (\<forall>fd a n off e. sqe_flags (prep_write P fd a n off e) = 0)
     \<and> (\<forall>fd e. sqe_flags (prep_close P fd e) = 0)"

text \<open>
  The three operations of \<open>sayhello\<close> become one chain: with three free entries they take them in
  the order of the text, each with the body its function prepared; the two writes are soft-linked to
  their successor and post nothing on success, the close is the end of the chain, and only the
  completion of the close reaches the awaited object.
\<close>

theorem sayhello_builds_chain:
  fixes s :: "('p, 'k, 'z) aio_scheme"
  assumes "get_sqe (kern s) = (e1, k1)" "get_sqe k1 = (e2, k2)" "get_sqe k2 = (e3, k3)"
    and "distinct [null, e1, e2, e3]" and "distinct [o1, o2, o3, l1, l2]" and "preps_clear_flags P"
  shows "\<exists>s'. sayhello U P get_sqe uring fd (hello, world) (o1, o2, o3) (l1, l2) s = Inr (l2, s')
    \<and> (\<forall>e \<in> {e1, e2}. sqe_flags (sq s' e) = IOSQE_IO_LINK U OR IOSQE_CQE_SKIP_SUCCESS U)
    \<and> sqe_flags (sq s' e3) = 0
    \<and> sqe_body (sq s' e1) = sqe_body (prep_write P fd hello 6 0 (sq s e1))
    \<and> sqe_body (sq s' e2) = sqe_body (prep_write P fd world 7 0 (sq s e2))
    \<and> sqe_body (sq s' e3) = sqe_body (prep_close P fd (sq s e3))
    \<and> sqe_user_data (sq s' e3) = l2 \<and> map (\<lambda>e. sqe_user_data (sq s' e)) [e1, e2] = [o1, l1]
    \<and> kern s' = k3 \<and> (\<forall>e. e \<notin> {e1, e2, e3} \<longrightarrow> sq s' e = sq s e)"
proof -
  have es: "e1 \<noteq> null" "e2 \<noteq> null" "e3 \<noteq> null" "e1 \<noteq> e2" "e2 \<noteq> e1" "e1 \<noteq> e3" "e3 \<noteq> e1" "e2 \<noteq> e3" "e3 \<noteq> e2"
    using assms(4) by auto
  have os: "o1 \<noteq> o2" "o2 \<noteq> o1" "o1 \<noteq> o3" "o3 \<noteq> o1" "o2 \<noteq> o3" "o3 \<noteq> o2" "l1 \<noteq> o1" "l1 \<noteq> o2" "l1 \<noteq> o3"
      "l2 \<noteq> o1" "l2 \<noteq> o2" "l2 \<noteq> o3" "l1 \<noteq> l2" "l2 \<noteq> l1" "o1 \<noteq> l1" "o2 \<noteq> l1" "o3 \<noteq> l1" "o1 \<noteq> l2" "o2 \<noteq> l2" "o3 \<noteq> l2"
    using assms(5) by auto
  have fl: "sqe_flags (prep_write P fd a n off e) = 0" "sqe_flags (prep_close P fd e) = 0" for fd a n off e
    using assms(6) by (simp_all add: preps_clear_flags_def)
  show ?thesis
    by (simp add: sayhello_def wrapper_defs sync_link_operation_def aio_defs Let_def assms(1-3) es os fl)
qed

definition sample_preps :: "(string \<times> nat) prep_fns" where
  "sample_preps =
     \<lparr>prep_accept = (\<lambda>fd a l f e. e\<lparr>sqe_flags := 0, sqe_body := (''accept'', 0)\<rparr>),
      prep_multishot_accept = (\<lambda>fd a l f e. e\<lparr>sqe_flags := 0, sqe_body := (''multishot'', 0)\<rparr>),
      prep_read = (\<lambda>fd a n off e. e\<lparr>sqe_flags := 0, sqe_body := (''read'', unat n)\<rparr>),
      prep_write = (\<lambda>fd a n off e. e\<lparr>sqe_flags := 0, sqe_body := (''write'', unat n)\<rparr>),
      prep_close = (\<lambda>fd e. e\<lparr>sqe_flags := 0, sqe_body := (''close'', 0)\<rparr>)\<rparr>"

definition sample_entries :: "(string \<times> nat, addr) aio" where
  "sample_entries =
     \<lparr>sq = (\<lambda>_. \<lparr>sqe_flags = 255, sqe_user_data = 0, sqe_buf_group = 0, sqe_body = ('''', 0)\<rparr>),
      cq = (\<lambda>_. \<lparr>cqe_user_data = 0, cqe_res = 0, cqe_flags = 0\<rparr>), uds = (\<lambda>_. None), kern = 1024\<rparr>"

theorem sayhello_builds_chain_witness:
  "\<exists>s'. sayhello linux_uapi sample_preps (\<lambda>k. (k, k + 64)) 8 5 (16, 32) (100, 200, 300) (400, 500) sample_entries
      = Inr (500, s')
    \<and> map (\<lambda>e. (sqe_flags (sq s' e), sqe_body (sq s' e))) [1024, 1088, 1152]
      = [(68, (''write'', 6)), (68, (''write'', 7)), (0, (''close'', 0))]"
proof -
  let ?get = "\<lambda>k :: addr. (k, k + 64)"
  have "preps_clear_flags sample_preps" by (simp add: preps_clear_flags_def sample_preps_def)
  moreover have "?get (kern sample_entries) = (1024, 1088)" "?get 1088 = (1088, 1152)" "?get 1152 = (1152, 1216)"
    by (simp_all add: sample_entries_def)
  moreover have "distinct [null, 1024, 1088, 1152 :: addr]" "distinct [100, 200, 300, 400, 500 :: addr]" by simp_all
  ultimately obtain s' where s': "sayhello linux_uapi sample_preps ?get 8 5 (16, 32) (100, 200, 300) (400, 500) sample_entries
      = Inr (500, s')"
    "\<forall>e \<in> {1024, 1088}. sqe_flags (sq s' e) = IOSQE_IO_LINK linux_uapi OR IOSQE_CQE_SKIP_SUCCESS linux_uapi"
    "sqe_flags (sq s' 1152) = 0"
    "sqe_body (sq s' 1024) = sqe_body (prep_write sample_preps 5 16 6 0 (sq sample_entries 1024))"
    "sqe_body (sq s' 1088) = sqe_body (prep_write sample_preps 5 32 7 0 (sq sample_entries 1088))"
    "sqe_body (sq s' 1152) = sqe_body (prep_close sample_preps 5 (sq sample_entries 1152))"
    using sayhello_builds_chain [of ?get sample_entries 1024 1088 1088 1152 1152 1216 100 200 300 400 500
        sample_preps linux_uapi 8 5 16 32] by blast
  then show ?thesis by (simp add: linux_uapi_def sample_preps_def)
qed

end
