(* ===== verification/ProvidedEcho.thy ===== *)
theory ProvidedEcho
  imports Wrappers Utils "HOL-Library.Multiset"
begin

text \<open>
  The echo server with provided buffers (\<open>examples/feature_provided_buffers.cpp\<close>): the coroutine of a
  client as a state between its suspension points, and all clients together with the pool of
  buffers that the kernel selects from. The guard \<open>rejoin\<close> of an iteration gives the buffer back when
  the scope is left, at the end of the body as well as by the \<open>break\<close>.
\<close>

section \<open>Setting the buffers up\<close>

text \<open>\<open>make_provided_buffers\<close> with the call that sets the ring up (\<open>buf_ring\<close> and \<open>ret\<close> are its results):
  without a ring, an error ends the process.\<close>

definition setup_provided_buffers :: "addr \<Rightarrow> int \<Rightarrow> (u32 \<Rightarrow> u32) \<Rightarrow> addr \<Rightarrow> u32 \<Rightarrow> size_t \<Rightarrow> buf_call list result" where
  "setup_provided_buffers buf_ring ret buf_ring_mask base nentries per_buffer_size =
     and_then (if buf_ring = null then snd (nofail_less ret 0) else Inr 0)
       (\<lambda>_. if buf_ring = null then Inl Null_deref
            else Inr (make_provided_buffers buf_ring_mask base nentries per_buffer_size))"

text \<open>The guard \<open>buf_ring_cleanup\<close> refers to the parameters and the local variable of the call, which it
  reads when it runs; \<open>frame\<close> are they, as long as the call has not returned.\<close>

definition buf_ring_cleanup :: "(addr \<times> addr \<times> u32) option \<Rightarrow> (addr \<times> addr \<times> u32) result" where
  "buf_ring_cleanup frame = (case frame of None \<Rightarrow> Inl Dangling | Some free_buf_ring \<Rightarrow> Inr free_buf_ring)"

lemma cleanup_after_return: "buf_ring_cleanup None = Inl Dangling"
  by (simp add: buf_ring_cleanup_def)

section \<open>The coroutine of a client\<close>

text \<open>The three \<open>co_await\<close>s; in the body, \<open>bid\<close> is the buffer that the guard will give back.\<close>

datatype pe_point = Pe_read | Pe_write u32 | Pe_close u32 | Pe_finished

datatype pe_request =
    Pe_async_read int size_t
  | Pe_async_write int addr int
  | Pe_async_close int

definition rejoin :: "(u32 \<Rightarrow> u32) \<Rightarrow> (size_t \<Rightarrow> addr) \<times> size_t \<times> u32 \<Rightarrow> u32 \<Rightarrow> buf_call list" where
  "rejoin buf_ring_mask helper bid = buffer_rejoin buf_ring_mask helper (sint bid)"

text \<open>\<open>res\<close> is the awaited result, for the read with the buffer number that \<open>await_resume\<close> returned;
  \<open>mem\<close> reads a byte of memory.\<close>

definition pe_resume :: "(u32 \<Rightarrow> u32) \<Rightarrow> (size_t \<Rightarrow> addr) \<times> size_t \<times> u32 \<Rightarrow> (addr \<Rightarrow> char) \<Rightarrow> int
    \<Rightarrow> int \<times> u32 \<Rightarrow> pe_point \<Rightarrow> (pe_point \<times> buf_call list \<times> pe_request option) result" where
  "pe_resume buf_ring_mask helper mem client_fd awaited p =
     (let (buffer_finder, buffer_size, buf_ring_capacity) = helper; (n, new_bid) = awaited
      in case p of
        Pe_read \<Rightarrow> and_then (snd (nofail_less n 0)) (\<lambda>n.
          Inr (Pe_write new_bid, [], Some (Pe_async_write client_fd (buffer_finder (ucast new_bid)) n)))
      | Pe_write bid \<Rightarrow> and_then (snd (nofail_less n 0)) (\<lambda>n.
          let buf = buffer_finder (ucast bid);
              close_proactive = (n > 2 \<and> mem buf = CHR ''Z'' \<and> mem (buf + 1) = CHR ''z'');
              close_reactive = (n = 0)
          in if close_reactive \<or> close_proactive then Inr (Pe_close bid, [], Some (Pe_async_close client_fd))
             else Inr (Pe_read, rejoin buf_ring_mask helper bid, Some (Pe_async_read client_fd buffer_size)))
      | Pe_close bid \<Rightarrow> Inr (Pe_finished, rejoin buf_ring_mask helper bid, None)
      | Pe_finished \<Rightarrow> Inl Dangling)"

section \<open>All clients and the pool\<close>

text \<open>What the kernel may select: the buffers that were added and advanced over.\<close>

fun published :: "buf_call list \<Rightarrow> int multiset" where
  "published [] = {#}"
| "published (Buf_ring_add a n bid msk off # calls) = add_mset bid (published calls)"
| "published (Buf_ring_advance n # calls) = published calls"

record pe =
  pool :: "int multiset"
  clients :: "u32 \<Rightarrow> pe_point"

text \<open>One completion for the client \<open>fd\<close>. A completed read names a buffer of the pool, which it takes
  (\<open>IORING_CQE_F_BUFFER\<close> is set); a failed one takes none.\<close>

inductive pe_step :: "(u32 \<Rightarrow> u32) \<Rightarrow> (size_t \<Rightarrow> addr) \<times> size_t \<times> u32 \<Rightarrow> pe \<Rightarrow> pe \<Rightarrow> bool" for buf_ring_mask helper where
  accept: "clients s fd = Pe_finished \<Longrightarrow> pe_step buf_ring_mask helper s (s\<lparr>clients := (clients s)(fd := Pe_read)\<rparr>)"
| read_done: "clients s fd = Pe_read \<Longrightarrow> sint bid \<in># pool s \<Longrightarrow>
    pe_resume buf_ring_mask helper mem (sint fd) (n, bid) Pe_read = Inr (p, calls, r) \<Longrightarrow>
    pe_step buf_ring_mask helper s
      (s\<lparr>pool := pool s - {#sint bid#} + published calls, clients := (clients s)(fd := p)\<rparr>)"
| other_done: "clients s fd \<in> {Pe_write bid, Pe_close bid} \<Longrightarrow>
    pe_resume buf_ring_mask helper mem (sint fd) awaited (clients s fd) = Inr (p, calls, r) \<Longrightarrow>
    pe_step buf_ring_mask helper s (s\<lparr>pool := pool s + published calls, clients := (clients s)(fd := p)\<rparr>)"

text \<open>The server starts with the buffers of \<open>make_provided_buffers\<close> and no client.\<close>

definition pe_start :: "(u32 \<Rightarrow> u32) \<Rightarrow> addr \<Rightarrow> u32 \<Rightarrow> size_t \<Rightarrow> pe" where
  "pe_start buf_ring_mask base nentries per_buffer_size =
     \<lparr>pool = published (make_provided_buffers buf_ring_mask base nentries per_buffer_size),
      clients = (\<lambda>_. Pe_finished)\<rparr>"

section \<open>Lemmas\<close>

text \<open>The buffer that a client holds.\<close>

definition holds :: "pe_point \<Rightarrow> int multiset" where
  "holds p = (case p of Pe_write bid \<Rightarrow> {#sint bid#} | Pe_close bid \<Rightarrow> {#sint bid#} | _ \<Rightarrow> {#})"

definition held :: "(u32 \<Rightarrow> pe_point) \<Rightarrow> int multiset" where
  "held c = (\<Sum>fd\<in>UNIV. holds (c fd))"

lemma held_update: "held (c(fd := p)) + holds (c fd) = held c + holds p"
proof -
  have split: "held c = holds (c fd) + (\<Sum>x\<in>UNIV - {fd}. holds (c x))" for c
    unfolding held_def by (rule sum.remove) simp_all
  have "(\<Sum>x\<in>UNIV - {fd}. holds ((c(fd := p)) x)) = (\<Sum>x\<in>UNIV - {fd}. holds (c x))"
    by (rule sum.cong) simp_all
  then show ?thesis using split [of c] split [of "c(fd := p)"] by (simp add: ac_simps)
qed

lemma published_append [simp]: "published (xs @ ys) = published xs + published ys"
  by (induction xs rule: published.induct) simp_all

lemma published_rejoin [simp]: "published (rejoin buf_ring_mask helper bid) = {#sint bid#}"
  by (simp add: rejoin_def buffer_rejoin_def split: prod.split)

text \<open>Resuming a client exchanges what it holds with what it publishes.\<close>

lemma pe_resume_exchange:
  assumes "pe_resume buf_ring_mask helper mem fd (n, new_bid) p = Inr (q, calls, r)"
  shows "holds q + published calls = holds p + (if p = Pe_read then {#sint new_bid#} else {#})"
  using assms
  by (cases p) (auto simp: pe_resume_def Let_def holds_def split: prod.splits if_splits)

lemma pe_step_conserves:
  assumes "pe_step buf_ring_mask helper s t"
  shows "pool t + held (clients t) = pool s + held (clients s)"
  using assms
proof cases
  case (accept fd)
  from held_update [of "clients s" fd Pe_read] accept show ?thesis by (simp add: holds_def)
next
  case (read_done fd bid mem n p calls r)
  let ?h = "held ((clients s)(fd := p))"
  from pe_resume_exchange [OF read_done(4)] have ex: "holds p + published calls = {#sint bid#}"
    by (simp add: holds_def)
  have h: "?h = held (clients s) + holds p"
    using held_update [of "clients s" fd p] by (simp add: read_done(2) holds_def)
  have "pool s - {#sint bid#} + published calls + ?h
      = pool s - {#sint bid#} + (holds p + published calls) + held (clients s)"
    unfolding h by (simp only: ac_simps)
  also have "\<dots> = pool s + held (clients s)"
    unfolding ex using read_done(3) by simp
  finally show ?thesis by (simp add: read_done(1))
next
  case (other_done fd bid mem awaited p calls r)
  obtain n new_bid where aw: "awaited = (n, new_bid)" by force
  let ?h = "held ((clients s)(fd := p))" and ?o = "holds (clients s fd)"
  have nr: "clients s fd \<noteq> Pe_read" using other_done(2) by auto
  have ex: "holds p + published calls = ?o"
    using pe_resume_exchange [OF other_done(3) [unfolded aw]] by (simp add: nr)
  have "pool s + published calls + ?h + ?o = pool s + (holds p + published calls) + held (clients s)"
    using held_update [of "clients s" fd p] by (simp only: ac_simps)
  also have "\<dots> = pool s + held (clients s) + ?o" unfolding ex by (simp only: ac_simps)
  finally show ?thesis by (simp add: other_done(1))
qed

lemma published_start:
  "published (make_provided_buffers buf_ring_mask base nentries sz) = mset (map int [0..<unat nentries])"
proof -
  have "published (map (\<lambda>i. Buf_ring_add (f i) n (int i) m (int i)) is) = mset (map int is)" for f n m "is"
    by (induction "is") simp_all
  then show ?thesis by (simp add: make_provided_buffers_def)
qed

lemma held_two: "fd' \<noteq> fd \<Longrightarrow> holds (c fd) + holds (c fd') \<subseteq># held c"
proof -
  assume fd: "fd' \<noteq> fd"
  have "held c = holds (c fd) + (\<Sum>x\<in>UNIV - {fd}. holds (c x))"
    unfolding held_def by (rule sum.remove) simp_all
  also have "(\<Sum>x\<in>UNIV - {fd}. holds (c x)) = holds (c fd') + (\<Sum>x\<in>UNIV - {fd} - {fd'}. holds (c x))"
    using fd by (intro sum.remove) simp_all
  finally show ?thesis by simp
qed

section \<open>Property\<close>


definition sample_pe :: pe where
  "sample_pe = (let s = pe_start id 4096 4 64 in
     s\<lparr>pool := pool s - {#2#}, clients := (clients s)(7 := Pe_write 2)\<rparr>)"


end
