(* ===== verification/MultishotServer.thy ===== *)
theory MultishotServer
  imports Wrappers IoContext Utils
begin

text \<open>
  The server of \<open>examples/feature_multishot2.cpp\<close>, run by the event loop: one multishot accept whose
  completions all resume the same coroutine, until the kernel ends it and the server falls back to a
  single accept for each client.
\<close>

section \<open>The coroutine\<close>

text \<open>The two \<open>co_await\<close>s of the loop. The coroutine keeps its point of suspension next to the state of
  the ring; \<open>awaiter\<close> and \<open>single\<close> are the addresses of the two operations in its frame.\<close>

datatype ms_point = Ms_awaiter | Ms_single

record 'q ms_kern =
  ms_at :: ms_point
  ms_ring :: 'q

record ms_frame =
  ms_awaiter :: addr
  ms_single :: addr
  ms_uring :: addr
  ms_server_fd :: int
  ms_self :: handle

text \<open>The head of the loop: which operation is awaited next. Before it suspends, an operation is ready
  only when it got no submission entry; it then returns \<open>-ENOMEM\<close>, and \<open>nofail\<close> ends the process.\<close>

definition ms_await :: "addr \<Rightarrow> ms_point \<Rightarrow> ms_frame \<Rightarrow> ('p, 'q ms_kern) io_context
    \<Rightarrow> ('p, 'q ms_kern) io_context result" where
  "ms_await op point f c =
     and_then (await_ready op c) (\<lambda>ready. if ready then Inl Terminated
       else and_then (await_suspend (ms_self f) op c)
         (\<lambda>c1. Inr (c1\<lparr>kern := (kern c1)\<lparr>ms_at := point\<rparr>\<rparr>)))"

definition ms_loop_head :: "'p prep_fns \<Rightarrow> ('q \<Rightarrow> addr \<times> 'q) \<Rightarrow> ms_frame \<Rightarrow> ('p, 'q ms_kern) io_context
    \<Rightarrow> ('p, 'q ms_kern) io_context result" where
  "ms_loop_head P get_sqe f c =
     and_then (multishot_bool (ms_awaiter f) c) (\<lambda>more.
       if more then ms_await (ms_awaiter f) Ms_awaiter f c
       else let get = (\<lambda>k. let (e, q) = get_sqe (ms_ring k) in (e, k\<lparr>ms_ring := q\<rparr>))
         in ms_await (ms_single f) Ms_single f
              (async_accept_any P get (ms_uring f) (ms_server_fd f) 0 (ms_single f) c))"

text \<open>Resumed with a client, the server spawns \<open>echo\<close> for it (the handle \<open>echo fd\<close>) and goes on.\<close>

definition ms_resume :: "uapi \<Rightarrow> 'p prep_fns \<Rightarrow> ('q \<Rightarrow> addr \<times> 'q) \<Rightarrow> (int \<Rightarrow> handle) \<Rightarrow> ms_frame
    \<Rightarrow> ('p, 'q ms_kern) io_context \<Rightarrow> ('p, 'q ms_kern) io_context result" where
  "ms_resume U P get_sqe echo f c =
     and_then (case ms_at (kern c) of
         Ms_awaiter \<Rightarrow> multishot_await_resume U (ms_awaiter f) c
       | Ms_single \<Rightarrow> and_then (await_resume (ms_single f) c) (\<lambda>res. Inr (res, c)))
     (\<lambda>(res, c1). and_then (snd (nofail_less res 0)) (\<lambda>client_fd.
        ms_loop_head P get_sqe f (co_spawn (echo client_fd) c1)))"

text \<open>The event loop with this server as its only coroutine that completions resume.\<close>

definition ms_serves :: "uapi \<Rightarrow> 'p prep_fns \<Rightarrow> ('q \<Rightarrow> addr \<times> 'q) \<Rightarrow> (int \<Rightarrow> handle) \<Rightarrow> ms_frame
    \<Rightarrow> ('p, 'q ms_kern) loop_env \<Rightarrow> bool" where
  "ms_serves U P get_sqe echo f env \<longleftrightarrow> (\<exists>n. ms_self f = Coro n)
     \<and> (\<forall>c. resume env (ms_self f) c = ms_resume U P get_sqe echo f c)"

section \<open>Lemmas\<close>

lemma reap_append:
  "reap env (xs @ ys) n c = and_then (reap env xs n c) (\<lambda>(n', c'). reap env ys n' c')"
proof (induction xs arbitrary: n c)
  case (Cons x xs)
  show ?case
  proof (cases "cqe_res (cq c x) = - ECANCELED")
    case True
    with Cons show ?thesis by simp
  next
    case False
    then show ?thesis
      using Cons by (cases "deliver x c") (auto simp: and_then_assoc fun_eq_iff intro!: arg_cong [of _ _ "and_then _"])
  qed
qed simp

text \<open>The server is suspended on the multishot operation, which the kernel still serves.\<close>

definition ms_waiting :: "ms_frame \<Rightarrow> ('p, 'q ms_kern) io_context \<Rightarrow> bool" where
  "ms_waiting f c \<longleftrightarrow> (\<exists>ud. uds c (ms_awaiter f) = Some ud \<and> ud_uring ud \<noteq> null \<and> ud_sqe ud \<noteq> null
     \<and> ud_cqe ud = null \<and> ud_h ud = ms_self f) \<and> ms_at (kern c) = Ms_awaiter"

definition accepts :: "ms_frame \<Rightarrow> ('p, 'q ms_kern) io_context \<Rightarrow> addr \<Rightarrow> bool" where
  "accepts f c a \<longleftrightarrow> a \<noteq> null \<and> cqe_user_data (cq c a) = ms_awaiter f \<and> 0 \<le> cqe_res (cq c a)"

definition announces_more :: "uapi \<Rightarrow> ('p, 'q ms_kern) io_context \<Rightarrow> addr \<Rightarrow> bool" where
  "announces_more U c a \<longleftrightarrow> cqe_flags (cq c a) AND IORING_CQE_F_MORE U \<noteq> 0"

text \<open>A completion that announces more leaves everything as it was, but for the client that is spawned.\<close>

lemma reap_one_more:
  assumes srv: "ms_serves U P get_sqe echo f env" and w: "ms_waiting f c"
    and a: "accepts f c a" "announces_more U c a"
  shows "reap env [a] n c = Inr (n + 1, co_spawn (echo (cqe_res (cq c a))) c)"
proof -
  from w obtain ud where ud: "uds c (ms_awaiter f) = Some ud" "ud_uring ud \<noteq> null" "ud_sqe ud \<noteq> null"
    "ud_cqe ud = null" "ud_h ud = ms_self f" "ms_at (kern c) = Ms_awaiter" by (auto simp: ms_waiting_def)
  obtain k where hself: "ms_self f = Coro k" and res: "\<And>c. resume env (Coro k) c = ms_resume U P get_sqe echo f c"
    using srv by (auto simp: ms_serves_def)
  have same: "(uds c)(ms_awaiter f \<mapsto> ud\<lparr>ud_cqe := null, ud_h := Coro k\<rparr>) = uds c"
    using ud hself by (auto simp: fun_eq_iff)
  from a ud show ?thesis
    by (simp add: accepts_def announces_more_def aio_defs ECANCELED_def hself res ms_resume_def
        multishot_await_resume_def ms_loop_head_def multishot_bool_def ms_await_def co_spawn_def
        nofail_less_def nofail_def Let_def same)
qed

lemma reap_more:
  assumes srv: "ms_serves U P get_sqe echo f env"
  shows "ms_waiting f c \<Longrightarrow> \<forall>a \<in> set cqes. accepts f c a \<and> announces_more U c a \<Longrightarrow>
    reap env cqes n c = Inr (n + of_nat (length cqes),
      c\<lparr>operations := operations c @ map (\<lambda>a. echo (cqe_res (cq c a))) cqes\<rparr>)"
proof (induction cqes arbitrary: c n)
  case (Cons a cqes)
  let ?c = "co_spawn (echo (cqe_res (cq c a))) c"
  have keep: "ms_waiting f ?c" "\<forall>b \<in> set cqes. accepts f ?c b \<and> announces_more U ?c b"
    using Cons.prems by (auto simp: co_spawn_def ms_waiting_def accepts_def announces_more_def)
  have "reap env ([a] @ cqes) n c = reap env cqes (n + 1) ?c"
    unfolding reap_append using reap_one_more [OF srv Cons.prems(1), of a] Cons.prems(2) by simp
  also have "\<dots> = Inr (n + 1 + of_nat (length cqes),
      ?c\<lparr>operations := operations ?c @ map (\<lambda>b. echo (cqe_res (cq ?c b))) cqes\<rparr>)"
    by (rule Cons.IH [OF keep])
  finally show ?case by (simp add: co_spawn_def add.assoc)
qed simp

text \<open>The last completion: the operation is over, and the server awaits a single accept.\<close>

lemma reap_last:
  assumes srv: "ms_serves U P get_sqe echo f env" and w: "ms_waiting f c"
    and a: "accepts f c a" "\<not> announces_more U c a"
    and sqe: "get_sqe (ms_ring (kern c)) = (e, q)" "e \<noteq> null" and ne: "ms_single f \<noteq> ms_awaiter f"
  shows "\<exists>c'. reap env [a] n c = Inr (n + 1, c') \<and> operations c' = operations c @ [echo (cqe_res (cq c a))]
    \<and> ms_at (kern c') = Ms_single \<and> multishot_bool (ms_awaiter f) c' = Inr False
    \<and> sq c' = (sq c)(e := io_uring_sqe_set_data (ms_single f)
        (prep_accept P (ms_server_fd f) null null 0 (sq c e)))"
proof -
  from w obtain ud where ud: "uds c (ms_awaiter f) = Some ud" "ud_uring ud \<noteq> null" "ud_sqe ud \<noteq> null"
    "ud_cqe ud = null" "ud_h ud = ms_self f" "ms_at (kern c) = Ms_awaiter" by (auto simp: ms_waiting_def)
  obtain k where hself: "ms_self f = Coro k" and res: "\<And>c. resume env (Coro k) c = ms_resume U P get_sqe echo f c"
    using srv by (auto simp: ms_serves_def)
  from a ud sqe ne ne [symmetric] show ?thesis
    by (simp add: accepts_def announces_more_def aio_defs ECANCELED_def hself res ms_resume_def
        multishot_await_resume_def ms_loop_head_def multishot_bool_def ms_await_def co_spawn_def
        async_accept_any_def nofail_less_def nofail_def Let_def)
qed

section \<open>Property\<close>

text \<open>
  C30. The multishot server loses no client: one round of the event loop that reaps any number of
  completions of the multishot accept spawns an \<open>echo\<close> for each of them, in ring order, and leaves
  everything else as it was, so the server waits for more without a new submission entry; and when
  the last of them announces no more, its client is served too and the server goes on with a single
  accept, prepared in a new entry that names this second operation.
\<close>

theorem multishot_server_accepts_all:
  assumes "ms_serves U P get_sqe echo f env" and "ms_waiting f c"
    and "\<forall>a \<in> set cqes. accepts f c a \<and> announces_more U c a"
    and "accepts f c z" and "\<not> announces_more U c z"
    and "get_sqe (ms_ring (kern c)) = (e, q)" and "e \<noteq> null" and "ms_single f \<noteq> ms_awaiter f"
  defines "c1 \<equiv> c\<lparr>operations := operations c @ map (\<lambda>a. echo (cqe_res (cq c a))) cqes\<rparr>"
  shows "reap env cqes 0 c = Inr (of_nat (length cqes), c1) \<and> ms_waiting f c1
    \<and> (\<exists>c2. reap env (cqes @ [z]) 0 c = Inr (of_nat (length cqes) + 1, c2)
        \<and> operations c2 = operations c @ map (\<lambda>a. echo (cqe_res (cq c a))) (cqes @ [z])
        \<and> ms_at (kern c2) = Ms_single \<and> multishot_bool (ms_awaiter f) c2 = Inr False
        \<and> sq c2 = (sq c)(e := io_uring_sqe_set_data (ms_single f)
            (prep_accept P (ms_server_fd f) null null 0 (sq c e))))"
proof -
  have r1: "reap env cqes 0 c = Inr (of_nat (length cqes), c1)"
    using reap_more [OF assms(1-3), of 0] by (simp add: c1_def)
  have w1: "ms_waiting f c1" using assms(2) by (simp add: c1_def ms_waiting_def)
  have z: "accepts f c1 z" "\<not> announces_more U c1 z" "get_sqe (ms_ring (kern c1)) = (e, q)"
    using assms(4-6) by (simp_all add: c1_def accepts_def announces_more_def)
  from reap_last [OF assms(1) w1 z assms(7,8)] r1 w1 show ?thesis
    by (simp add: reap_append c1_def)
qed

definition sample_ms_frame :: ms_frame where
  "sample_ms_frame = \<lparr>ms_awaiter = 64, ms_single = 128, ms_uring = 8, ms_server_fd = 3, ms_self = Coro 0\<rparr>"

definition sample_ms_env :: "(string \<times> nat, addr ms_kern) loop_env" where
  "sample_ms_env =
     \<lparr>resume = (\<lambda>h. ms_resume linux_uapi sample_preps (\<lambda>q. (q, q + 64)) (\<lambda>fd. Coro (nat fd)) sample_ms_frame),
      submit = (\<lambda>c. (0, c)), peek = (\<lambda>c. []), advance = (\<lambda>n c. c)\<rparr>"

definition sample_ms_context :: "(string \<times> nat, addr ms_kern) io_context" where
  "sample_ms_context =
     \<lparr>sq = sq sample_entries,
      cq = (\<lambda>a. \<lparr>cqe_user_data = 64, cqe_res = int (unat a), cqe_flags = (if a = 9 then 0 else 2)\<rparr>),
      uds = (\<lambda>_. None)(64 \<mapsto> \<lparr>ud_uring = 8, ud_sqe = 32, ud_cqe = 0, ud_h = Coro 0\<rparr>),
      kern = \<lparr>ms_at = Ms_awaiter, ms_ring = 1024\<rparr>, operations = [], inflight = 1, stop_flag = False,
      switch_spsc = fifo_new 64 Null_handle\<rparr>"

theorem multishot_server_accepts_all_witness:
  "\<exists>c. reap sample_ms_env [5, 7, 9] 0 sample_ms_context = Inr (3, c) \<and> operations c = [Coro 5, Coro 7, Coro 9]"
proof -
  have "ms_serves linux_uapi sample_preps (\<lambda>q. (q, q + 64)) (\<lambda>fd. Coro (nat fd)) sample_ms_frame sample_ms_env"
    by (simp add: ms_serves_def sample_ms_env_def sample_ms_frame_def)
  moreover have "ms_waiting sample_ms_frame sample_ms_context"
    by (simp add: ms_waiting_def sample_ms_frame_def sample_ms_context_def)
  moreover have "\<forall>a \<in> set [5, 7]. accepts sample_ms_frame sample_ms_context a \<and> announces_more linux_uapi sample_ms_context a"
    "accepts sample_ms_frame sample_ms_context 9" "\<not> announces_more linux_uapi sample_ms_context 9"
    by (simp_all add: accepts_def announces_more_def sample_ms_frame_def sample_ms_context_def linux_uapi_def)
  moreover have "(\<lambda>q. (q, q + 64)) (ms_ring (kern sample_ms_context)) = (1024, 1088)" "(1024 :: addr) \<noteq> null"
    "ms_single sample_ms_frame \<noteq> ms_awaiter sample_ms_frame"
    by (simp_all add: sample_ms_context_def sample_ms_frame_def)
  ultimately obtain c2 where "reap sample_ms_env ([5, 7] @ [9]) 0 sample_ms_context = Inr (of_nat (length [5, 7 :: addr]) + 1, c2)"
    "operations c2 = operations sample_ms_context @ map (\<lambda>a. Coro (nat (cqe_res (cq sample_ms_context a)))) ([5, 7] @ [9])"
    using multishot_server_accepts_all [of linux_uapi sample_preps "\<lambda>q. (q, q + 64)" "\<lambda>fd. Coro (nat fd)" sample_ms_frame
        sample_ms_env sample_ms_context "[5, 7]" 9 1024 1088] by blast
  then show ?thesis by (simp add: sample_ms_context_def)
qed

end
