(* ===== verification/LinkServer.thy ===== *)
theory LinkServer
  imports Wrappers IoContext Utils
begin

text \<open>
  The server of \<open>examples/feature_io_link.cpp\<close>, run by the event loop: it accepts one client after the
  other with the same operation object and spawns \<open>sayhello\<close> (\<open>Wrappers\<close>) for each. The servers of
  \<open>examples/echo_coroutine.cpp\<close> and \<open>examples/feature_sqpoll.cpp\<close> are the same loop with \<open>echo\<close> in its place.
\<close>

section \<open>The coroutine\<close>

text \<open>What the frame of the coroutine holds: the accept it awaits, its parameters, and its own handle.\<close>

record ls_frame =
  ls_accept :: addr
  ls_uring :: addr
  ls_server_fd :: int
  ls_self :: handle

text \<open>The head of the loop. A new accept is ready only when it got no submission entry; it then returns
  \<open>-ENOMEM\<close>, and \<open>nofail\<close> ends the process.\<close>

definition link_server :: "'p prep_fns \<Rightarrow> ('k \<Rightarrow> addr \<times> 'k) \<Rightarrow> ls_frame \<Rightarrow> ('p, 'k) io_context
    \<Rightarrow> ('p, 'k) io_context result" where
  "link_server P get_sqe f c =
     (let c1 = async_accept_any P get_sqe (ls_uring f) (ls_server_fd f) 0 (ls_accept f) c
      in and_then (await_ready (ls_accept f) c1) (\<lambda>ready.
           if ready then Inl Terminated else await_suspend (ls_self f) (ls_accept f) c1))"

text \<open>Resumed with a client: \<open>hello fd\<close> is the handle of the coroutine \<open>sayhello(uring, fd)\<close>.\<close>

definition link_server_resume :: "'p prep_fns \<Rightarrow> ('k \<Rightarrow> addr \<times> 'k) \<Rightarrow> (int \<Rightarrow> handle) \<Rightarrow> ls_frame
    \<Rightarrow> ('p, 'k) io_context \<Rightarrow> ('p, 'k) io_context result" where
  "link_server_resume P get_sqe hello f c =
     and_then (await_resume (ls_accept f) c) (\<lambda>res.
       and_then (snd (nofail_less res 0)) (\<lambda>client_fd.
         link_server P get_sqe f (co_spawn (hello client_fd) c)))"

text \<open>The server is suspended on its accept, for which nothing has been delivered yet.\<close>

definition ls_waiting :: "ls_frame \<Rightarrow> ('p, 'k) io_context \<Rightarrow> bool" where
  "ls_waiting f c \<longleftrightarrow> (\<exists>ud. uds c (ls_accept f) = Some ud \<and> ud_uring ud = ls_uring f \<and> ud_sqe ud \<noteq> null
     \<and> ud_cqe ud = null \<and> ud_h ud = ls_self f)"

text \<open>
  A round that reaps the accept: a client is spawned for a descriptor, and the server waits again, on an
  accept prepared in the next free entry; without one, or when the accept failed, the process ends.
\<close>

theorem link_server_serves:
  assumes self: "ls_self f = Coro h" and res: "resume env (Coro h) = link_server_resume P get_sqe hello f"
    and wait: "ls_waiting f c" and a: "a \<noteq> null" "cqe_user_data (cq c a) = ls_accept f" "cqe_res (cq c a) \<noteq> - ECANCELED"
    and sqe: "get_sqe (kern c) = (e, k)"
  shows "if 0 \<le> cqe_res (cq c a) \<and> e \<noteq> null
    then \<exists>c'. reap env [a] n c = Inr (n + 1, c') \<and> operations c' = operations c @ [hello (cqe_res (cq c a))]
      \<and> ls_waiting f c' \<and> kern c' = k
      \<and> sq c' = (sq c)(e := io_uring_sqe_set_data (ls_accept f) (prep_accept P (ls_server_fd f) null null 0 (sq c e)))
    else reap env [a] n c = Inl Terminated"
proof -
  from wait obtain ud where ud: "uds c (ls_accept f) = Some ud" "ud_uring ud = ls_uring f" "ud_sqe ud \<noteq> null"
    "ud_cqe ud = null" "ud_h ud = ls_self f" by (auto simp: ls_waiting_def)
  show ?thesis
    using a ud sqe
    by (simp add: aio_defs res self link_server_resume_def link_server_def async_accept_any_def co_spawn_def
        nofail_less_def nofail_def ls_waiting_def Let_def)
qed

definition sample_ls_frame :: ls_frame where
  "sample_ls_frame = \<lparr>ls_accept = 64, ls_uring = 8, ls_server_fd = 3, ls_self = Coro 0\<rparr>"

definition sample_ls_env :: "(string \<times> nat, addr) loop_env" where
  "sample_ls_env =
     \<lparr>resume = (\<lambda>h. link_server_resume sample_preps (\<lambda>q. (q, q + 64)) (\<lambda>fd. Coro (nat fd)) sample_ls_frame),
      submit = (\<lambda>c. (0, c)), peek = (\<lambda>c. []), advance = (\<lambda>n c. c)\<rparr>"

definition sample_ls_context :: "(string \<times> nat, addr) io_context" where
  "sample_ls_context =
     \<lparr>sq = sq sample_entries, cq = (\<lambda>a. \<lparr>cqe_user_data = 64, cqe_res = int (unat a), cqe_flags = 0\<rparr>),
      uds = (\<lambda>_. None)(64 \<mapsto> \<lparr>ud_uring = 8, ud_sqe = 32, ud_cqe = 0, ud_h = Coro 0\<rparr>),
      kern = 1024, operations = [], inflight = 1, stop_flag = False, switch_spsc = fifo_new 64 Null_handle\<rparr>"

theorem link_server_serves_witness:
  "\<exists>c. reap sample_ls_env [7] 0 sample_ls_context = Inr (1, c) \<and> operations c = [Coro 7] \<and> kern c = 1088"
proof -
  have "ls_self sample_ls_frame = Coro 0" "ls_waiting sample_ls_frame sample_ls_context"
    "resume sample_ls_env (Coro 0) = link_server_resume sample_preps (\<lambda>q. (q, q + 64)) (\<lambda>fd. Coro (nat fd)) sample_ls_frame"
    by (simp_all add: sample_ls_frame_def sample_ls_context_def sample_ls_env_def ls_waiting_def)
  from link_server_serves [OF this(1,3,2), of 7 1024 1088 0] show ?thesis
    by (auto simp: sample_ls_frame_def sample_ls_context_def ECANCELED_def)
qed

end
