(* ===== verification/DrainServer.thy ===== *)
theory DrainServer
  imports EchoCoroutine
begin

text \<open>
  The echo server of \<open>examples/feature_io_drain.cpp\<close>, whose accepts are draining: the coroutines \<open>server\<close>
  and \<open>echo\<close>, the rounds of the event loop that runs them, and a kernel that starts and completes
  requests in any order the flag allows. \<open>echo\<close> is the coroutine of \<open>examples/echo_coroutine.cpp\<close>,
  line by line (\<open>EchoCoroutine\<close>). The property is the comment on \<open>server\<close>: who is answered before whom.
\<close>

section \<open>The state\<close>

text \<open>The parts of a round of \<open>run_once\<close>: some coroutines are still to be resumed before the entries are
  submitted, or completions are reaped.\<close>

datatype drain_phase = Resuming nat | Reaping

text \<open>The clients are numbered in the order they were accepted; for each, its descriptor and its coroutine
  once that has started. All entries ever taken are kept, with the client they belong to (\<open>None\<close>: the
  server's accepts, the only draining ones), and all completions ever posted, of which the first
  \<open>dr_head\<close> have been reaped. \<open>dr_pending\<close> is the queue \<open>_operations\<close>.\<close>

record drain_state =
  dr_phase :: drain_phase
  dr_pending :: "nat list"
  dr_entries :: "(nat option \<times> request) list"
  dr_submitted :: nat
  dr_started :: "nat set"
  dr_cqes :: "(nat \<times> int \<times> char list) list"
  dr_head :: nat
  dr_clients :: "(u32 \<times> echo_co option) list"

definition dr_ENTRIES :: nat where "dr_ENTRIES = 256"

section \<open>The coroutines\<close>

text \<open>\<open>co_await\<close> of an operation takes an entry. When the queue is full, the constructor of the draining
  accept faults.\<close>

definition dr_room :: "drain_state \<Rightarrow> bool" where
  "dr_room s \<longleftrightarrow> length (dr_entries s) - dr_submitted s < dr_ENTRIES"

definition drain_accept :: "drain_state \<Rightarrow> drain_state result" where
  "drain_accept s =
     (if dr_room s then Inr (s\<lparr>dr_entries := dr_entries s @ [(None, Req_accept)]\<rparr>) else Inl Null_deref)"

text \<open>The other operations do not suspend then: a read or write yields \<open>-ENOMEM\<close> to \<open>nofail\<close>, and after the
  close, whose result is not looked at, \<open>echo\<close> ends.\<close>

definition echo_await :: "nat \<Rightarrow> request \<Rightarrow> drain_state \<Rightarrow> drain_state result" where
  "echo_await j req s =
     (if dr_room s then Inr (s\<lparr>dr_entries := dr_entries s @ [(Some j, req)]\<rparr>)
      else case req of
        Req_close fd \<Rightarrow> Inr (s\<lparr>dr_clients := (dr_clients s)[j := (fd,
          map_option (point_update (\<lambda>_. Finished)) (snd (dr_clients s ! j)))]\<rparr>)
      | _ \<Rightarrow> Inl Terminated)"

text \<open>\<open>server\<close>, resumed with the result of its accept: it spawns \<open>echo\<close> and awaits the next client.\<close>

definition drain_server :: "int \<Rightarrow> drain_state \<Rightarrow> drain_state result" where
  "drain_server res s = and_then (snd (nofail_less res 0)) (\<lambda>client_fd.
     drain_accept
       (s\<lparr>dr_clients := dr_clients s @ [(of_int client_fd, None)],
          dr_pending := dr_pending s @ [length (dr_clients s)]\<rparr>))"

text \<open>\<open>echo\<close> of client \<open>j\<close>, from its start and from a \<open>co_await\<close>.\<close>

definition drain_echo_start :: "nat \<Rightarrow> drain_state \<Rightarrow> drain_state result" where
  "drain_echo_start j s =
     (let fd = fst (dr_clients s ! j); (c, req) = echo_co_start fd
      in echo_await j req (s\<lparr>dr_clients := (dr_clients s)[j := (fd, Some c)]\<rparr>))"

definition drain_echo_resume :: "nat \<Rightarrow> int \<Rightarrow> char list \<Rightarrow> drain_state \<Rightarrow> drain_state result" where
  "drain_echo_resume j res bytes s = (case dr_clients s ! j of
     (fd, None) \<Rightarrow> Inl Dangling
   | (fd, Some c) \<Rightarrow> and_then (echo_co_resume fd res bytes c) (\<lambda>(c1, r).
       let s1 = s\<lparr>dr_clients := (dr_clients s)[j := (fd, Some c1)]\<rparr>
       in case r of None \<Rightarrow> Inr s1 | Some req \<Rightarrow> echo_await j req s1))"

text \<open>\<open>run_once\<close> on one completion.\<close>

definition drain_reap :: "drain_state \<Rightarrow> drain_state result option" where
  "drain_reap s = (if dr_head s < length (dr_cqes s)
     then let (i, res, bytes) = dr_cqes s ! dr_head s; s1 = s\<lparr>dr_head := dr_head s + 1\<rparr>
       in Some (if res = - ECANCELED then Inr s1
         else case fst (dr_entries s ! i) of
           None \<Rightarrow> drain_server res s1
         | Some j \<Rightarrow> drain_echo_resume j res bytes s1)
     else None)"

section \<open>The steps\<close>

text \<open>The documented rule for \<open>IOSQE_IO_DRAIN\<close>, as in the comment of \<open>feature_io_drain.h\<close>: a draining
  request is started when the previous ones are complete, and no later one before it is.\<close>

definition dr_completed :: "drain_state \<Rightarrow> nat set" where
  "dr_completed s = fst ` set (dr_cqes s)"

definition barrier :: "(nat option \<times> request) list \<Rightarrow> nat \<Rightarrow> nat \<Rightarrow> bool" where
  "barrier es k i \<longleftrightarrow> fst (es ! k) = None \<or> fst (es ! i) = None"

definition may_start :: "nat \<Rightarrow> drain_state \<Rightarrow> bool" where
  "may_start i s \<longleftrightarrow> i < dr_submitted s \<and> i \<notin> dr_started s
     \<and> (\<forall>k \<in> set [0..<i]. barrier (dr_entries s) k i \<longrightarrow> k \<in> dr_completed s)"

text \<open>What the kernel and the loop do. The program cancels nothing, so no completion says so.\<close>

datatype drain_event =
    Kernel_start nat
  | Kernel_complete nat int "char list"
  | Begin_round
  | Resume_one
  | Submit_until nat
  | Reap_one

fun drain_step :: "drain_event \<Rightarrow> drain_state \<Rightarrow> drain_state result option" where
  "drain_step (Kernel_start i) s =
     (if may_start i s then Some (Inr (s\<lparr>dr_started := insert i (dr_started s)\<rparr>)) else None)"
| "drain_step (Kernel_complete i res bytes) s =
     (if i \<in> dr_started s \<and> i \<notin> dr_completed s \<and> res \<noteq> - ECANCELED
      then Some (Inr (s\<lparr>dr_cqes := dr_cqes s @ [(i, res, bytes)]\<rparr>)) else None)"
| "drain_step Begin_round s =
     (if dr_phase s = Reaping then Some (Inr (s\<lparr>dr_phase := Resuming (min 32 (length (dr_pending s)))\<rparr>))
      else None)"
| "drain_step Resume_one s = (case (dr_phase s, dr_pending s) of
     (Resuming (Suc n), j # js) \<Rightarrow> Some (drain_echo_start j (s\<lparr>dr_phase := Resuming n, dr_pending := js\<rparr>))
   | _ \<Rightarrow> None)"
| "drain_step (Submit_until n) s =
     (if dr_phase s = Resuming 0 \<and> dr_submitted s \<le> n \<and> n \<le> length (dr_entries s)
      then Some (Inr (s\<lparr>dr_phase := Reaping, dr_submitted := n\<rparr>)) else None)"
| "drain_step Reap_one s = (if dr_phase s = Reaping then drain_reap s else None)"

text \<open>The first round has started \<open>server\<close>, which awaits the first accept.\<close>

definition drain_start :: drain_state where
  "drain_start = \<lparr>dr_phase = Resuming 0, dr_pending = [], dr_entries = [(None, Req_accept)], dr_submitted = 0,
     dr_started = {}, dr_cqes = [], dr_head = 0, dr_clients = []\<rparr>"

inductive drain_reachable :: "drain_state \<Rightarrow> bool" where
  start: "drain_reachable drain_start"
| step: "drain_reachable s \<Longrightarrow> drain_step ev s = Some (Inr t) \<Longrightarrow> drain_reachable t"

section \<open>Counting entries\<close>

text \<open>How many entries belong to \<open>who\<close>.\<close>

definition owned :: "nat option \<Rightarrow> (nat option \<times> request) list \<Rightarrow> nat" where
  "owned who es = length (filter (\<lambda>e. fst e = who) es)"

lemma owned_simps [simp]:
  "owned who [] = 0" "owned who (es @ [e]) = owned who es + (if fst e = who then 1 else 0)"
  by (simp_all add: owned_def)

lemma owned_Suc:
  "i < length es \<Longrightarrow> owned who (take (Suc i) es) = owned who (take i es) + (if fst (es ! i) = who then 1 else 0)"
  by (simp add: take_Suc_conv_app_nth)

lemma owned_mono: "i \<le> j \<Longrightarrow> owned who (take i es) \<le> owned who (take j es)"
proof -
  assume "i \<le> j"
  then obtain d where "j = i + d" using le_Suc_ex by blast
  then show ?thesis by (simp add: take_add owned_def)
qed

lemma owned_le: "owned who (take i es) \<le> owned who es"
  using owned_mono [of i "max i (length es)" who es] by simp

lemma owned_none_between:
  "x \<le> y \<Longrightarrow> y \<le> length es \<Longrightarrow> (\<And>i. x \<le> i \<Longrightarrow> i < y \<Longrightarrow> fst (es ! i) \<noteq> who)
   \<Longrightarrow> owned who (take y es) = owned who (take x es)"
proof (induction y rule: nat_induct_at_least [of x, consumes 1, case_names base step])
  case (step y)
  then show ?case by (simp add: owned_Suc)
qed auto

lemma owned_less_between:
  assumes "owned who (take x es) < owned who (take y es)" "y \<le> length es"
  shows "\<exists>i. x \<le> i \<and> i < y \<and> fst (es ! i) = who"
proof (rule ccontr)
  assume none: "\<nexists>i. x \<le> i \<and> i < y \<and> fst (es ! i) = who"
  have "x \<le> y" using assms(1) owned_mono [of y x who es] by (meson leD nle_le)
  with owned_none_between [OF this assms(2), of who] none assms(1) show False by auto
qed

lemma owned_card: "i \<le> length es \<Longrightarrow> owned who (take i es) = card {k. k < i \<and> fst (es ! k) = who}"
proof -
  assume "i \<le> length es"
  then have "{k. k < length (take i es) \<and> fst (take i es ! k) = who} = {k. k < i \<and> fst (es ! k) = who}" by auto
  then show ?thesis by (simp add: owned_def length_filter_conv_card)
qed

lemma owned_nth: "p < owned who es \<Longrightarrow> \<exists>w < length es. fst (es ! w) = who \<and> owned who (take w es) = p"
proof (induction es rule: rev_induct)
  case (snoc e es)
  show ?case
  proof (cases "p < owned who es")
    case True
    with snoc.IH obtain w where "w < length es" "fst (es ! w) = who" "owned who (take w es) = p" by blast
    then show ?thesis by (intro exI [of _ w]) (simp add: nth_append)
  next
    case False
    with snoc.prems have "fst e = who" "p = owned who es" by (auto split: if_splits)
    then show ?thesis by (intro exI [of _ "length es"]) simp
  qed
qed simp

section \<open>The latest entry of a coroutine\<close>

text \<open>\<open>x\<close> is the last entry of \<open>who\<close> and its only one whose completion has not been reaped (\<open>R\<close> are those
  whose completion has).\<close>

definition latest :: "(nat option \<times> request) list \<Rightarrow> nat set \<Rightarrow> nat option \<Rightarrow> nat \<Rightarrow> bool" where
  "latest es R who x \<longleftrightarrow> x < length es \<and> fst (es ! x) = who \<and> x \<notin> R
     \<and> (\<forall>i < length es. fst (es ! i) = who \<and> i \<noteq> x \<longrightarrow> i < x \<and> i \<in> R)"

lemma latest_other: "fst e \<noteq> who \<Longrightarrow> latest es R who x \<Longrightarrow> latest (es @ [e]) R who x"
  by (auto simp: latest_def nth_append less_Suc_eq)

lemma latest_insert: "latest es R who x \<Longrightarrow> y \<noteq> x \<Longrightarrow> latest es (insert y R) who x"
  by (auto simp: latest_def)

lemma latest_unique:
  "latest es R who x \<Longrightarrow> i < length es \<Longrightarrow> fst (es ! i) = who \<Longrightarrow> i \<notin> R \<Longrightarrow> x = i"
  unfolding latest_def by blast

lemma latest_next:
  "latest es R who x \<Longrightarrow> R \<subseteq> {..<length es} \<Longrightarrow> latest (es @ [(who, r)]) (insert x R) who (length es)"
  by (auto simp: latest_def nth_append less_Suc_eq)

lemma latest_owned: assumes "latest es R who x" shows "owned who es = Suc (owned who (take x es))"
proof -
  have "owned who (take (length es) es) = owned who (take (Suc x) es)"
    using assms by (intro owned_none_between) (auto simp: latest_def)
  with assms show ?thesis by (simp add: latest_def owned_Suc)
qed

section \<open>The invariant\<close>

text \<open>The entry taken next, when \<open>es\<close> were taken before: operation \<open>p\<close> of client \<open>j\<close> is taken after
  \<open>j + 2 + p\<close> accepts, and every other operation is a write.\<close>

definition in_step :: "(nat option \<times> request) list \<Rightarrow> nat option \<times> request \<Rightarrow> bool" where
  "in_step es e \<longleftrightarrow> (\<forall>j. fst e = Some j \<longrightarrow> owned None es = j + 2 + owned (Some j) es
     \<and> ((\<exists>fd n. snd e = Req_write fd n) \<longleftrightarrow> odd (owned (Some j) es)))"

definition all_in_step :: "(nat option \<times> request) list \<Rightarrow> bool" where
  "all_in_step es \<longleftrightarrow> (\<forall>i < length es. in_step (take i es) (es ! i))"

lemma all_in_step_snoc [simp]: "all_in_step (es @ [e]) \<longleftrightarrow> all_in_step es \<and> in_step es e"
  by (auto simp: all_in_step_def nth_append less_Suc_eq)

text \<open>The kernel keeps the rule, and completions are posted in an order that follows from it.\<close>

definition dr_reaped :: "drain_state \<Rightarrow> nat set" where
  "dr_reaped s = fst ` set (take (dr_head s) (dr_cqes s))"

definition drain_ring_ok :: "drain_state \<Rightarrow> bool" where
  "drain_ring_ok s \<longleftrightarrow> dr_submitted s \<le> length (dr_entries s) \<and> dr_started s \<subseteq> {..<dr_submitted s}
     \<and> dr_completed s \<subseteq> dr_started s \<and> distinct (map fst (dr_cqes s)) \<and> dr_head s \<le> length (dr_cqes s)
     \<and> (\<forall>i \<in> dr_started s. \<forall>k < i. barrier (dr_entries s) k i \<longrightarrow> k \<in> dr_completed s)
     \<and> (\<forall>q < length (dr_cqes s). \<forall>k < fst (dr_cqes s ! q). barrier (dr_entries s) k (fst (dr_cqes s ! q))
          \<longrightarrow> k \<in> fst ` set (take q (dr_cqes s)))
     \<and> (\<forall>q < length (dr_cqes s). fst (snd (dr_cqes s ! q)) \<noteq> - ECANCELED)"

text \<open>A client whose coroutine has started has finished, or awaits its latest entry; the parity of its
  entries says which operation that is.\<close>

definition drain_client_ok :: "drain_state \<Rightarrow> nat \<Rightarrow> bool" where
  "drain_client_ok s j \<longleftrightarrow> (case snd (dr_clients s ! j) of
     None \<Rightarrow> owned (Some j) (dr_entries s) = 0 \<and> dr_pending s = [j] \<and> j + 1 = length (dr_clients s)
   | Some c \<Rightarrow> dr_pending s \<noteq> [j] \<and> (if point c = Finished
       then 2 \<le> owned (Some j) (dr_entries s)
         \<and> (\<forall>i < length (dr_entries s). fst (dr_entries s ! i) = Some j \<longrightarrow> i \<in> dr_reaped s)
       else (\<exists>x. latest (dr_entries s) (dr_reaped s) (Some j) x)
         \<and> (point c = Await_write \<longleftrightarrow> even (owned (Some j) (dr_entries s)))
         \<and> (point c = Await_close \<longrightarrow> 3 \<le> owned (Some j) (dr_entries s))))"

definition drain_inv :: "drain_state \<Rightarrow> bool" where
  "drain_inv s \<longleftrightarrow> drain_ring_ok s \<and> all_in_step (dr_entries s)
     \<and> owned None (dr_entries s) = Suc (length (dr_clients s))
     \<and> (\<exists>a. latest (dr_entries s) (dr_reaped s) None a \<and> (dr_pending s \<noteq> [] \<longrightarrow> dr_submitted s \<le> a))
     \<and> (\<forall>e \<in> set (dr_entries s). \<forall>j. fst e = Some j \<longrightarrow> j < length (dr_clients s))
     \<and> (dr_pending s = [] \<or> (\<exists>j. dr_pending s = [j] \<and> j + 1 = length (dr_clients s) \<and> snd (dr_clients s ! j) = None))
     \<and> (\<forall>n. dr_phase s = Resuming n \<longrightarrow> n = length (dr_pending s))
     \<and> (\<forall>j < length (dr_clients s). drain_client_ok s j)"

lemma drain_inv_start: "drain_inv drain_start"
  unfolding drain_inv_def
  by (auto simp: drain_start_def drain_ring_ok_def dr_completed_def all_in_step_def in_step_def owned_def latest_def dr_reaped_def)

text \<open>Steps that leave the entries, the coroutines and the reaped completions alone.\<close>

lemma drain_inv_same:
  assumes "drain_inv s" "drain_ring_ok t"
    and "dr_entries t = dr_entries s" "dr_clients t = dr_clients s" "dr_pending t = dr_pending s"
    and "dr_reaped t = dr_reaped s" "dr_pending s \<noteq> [] \<longrightarrow> dr_submitted t \<le> dr_submitted s"
    and "\<And>n. dr_phase t = Resuming n \<Longrightarrow> n = length (dr_pending s)"
  shows "drain_inv t"
proof -
  have "drain_client_ok t j = drain_client_ok s j" for j
    unfolding drain_client_ok_def assms(3-6) by (rule refl)
  with assms show ?thesis unfolding drain_inv_def by (fastforce split del: if_split)
qed

lemma may_start_iff:
  "may_start i s \<longleftrightarrow> i < dr_submitted s \<and> i \<notin> dr_started s
     \<and> (\<forall>k < i. barrier (dr_entries s) k i \<longrightarrow> k \<in> dr_completed s)"
  by (auto simp: may_start_def)

lemma drain_inv_kernel:
  assumes inv: "drain_inv s"
  shows "drain_step (Kernel_start i) s = Some (Inr t) \<Longrightarrow> drain_inv t"
    and "drain_step (Kernel_complete i res bytes) s = Some (Inr t) \<Longrightarrow> drain_inv t"
proof -
  have ring: "drain_ring_ok s" using inv by (simp add: drain_inv_def)
  have ph: "\<And>n. dr_phase s = Resuming n \<Longrightarrow> n = length (dr_pending s)" using inv by (simp add: drain_inv_def)
  {
    assume "drain_step (Kernel_start i) s = Some (Inr t)"
    then have ms: "may_start i s" and t: "t = s\<lparr>dr_started := insert i (dr_started s)\<rparr>"
      by (auto split: if_splits)
    have "drain_ring_ok t"
      using ring ms by (auto simp: drain_ring_ok_def t dr_completed_def may_start_iff)
    then show "drain_inv t"
      by (rule drain_inv_same [OF inv]) (use ph in \<open>simp_all add: t dr_reaped_def\<close>)
  next
    assume "drain_step (Kernel_complete i res bytes) s = Some (Inr t)"
    then have i: "i \<in> dr_started s" "i \<notin> dr_completed s" "res \<noteq> - ECANCELED"
      and t: "t = s\<lparr>dr_cqes := dr_cqes s @ [(i, res, bytes)]\<rparr>" by (auto split: if_splits)
    have "k \<in> fst ` set (take q (dr_cqes t))"
      if "q < length (dr_cqes t)" "k < fst (dr_cqes t ! q)" "barrier (dr_entries s) k (fst (dr_cqes t ! q))" for q k
      using that ring i(1) by (auto simp: t drain_ring_ok_def dr_completed_def nth_append less_Suc_eq)
    moreover have "fst (snd (dr_cqes t ! q)) \<noteq> - ECANCELED" if "q < length (dr_cqes t)" for q
      using that ring i(3) by (auto simp: t drain_ring_ok_def nth_append less_Suc_eq)
    ultimately have "drain_ring_ok t"
      using ring i by (auto simp: drain_ring_ok_def t dr_completed_def)
    then show "drain_inv t"
      using ring by (intro drain_inv_same [OF inv]) (use ph in \<open>simp_all add: t dr_reaped_def drain_ring_ok_def\<close>)
  }
qed

lemma drain_inv_rounds:
  assumes inv: "drain_inv s"
  shows "drain_step Begin_round s = Some (Inr t) \<Longrightarrow> drain_inv t"
    and "drain_step (Submit_until n) s = Some (Inr t) \<Longrightarrow> drain_inv t"
proof -
  have ring: "drain_ring_ok s" and pend: "length (dr_pending s) \<le> 1"
    and ph: "\<And>n. dr_phase s = Resuming n \<Longrightarrow> n = length (dr_pending s)"
    using inv unfolding drain_inv_def by auto
  {
    assume "drain_step Begin_round s = Some (Inr t)"
    then have t: "t = s\<lparr>dr_phase := Resuming (min 32 (length (dr_pending s)))\<rparr>" by (auto split: if_splits)
    have "drain_ring_ok t" using ring by (simp add: t drain_ring_ok_def dr_completed_def)
    then show "drain_inv t"
      by (rule drain_inv_same [OF inv]) (use pend in \<open>simp_all add: t dr_reaped_def\<close>)
  next
    assume "drain_step (Submit_until n) s = Some (Inr t)"
    then have t: "t = s\<lparr>dr_phase := Reaping, dr_submitted := n\<rparr>" and n: "dr_submitted s \<le> n" "n \<le> length (dr_entries s)"
      and "dr_phase s = Resuming 0" by (auto split: if_splits)
    with ph have "dr_pending s = []" by simp
    moreover have "drain_ring_ok t" using ring n by (auto simp: t drain_ring_ok_def dr_completed_def)
    ultimately show "drain_inv t"
      by (intro drain_inv_same [OF inv]) (simp_all add: t dr_reaped_def)
  }
qed

text \<open>Resuming a coroutine that then takes an entry, or ends. First what stays when an entry is taken.\<close>

lemma drain_ring_ok_entry:
  assumes "drain_ring_ok s" shows "drain_ring_ok (s\<lparr>dr_entries := dr_entries s @ [e]\<rparr>)"
proof -
  have sub: "dr_started s \<subseteq> {..<length (dr_entries s)}" "dr_completed s \<subseteq> {..<length (dr_entries s)}"
    using assms by (auto simp: drain_ring_ok_def)
  have bar: "barrier (dr_entries s @ [e]) k i = barrier (dr_entries s) k i" if "i < length (dr_entries s)" "k < i" for k i
    using that by (simp add: barrier_def nth_append)
  have "fst (dr_cqes s ! q) < length (dr_entries s)" if "q < length (dr_cqes s)" for q
    using nth_mem [OF that] sub(2) unfolding dr_completed_def by blast
  then have "\<forall>q < length (dr_cqes s). \<forall>k < fst (dr_cqes s ! q). barrier (dr_entries s @ [e]) k (fst (dr_cqes s ! q))
      \<longrightarrow> k \<in> fst ` set (take q (dr_cqes s))"
    using assms bar unfolding drain_ring_ok_def by (metis (no_types, lifting))
  moreover have "\<forall>i \<in> dr_started s. \<forall>k < i. barrier (dr_entries s @ [e]) k i \<longrightarrow> k \<in> dr_completed s"
    using assms bar sub(1) unfolding drain_ring_ok_def by (metis lessThan_iff subset_iff)
  ultimately show ?thesis using assms unfolding drain_ring_ok_def by (simp add: dr_completed_def)
qed

lemma reaped_within: "drain_ring_ok s \<Longrightarrow> dr_reaped s \<subseteq> {..<length (dr_entries s)}"
  by (fastforce simp: drain_ring_ok_def dr_reaped_def dr_completed_def dest!: in_set_takeD)

lemma drain_ring_ok_upd [simp]:
  "drain_ring_ok (s\<lparr>dr_clients := cs\<rparr>) = drain_ring_ok s" "drain_ring_ok (s\<lparr>dr_pending := ps\<rparr>) = drain_ring_ok s"
  "drain_ring_ok (s\<lparr>dr_phase := ph\<rparr>) = drain_ring_ok s"
  by (simp_all add: drain_ring_ok_def dr_completed_def)

lemma dr_reaped_upd [simp]:
  "dr_reaped (s\<lparr>dr_clients := cs\<rparr>) = dr_reaped s" "dr_reaped (s\<lparr>dr_pending := ps\<rparr>) = dr_reaped s"
  "dr_reaped (s\<lparr>dr_phase := ph\<rparr>) = dr_reaped s" "dr_reaped (s\<lparr>dr_entries := es\<rparr>) = dr_reaped s"
  by (simp_all add: dr_reaped_def)

lemma dr_room_upd [simp]: "dr_room (s\<lparr>dr_clients := cs\<rparr>) = dr_room s"
  by (simp add: dr_room_def)

text \<open>The other clients do not notice the step of one client.\<close>

lemma drain_client_ok_other:
  assumes "drain_client_ok s j" "k \<noteq> Some j"
    and "dr_clients t ! j = dr_clients s ! j"
    and "dr_pending s = [j] \<Longrightarrow> dr_pending t = [j] \<and> length (dr_clients t) = length (dr_clients s)"
    and "dr_pending t = [j] \<Longrightarrow> dr_pending s = [j]"
    and "dr_entries t = dr_entries s \<or> dr_entries t = dr_entries s @ [(k, req)]"
    and "dr_reaped t = dr_reaped s \<or> (\<exists>y < length (dr_entries s). fst (dr_entries s ! y) = k \<and> dr_reaped t = insert y (dr_reaped s))"
  shows "drain_client_ok t j"
proof -
  have own: "owned (Some j) (dr_entries t) = owned (Some j) (dr_entries s)"
    using assms(2,6) by auto
  have lat: "latest (dr_entries t) (dr_reaped t) (Some j) x" if x: "latest (dr_entries s) (dr_reaped s) (Some j) x" for x
  proof -
    have "latest (dr_entries s) (dr_reaped t) (Some j) x"
      using assms(2,7) x latest_insert [OF x] by (auto simp: latest_def)
    moreover from assms(2) have "fst (k, req) \<noteq> Some j" by simp
    ultimately show ?thesis using assms(6) latest_other by metis
  qed
  have fin: "\<forall>i < length (dr_entries t). fst (dr_entries t ! i) = Some j \<longrightarrow> i \<in> dr_reaped t"
    if "\<forall>i < length (dr_entries s). fst (dr_entries s ! i) = Some j \<longrightarrow> i \<in> dr_reaped s"
    using that assms(2,6,7) by (auto simp: nth_append less_Suc_eq)
  from assms(1,4,5) show ?thesis
    unfolding drain_client_ok_def own assms(3)
    by (auto split: option.splits if_splits dest: lat fin)
qed

lemma drain_inv_resume:
  assumes inv: "drain_inv s" and st: "drain_step Resume_one s = Some (Inr t)"
  shows "drain_inv t"
proof -
  from st obtain n j js where ph: "dr_phase s = Resuming (Suc n)" and p: "dr_pending s = j # js"
    and run: "drain_echo_start j (s\<lparr>dr_phase := Resuming n, dr_pending := js\<rparr>) = Inr t"
    by (auto split: drain_phase.splits nat.splits list.splits)
  from inv p ph have js: "js = []" "n = 0" and j: "j + 1 = length (dr_clients s)" "snd (dr_clients s ! j) = None"
    unfolding drain_inv_def by auto
  let ?fd = "fst (dr_clients s ! j)"
  let ?c = "\<lparr>point = Await_read, co_buf = replicate 4096 (CHR 0x00)\<rparr>" let ?e = "(Some j, Req_read ?fd 4096)"
  have t: "t = s\<lparr>dr_phase := Resuming 0, dr_pending := [], dr_clients := (dr_clients s)[j := (?fd, Some ?c)],
      dr_entries := dr_entries s @ [?e]\<rparr>"
    using run by (auto simp: drain_echo_start_def echo_co_start_def echo_await_def js Let_def split: if_splits)
  have "drain_client_ok s j" using inv j(1) by (simp add: drain_inv_def)
  then have own: "owned (Some j) (dr_entries s) = 0" by (simp add: drain_client_ok_def j(2))
  have acc: "owned None (dr_entries s) = j + 2" using inv j(1) by (simp add: drain_inv_def)
  have ring: "drain_ring_ok s" using inv by (simp add: drain_inv_def)
  have ring': "drain_ring_ok t" using drain_ring_ok_entry [OF ring] by (simp add: t drain_ring_ok_def dr_completed_def)
  have none: "fst (dr_entries s ! i) \<noteq> Some j" if "i < length (dr_entries s)" for i
    using own that by (auto simp: owned_def filter_empty_conv)
  have "latest (dr_entries t) (dr_reaped t) (Some j) (length (dr_entries s))"
    using none reaped_within [OF ring] by (auto simp: t latest_def nth_append less_Suc_eq dr_reaped_def)
  then have jok: "drain_client_ok t j"
    using j(1) own by (auto simp: drain_client_ok_def t)
  have others: "drain_client_ok t i" if "i < length (dr_clients t)" for i
  proof (cases "i = j")
    case False
    have "drain_client_ok s i" using inv that by (simp add: drain_inv_def t)
    then show ?thesis
      by (rule drain_client_ok_other [where k = "Some j"]) (use False in \<open>simp_all add: t p js dr_reaped_def\<close>)
  qed (simp add: jok)
  from inv obtain a where "latest (dr_entries s) (dr_reaped s) None a" by (auto simp: drain_inv_def)
  then have "latest (dr_entries t) (dr_reaped t) None a" by (simp add: t latest_other dr_reaped_def)
  moreover have "in_step (dr_entries s) ?e" by (simp add: in_step_def acc own)
  ultimately show ?thesis
    using inv ring' others j(1) unfolding drain_inv_def by (auto simp: t)
qed

text \<open>Reaping the completion of entry \<open>i\<close>: what preceded it across a barrier was reaped before, and nothing
  that follows it across one was.\<close>

lemma drain_reap_head:
  assumes ring: "drain_ring_ok s" and q: "dr_head s < length (dr_cqes s)" and i: "i = fst (dr_cqes s ! dr_head s)"
  shows "drain_ring_ok (s\<lparr>dr_head := dr_head s + 1\<rparr>)"
    and "dr_reaped (s\<lparr>dr_head := dr_head s + 1\<rparr>) = insert i (dr_reaped s)"
    and "i \<notin> dr_reaped s" and "i < dr_submitted s" and "i < length (dr_entries s)"
    and "k < i \<Longrightarrow> barrier (dr_entries s) k i \<Longrightarrow> k \<in> dr_reaped s"
    and "a \<in> dr_reaped s \<Longrightarrow> i < a \<Longrightarrow> \<not> barrier (dr_entries s) i a"
proof -
  show "drain_ring_ok (s\<lparr>dr_head := dr_head s + 1\<rparr>)"
    using ring q by (simp add: drain_ring_ok_def dr_completed_def)
  show "dr_reaped (s\<lparr>dr_head := dr_head s + 1\<rparr>) = insert i (dr_reaped s)"
    using q by (simp add: dr_reaped_def i take_Suc_conv_app_nth)
  have dist: "distinct (map fst (dr_cqes s))" using ring by (simp add: drain_ring_ok_def)
  have early: "i \<notin> fst ` set (take n (dr_cqes s))" if "n \<le> dr_head s" for n
  proof
    assume "i \<in> fst ` set (take n (dr_cqes s))"
    then obtain p where "p < n" "p < length (dr_cqes s)" "fst (dr_cqes s ! p) = i"
      by (auto simp: in_set_conv_nth)
    with dist q that i show False
      using nth_eq_iff_index_eq [OF dist, of p "dr_head s"] by simp
  qed
  then show "i \<notin> dr_reaped s" by (simp add: dr_reaped_def)
  have "i \<in> dr_completed s" using q by (simp add: i dr_completed_def)
  with ring show "i < dr_submitted s" and "i < length (dr_entries s)" by (auto simp: drain_ring_ok_def)
  show "k < i \<Longrightarrow> barrier (dr_entries s) k i \<Longrightarrow> k \<in> dr_reaped s"
    using ring q by (simp add: drain_ring_ok_def dr_reaped_def i)
  assume "a \<in> dr_reaped s" "i < a"
  then obtain p where p: "p < dr_head s" "p < length (dr_cqes s)" "a = fst (dr_cqes s ! p)"
    by (auto simp: dr_reaped_def in_set_conv_nth)
  with ring \<open>i < a\<close> have "barrier (dr_entries s) i a \<Longrightarrow> i \<in> fst ` set (take p (dr_cqes s))"
    by (simp add: drain_ring_ok_def)
  with early [of p] p(1) show "\<not> barrier (dr_entries s) i a" by auto
qed

text \<open>One accept has been taken since the entry of a client whose completion is reaped now.\<close>

lemma one_accept_since:
  assumes ring: "drain_ring_ok s" and q: "dr_head s < length (dr_cqes s)" and i: "i = fst (dr_cqes s ! dr_head s)"
    and own: "fst (dr_entries s ! i) = Some j" and a: "latest (dr_entries s) (dr_reaped s) None a"
  shows "owned None (dr_entries s) = Suc (owned None (take i (dr_entries s)))"
proof -
  note head = drain_reap_head [OF ring q i]
  have a': "a < length (dr_entries s)" "fst (dr_entries s ! a) = None" "a \<notin> dr_reaped s"
    using a by (simp_all add: latest_def)
  have "\<not> a < i" using head(6) [of a] a' by (auto simp: barrier_def)
  moreover have "a \<noteq> i" using own a'(2) by auto
  ultimately have "i < a" by simp
  have "fst (dr_entries s ! k) \<noteq> None" if "i \<le> k" "k < a" for k
  proof
    assume k: "fst (dr_entries s ! k) = None"
    with a that a'(1) have "k \<in> dr_reaped s" unfolding latest_def by (metis less_trans nat_neq_iff)
    moreover have "i < k" using that(1) k own by (metis le_neq_implies_less option.distinct(1))
    ultimately show False using head(7) [of k] k by (simp add: barrier_def)
  qed
  with \<open>i < a\<close> a'(1) have "owned None (take a (dr_entries s)) = owned None (take i (dr_entries s))"
    by (intro owned_none_between) auto
  with latest_owned [OF a] show ?thesis by simp
qed

lemma drain_inv_server:
  assumes inv: "drain_inv s" and q: "dr_head s < length (dr_cqes s)" and i: "i = fst (dr_cqes s ! dr_head s)"
    and own: "fst (dr_entries s ! i) = None" and ph: "dr_phase s = Reaping"
    and run: "drain_server res (s\<lparr>dr_head := dr_head s + 1\<rparr>) = Inr t"
  shows "drain_inv t"
proof -
  have ring: "drain_ring_ok s" using inv by (simp add: drain_inv_def)
  note head = drain_reap_head [OF ring q i]
  from inv obtain a where a: "latest (dr_entries s) (dr_reaped s) None a"
    and sub: "dr_pending s \<noteq> [] \<longrightarrow> dr_submitted s \<le> a" by (auto simp: drain_inv_def)
  note ai = latest_unique [OF a head(5) own head(3)]
  with sub head(4) have np: "dr_pending s = []" by auto
  let ?m = "length (dr_clients s)" let ?e = "(None, Req_accept)"
  from run obtain fd where t: "t = s\<lparr>dr_head := dr_head s + 1, dr_clients := dr_clients s @ [(fd, None)],
      dr_pending := [?m], dr_entries := dr_entries s @ [?e]\<rparr>"
    by (auto simp: drain_server_def drain_accept_def np split: if_splits)
  have ring': "drain_ring_ok t" using drain_ring_ok_entry [OF head(1)] by (simp add: t drain_ring_ok_def dr_completed_def)
  have reaped: "dr_reaped t = insert i (dr_reaped s)" using head(2) by (simp add: t dr_reaped_def)
  have lat: "latest (dr_entries t) (dr_reaped t) None (length (dr_entries s))"
    unfolding reaped using latest_next [OF a reaped_within [OF ring], of Req_accept] by (simp add: t ai)
  have le: "dr_submitted s \<le> length (dr_entries s)" using ring by (simp add: drain_ring_ok_def)
  have own_lt: "\<forall>e \<in> set (dr_entries s). \<forall>j. fst e = Some j \<longrightarrow> j < ?m" using inv by (simp add: drain_inv_def)
  then have "owned (Some ?m) (dr_entries s) = 0" by (auto simp: owned_def filter_empty_conv)
  then have new: "drain_client_ok t ?m" by (simp add: drain_client_ok_def t)
  have others: "drain_client_ok t j" if "j < Suc ?m" for j
  proof (cases "j = ?m")
    case False
    with that have "drain_client_ok s j" using inv by (simp add: drain_inv_def)
    then show ?thesis
      by (rule drain_client_ok_other [where k = None])
        (use False that own head(5) reaped in \<open>auto simp: t np nth_append\<close>)
  qed (simp add: new)
  from own_lt have "\<forall>e \<in> set (dr_entries t). \<forall>j. fst e = Some j \<longrightarrow> j < Suc ?m" by (fastforce simp: t)
  moreover have "in_step (dr_entries s) ?e" by (simp add: in_step_def)
  moreover have "\<exists>a. latest (dr_entries t) (dr_reaped t) None a \<and> (dr_pending t \<noteq> [] \<longrightarrow> dr_submitted t \<le> a)"
    using lat le by (intro exI [of _ "length (dr_entries s)"]) (simp add: t)
  ultimately show ?thesis
    using inv ring' others ph unfolding drain_inv_def by (simp add: t nth_append)
qed

text \<open>What resuming \<open>echo\<close> does, by the point it was suspended at.\<close>

lemma echo_co_resume_points:
  assumes "echo_co_resume fd res bytes c = Inr (c1, r)"
  shows "point c = Await_read \<Longrightarrow> point c1 = Await_write \<and> (\<exists>n. r = Some (Req_write fd n))"
    and "point c = Await_write \<Longrightarrow> point c1 = Await_read \<and> r = Some (Req_read fd 4096)
        \<or> point c1 = Await_close \<and> r = Some (Req_close fd)"
    and "point c = Await_close \<Longrightarrow> point c1 = Finished \<and> r = None"
    and "point c \<noteq> Finished"
  using assms by (auto simp: echo_co_resume_def nofail_less_def nofail_def Let_def split: echo_point.splits if_splits)

lemma drain_echo_resume_cases:
  assumes run: "drain_echo_resume j res bytes s = Inr t" and j: "j < length (dr_clients s)"
  obtains (taken) fd c c1 req where "dr_clients s ! j = (fd, Some c)"
      "t = s\<lparr>dr_clients := (dr_clients s)[j := (fd, Some c1)], dr_entries := dr_entries s @ [(Some j, req)]\<rparr>"
      "point c = Await_read \<and> point c1 = Await_write \<and> (\<exists>fd n. req = Req_write fd n)
        \<or> point c = Await_write \<and> (point c1 = Await_read \<or> point c1 = Await_close) \<and> (\<forall>fd n. req \<noteq> Req_write fd n)"
    | (ended) fd c c1 where "dr_clients s ! j = (fd, Some c)"
      "t = s\<lparr>dr_clients := (dr_clients s)[j := (fd, Some c1)]\<rparr>"
      "point c = Await_write \<or> point c = Await_close" "point c1 = Finished"
proof -
  obtain fd oc where f: "dr_clients s ! j = (fd, oc)" by force
  with run obtain c where c: "oc = Some c" by (cases oc) (simp_all add: drain_echo_resume_def)
  from run f c obtain c1 r where r: "echo_co_resume fd res bytes c = Inr (c1, r)"
    and t: "(case r of None \<Rightarrow> Inr (s\<lparr>dr_clients := (dr_clients s)[j := (fd, Some c1)]\<rparr>)
        | Some req \<Rightarrow> echo_await j req (s\<lparr>dr_clients := (dr_clients s)[j := (fd, Some c1)]\<rparr>)) = Inr t"
    by (auto simp: drain_echo_resume_def Let_def)
  note pts = echo_co_resume_points [OF r]
  show thesis
  proof (cases r)
    case None
    with pts have "point c = Await_close" "point c1 = Finished" by (cases "point c"; auto)+
    with t None show ?thesis by (intro ended [where fd = fd and c = c and ?c1.0 = c1]) (simp_all add: f c)
  next
    case (Some req)
    show ?thesis
    proof (cases "dr_room s")
      case True
      with t Some pts show ?thesis
        by (intro taken [where fd = fd and c = c and ?c1.0 = c1 and req = req]) (cases "point c"; auto simp: f c echo_await_def)+
    next
      case False
      with t Some obtain fd' where "req = Req_close fd'" by (cases req) (simp_all add: echo_await_def)
      with pts Some have "point c = Await_write" "fd' = fd" "req = Req_close fd" by (cases "point c"; auto)+
      with t Some False j show ?thesis
        by (intro ended [where fd = fd and c = c and ?c1.0 = "c1\<lparr>point := Finished\<rparr>"]) (auto simp: f c echo_await_def)
    qed
  qed
qed

text \<open>The client whose completion is at the head, with its coroutine \<open>c\<close>.\<close>

lemma client_of_head:
  assumes inv: "drain_inv s" and q: "dr_head s < length (dr_cqes s)" and i: "i = fst (dr_cqes s ! dr_head s)"
    and own: "fst (dr_entries s ! i) = Some j"
  shows "j < length (dr_clients s)" and "owned (Some j) (dr_entries s) \<noteq> 0"
    and "dr_clients s ! j = (fd, Some c) \<Longrightarrow> latest (dr_entries s) (dr_reaped s) (Some j) i"
    and "dr_clients s ! j = (fd, Some c) \<Longrightarrow> dr_pending s \<noteq> [j]"
    and "dr_clients s ! j = (fd, Some c) \<Longrightarrow> point c = Await_write \<longleftrightarrow> even (owned (Some j) (dr_entries s))"
    and "dr_clients s ! j = (fd, Some c) \<Longrightarrow> point c = Await_close \<longrightarrow> 3 \<le> owned (Some j) (dr_entries s)"
proof -
  have ring: "drain_ring_ok s" using inv by (simp add: drain_inv_def)
  note head = drain_reap_head [OF ring q i]
  show j: "j < length (dr_clients s)" using inv own head(5) unfolding drain_inv_def by (metis nth_mem)
  show "owned (Some j) (dr_entries s) \<noteq> 0" using own head(5) by (auto simp: owned_def filter_empty_conv)
  assume c: "dr_clients s ! j = (fd, Some c)"
  have jok: "drain_client_ok s j" using inv j by (simp add: drain_inv_def)
  then have "point c \<noteq> Finished" using c own head(3,5) by (auto simp: drain_client_ok_def)
  with jok c obtain x where x: "latest (dr_entries s) (dr_reaped s) (Some j) x" and rest: "dr_pending s \<noteq> [j]"
    "point c = Await_write \<longleftrightarrow> even (owned (Some j) (dr_entries s))"
    "point c = Await_close \<longrightarrow> 3 \<le> owned (Some j) (dr_entries s)" by (auto simp: drain_client_ok_def)
  then show "latest (dr_entries s) (dr_reaped s) (Some j) i" "dr_pending s \<noteq> [j]"
    "point c = Await_write \<longleftrightarrow> even (owned (Some j) (dr_entries s))"
    "point c = Await_close \<longrightarrow> 3 \<le> owned (Some j) (dr_entries s)"
    using latest_unique [OF x head(5) own head(3)] by simp_all
qed

text \<open>Whatever its coroutine does, the invariant is left to be shown for that client and its entry.\<close>

lemma drain_inv_after_head:
  assumes inv: "drain_inv s" and q: "dr_head s < length (dr_cqes s)" and i: "i = fst (dr_cqes s ! dr_head s)"
    and own: "fst (dr_entries s ! i) = Some j" and ph: "dr_phase s = Reaping" and c: "dr_clients s ! j = (fd, Some c)"
    and t: "t = s\<lparr>dr_head := dr_head s + 1, dr_clients := (dr_clients s)[j := (fd, Some c1)], dr_entries := es\<rparr>"
    and es: "es = dr_entries s \<or> es = dr_entries s @ [(Some j, req)] \<and> in_step (dr_entries s) (Some j, req)"
    and jok: "drain_client_ok t j"
  shows "drain_inv t"
proof -
  have ring: "drain_ring_ok s" using inv by (simp add: drain_inv_def)
  note head = drain_reap_head [OF ring q i]
  note j = client_of_head(1) [OF inv q i own] note live = client_of_head(4) [OF inv q i own c]
  have reaped: "dr_reaped t = insert i (dr_reaped s)" using head(2) by (simp add: t)
  have ring': "drain_ring_ok t"
    using es head(1) drain_ring_ok_entry [OF head(1), of "(Some j, req)"]
    by (auto simp: t drain_ring_ok_def dr_completed_def)
  have others: "drain_client_ok t k" if k: "k < length (dr_clients s)" for k
  proof (cases "k = j")
    case False
    have "drain_client_ok s k" using inv k by (simp add: drain_inv_def)
    then show ?thesis
      by (rule drain_client_ok_other [where k = "Some j" and req = req]) (use k False es own head(5) reaped in \<open>auto simp: t\<close>)
  qed (simp add: jok)
  from inv obtain a where a: "latest (dr_entries s) (dr_reaped s) None a" "dr_pending s \<noteq> [] \<longrightarrow> dr_submitted s \<le> a"
    by (auto simp: drain_inv_def)
  have "latest (dr_entries s) (insert i (dr_reaped s)) None a"
    using a(1) own by (intro latest_insert) (auto simp: latest_def)
  with es have "latest (dr_entries t) (dr_reaped t) None a" unfolding reaped by (auto simp: t intro: latest_other)
  with a(2) have acc: "\<exists>a. latest (dr_entries t) (dr_reaped t) None a \<and> (dr_pending t \<noteq> [] \<longrightarrow> dr_submitted t \<le> a)"
    by (intro exI [of _ a]) (simp add: t)
  have waiting: "dr_pending s = [] \<or> (\<exists>k. dr_pending s = [k] \<and> k + 1 = length (dr_clients s)
      \<and> snd ((dr_clients s)[j := (fd, Some c1)] ! k) = None)"
    using inv c live unfolding drain_inv_def by (auto simp: nth_list_update)
  have "all_in_step es" "owned None es = Suc (length (dr_clients s))" "\<forall>e \<in> set es. \<forall>k. fst e = Some k \<longrightarrow> k < length (dr_clients s)"
    using inv es j by (auto simp: drain_inv_def)
  with ring' acc waiting others ph show ?thesis unfolding drain_inv_def by (simp add: t)
qed

lemma drain_inv_echo:
  assumes inv: "drain_inv s" and q: "dr_head s < length (dr_cqes s)" and i: "i = fst (dr_cqes s ! dr_head s)"
    and own: "fst (dr_entries s ! i) = Some j" and ph: "dr_phase s = Reaping"
    and run: "drain_echo_resume j res bytes (s\<lparr>dr_head := dr_head s + 1\<rparr>) = Inr t"
  shows "drain_inv t"
proof -
  have ring: "drain_ring_ok s" and steps: "all_in_step (dr_entries s)" using inv by (simp_all add: drain_inv_def)
  note head = drain_reap_head [OF ring q i] and client = client_of_head [OF inv q i own]
  have rh: "dr_reaped (s\<lparr>dr_head := Suc (dr_head s)\<rparr>) = insert i (dr_reaped s)" using head(2) by simp
  from inv obtain a where a: "latest (dr_entries s) (dr_reaped s) None a" by (auto simp: drain_inv_def)
  have j': "j < length (dr_clients (s\<lparr>dr_head := dr_head s + 1\<rparr>))" using client(1) by simp
  from run j' show ?thesis
  proof (cases rule: drain_echo_resume_cases)
    case (taken fd c c1 req)
    then have c: "dr_clients s ! j = (fd, Some c)" by simp
    have "owned None (dr_entries s) = j + 2 + owned (Some j) (dr_entries s)"
      using one_accept_since [OF ring q i own a] latest_owned [OF client(3) [OF c]] steps own head(5)
      by (auto simp: all_in_step_def in_step_def)
    with taken(3) client(5) [OF c] have step: "in_step (dr_entries s) (Some j, req)" by (auto simp: in_step_def)
    have "latest (dr_entries t) (dr_reaped t) (Some j) (length (dr_entries s))"
      using latest_next [OF client(3) [OF c] reaped_within [OF ring], of req] rh by (simp add: taken(2))
    then have "drain_client_ok t j"
      using taken(3) client(4-6) [OF c] client(1,2) by (auto simp: drain_client_ok_def taken(2))
    with taken(2) step show ?thesis
      by (intro drain_inv_after_head [OF inv q i own ph c, where ?c1.0 = c1 and es = "dr_entries s @ [(Some j, req)]" and req = req]) simp_all
  next
    case (ended fd c c1)
    then have c: "dr_clients s ! j = (fd, Some c)" by simp
    have "2 \<le> owned (Some j) (dr_entries s)" using client(5,6) [OF c] ended(3) client(2) by auto
    then have "drain_client_ok t j"
      using client(3,4) [OF c] ended(4) client(1) by (auto simp: drain_client_ok_def rh ended(2) latest_def)
    with ended(2) show ?thesis
      by (intro drain_inv_after_head [OF inv q i own ph c, where ?c1.0 = c1 and es = "dr_entries s" and req = Req_accept]) simp_all
  qed
qed

lemma drain_reachable_inv: "drain_reachable s \<Longrightarrow> drain_inv s"
proof (induction rule: drain_reachable.induct)
  case (step s ev t)
  show ?case
  proof (cases ev)
    case Reap_one
    with step.hyps(2) have ph: "dr_phase s = Reaping" and r: "drain_reap s = Some (Inr t)" by (simp_all split: if_splits)
    obtain i res bytes where e: "dr_cqes s ! dr_head s = (i, res, bytes)" by (metis prod_cases3)
    from r have q: "dr_head s < length (dr_cqes s)" by (auto simp: drain_reap_def split: if_splits)
    then have "res \<noteq> - ECANCELED" using step.IH e by (force simp: drain_inv_def drain_ring_ok_def)
    with r q e have run: "(case fst (dr_entries s ! i) of None \<Rightarrow> drain_server res (s\<lparr>dr_head := dr_head s + 1\<rparr>)
        | Some j \<Rightarrow> drain_echo_resume j res bytes (s\<lparr>dr_head := dr_head s + 1\<rparr>)) = Inr t"
      by (simp add: drain_reap_def Let_def split: option.splits)
    have i: "i = fst (dr_cqes s ! dr_head s)" by (simp add: e)
    show ?thesis
    proof (cases "fst (dr_entries s ! i)")
      case None
      with run drain_inv_server [OF step.IH q i None ph] show ?thesis by simp
    next
      case (Some j)
      with run drain_inv_echo [OF step.IH q i Some ph] show ?thesis by simp
    qed
  qed (use step drain_inv_kernel drain_inv_rounds drain_inv_resume in blast)+
qed (rule drain_inv_start)

section \<open>Property\<close>

text \<open>A request that lies across an accept from one that was started is complete.\<close>

lemma started_after_accept:
  assumes ring: "drain_ring_ok s" and i: "i \<in> dr_started s"
    and w: "owned None (take (Suc w) (dr_entries s)) < owned None (take i (dr_entries s))" "fst (dr_entries s ! w) \<noteq> None"
  shows "w \<in> dr_completed s"
proof -
  have lt: "i < length (dr_entries s)" using ring i by (auto simp: drain_ring_ok_def)
  from owned_less_between [OF w(1)] lt obtain a where a: "Suc w \<le> a" "a < i" "fst (dr_entries s ! a) = None" by auto
  with ring i have "a \<in> dr_started s" unfolding drain_ring_ok_def barrier_def by (meson subsetD)
  with ring a show ?thesis unfolding drain_ring_ok_def barrier_def by (meson Suc_le_eq)
qed

text \<open>The same for one that was reaped: then both were.\<close>

lemma reaped_after_accept:
  assumes ring: "drain_ring_ok s" and i: "i \<in> dr_reaped s"
    and w: "owned None (take (Suc w) (dr_entries s)) < owned None (take i (dr_entries s))"
  shows "w \<in> dr_reaped s"
proof -
  have lt: "i < length (dr_entries s)" using reaped_within [OF ring] i by auto
  from owned_less_between [OF w] lt obtain a where a: "Suc w \<le> a" "a < i" "fst (dr_entries s ! a) = None" by auto
  have before: "k \<in> dr_reaped s" if "x \<in> dr_reaped s" "k < x" "barrier (dr_entries s) k x" for k x
  proof -
    from that(1) obtain p where p: "p < dr_head s" "p < length (dr_cqes s)" "x = fst (dr_cqes s ! p)"
      by (auto simp: dr_reaped_def in_set_conv_nth)
    with ring that have "k \<in> fst ` set (take p (dr_cqes s))" by (simp add: drain_ring_ok_def)
    moreover have "set (take p (dr_cqes s)) \<subseteq> set (take (dr_head s) (dr_cqes s))"
      using p(1) by (simp add: set_take_subset_set_take)
    ultimately show ?thesis unfolding dr_reaped_def by blast
  qed
  from before [OF i a(2)] a(3) have "a \<in> dr_reaped s" by (simp add: barrier_def)
  from before [OF this, of w] a(1,3) show ?thesis by (simp add: barrier_def)
qed

text \<open>An entry of a client that is followed by another one of it was reaped.\<close>

lemma earlier_entry_reaped:
  assumes "drain_inv s" "x < i" "i < length (dr_entries s)" "fst (dr_entries s ! x) = Some k" "fst (dr_entries s ! i) = Some k"
  shows "x \<in> dr_reaped s"
proof -
  have "k < length (dr_clients s)" using assms(1,3,5) unfolding drain_inv_def by (metis nth_mem)
  with assms(1) have ok: "drain_client_ok s k" by (simp add: drain_inv_def)
  have "owned (Some k) (dr_entries s) \<noteq> 0" using assms(3,5) by (auto simp: owned_def filter_empty_conv)
  with ok consider "\<forall>i < length (dr_entries s). fst (dr_entries s ! i) = Some k \<longrightarrow> i \<in> dr_reaped s"
    | y where "latest (dr_entries s) (dr_reaped s) (Some k) y"
    by (auto simp: drain_client_ok_def split: option.splits if_splits)
  then show ?thesis using assms(2-5) unfolding latest_def by cases (metis less_trans nat_neq_iff)+
qed

text \<open>When a later client has been read from and answered in part, an earlier one has taken its write.\<close>

lemma earlier_client_wrote:
  assumes inv: "drain_inv s" and x: "x \<in> dr_reaped s" "fst (dr_entries s ! x) = Some k" and j: "j < k"
  shows "2 \<le> owned (Some j) (dr_entries s)"
proof -
  have ring: "drain_ring_ok s" and steps: "all_in_step (dr_entries s)" using inv by (simp_all add: drain_inv_def)
  have lt: "x < length (dr_entries s)" using reaped_within [OF ring] x(1) by auto
  then have k: "k < length (dr_clients s)" using inv x(2) unfolding drain_inv_def by (metis nth_mem)
  with inv j have ok: "drain_client_ok s j" by (simp add: drain_inv_def)
  have era: "k + 2 \<le> owned None (take x (dr_entries s))"
    using steps lt x(2) by (simp add: all_in_step_def in_step_def)
  show ?thesis
  proof (rule ccontr)
    assume few: "\<not> 2 \<le> owned (Some j) (dr_entries s)"
    with ok j k obtain y where y: "latest (dr_entries s) (dr_reaped s) (Some j) y"
      by (auto simp: drain_client_ok_def split: option.splits if_splits)
    with few latest_owned [OF y] have "owned (Some j) (take y (dr_entries s)) = 0" by simp
    with steps y have "owned None (take (Suc y) (dr_entries s)) = j + 2"
      by (auto simp: all_in_step_def in_step_def latest_def owned_Suc)
    with era j have "y \<in> dr_reaped s" by (intro reaped_after_accept [OF ring x(1)]) simp
    with y show False by (simp add: latest_def)
  qed
qed

text \<open>
  C31. The comment on \<open>server\<close>, and what it costs. In every interleaving of the kernel and the rounds of the
  loop, the write that answers a client is started only when every client accepted before has had its
  own first answer written completely; and it is started only when at least three accepts
  more than the number of earlier clients are complete, so the first client gets no answer until two
  further clients have connected.
\<close>

theorem drain_server_answers_in_order:
  assumes reach: "drain_reachable s"
    and i: "i < length (dr_entries s)" "dr_entries s ! i = (Some k, Req_write fd n)" "i \<in> dr_started s"
  shows "k + 3 \<le> card {a. a < length (dr_entries s) \<and> fst (dr_entries s ! a) = None \<and> a \<in> dr_completed s}
    \<and> (\<forall>j < k. \<exists>w fd' n'. w < i \<and> dr_entries s ! w = (Some j, Req_write fd' n') \<and> w \<in> dr_completed s)"
proof (intro conjI allI impI)
  let ?es = "dr_entries s"
  note inv = drain_reachable_inv [OF reach]
  have ring: "drain_ring_ok s" and steps: "all_in_step ?es" using inv by (simp_all add: drain_inv_def)
  from steps i(1,2) have era: "owned None (take i ?es) = k + 2 + owned (Some k) (take i ?es)"
    and "odd (owned (Some k) (take i ?es))" by (auto simp: all_in_step_def in_step_def)
  then have pos: "0 < owned (Some k) (take i ?es)" by (auto simp: odd_pos)
  have "{a. a < i \<and> fst (?es ! a) = None} \<subseteq> {a. a < length ?es \<and> fst (?es ! a) = None \<and> a \<in> dr_completed s}"
    using ring i(1,3) by (auto simp: drain_ring_ok_def barrier_def)
  then have "card {a. a < i \<and> fst (?es ! a) = None} \<le> card {a. a < length ?es \<and> fst (?es ! a) = None \<and> a \<in> dr_completed s}"
    by (intro card_mono) auto
  with era pos owned_card [of i ?es None] i(1) show "k + 3 \<le> \<dots>" by simp
  fix j assume j: "j < k"
  from owned_nth [OF pos] i(1) obtain x where x: "x < i" "fst (?es ! x) = Some k" by auto
  have "x \<in> dr_reaped s" using earlier_entry_reaped [OF inv x(1) i(1) x(2)] i(2) by simp
  from earlier_client_wrote [OF inv this x(2) j] owned_nth [of 1 "Some j" ?es] obtain w where
    w: "w < length ?es" "fst (?es ! w) = Some j" "owned (Some j) (take w ?es) = 1" by auto
  with steps have era': "owned None (take w ?es) = j + 3" and wr: "\<exists>fd' n'. snd (?es ! w) = Req_write fd' n'"
    by (auto simp: all_in_step_def in_step_def)
  have lt: "owned None (take (Suc w) ?es) < owned None (take i ?es)"
    using era era' pos j w(1,2) by (simp add: owned_Suc)
  with w(2) have "w \<in> dr_completed s" by (intro started_after_accept [OF ring i(3)]) auto
  moreover have "w < i" using lt owned_mono [of i "Suc w" None ?es] by (metis Suc_leI leD le_less_linear le_SucI)
  ultimately show "\<exists>w fd' n'. w < i \<and> ?es ! w = (Some j, Req_write fd' n') \<and> w \<in> dr_completed s"
    using wr w(2) by (metis prod.collapse)
qed

text \<open>A run in which four clients connect and the second one is answered.\<close>

fun drain_run :: "drain_event list \<Rightarrow> drain_state \<Rightarrow> drain_state option" where
  "drain_run [] s = Some s"
| "drain_run (ev # evs) s = (case drain_step ev s of Some (Inr t) \<Rightarrow> drain_run evs t | _ \<Rightarrow> None)"

lemma drain_run_reachable: "drain_run evs s = Some t \<Longrightarrow> drain_reachable s \<Longrightarrow> drain_reachable t"
  by (induction evs arbitrary: s) (auto split: option.splits sum.splits intro: drain_reachable.step)

definition sample_drain_events :: "drain_event list" where
  "sample_drain_events =
     [Submit_until 1, Kernel_start 0, Kernel_complete 0 7 [], Reap_one, Begin_round, Resume_one,
      Submit_until 3, Kernel_start 1, Kernel_complete 1 8 [], Reap_one, Begin_round, Resume_one,
      Submit_until 5, Kernel_start 2, Kernel_complete 2 3 ''abc'', Reap_one,
      Kernel_start 3, Kernel_complete 3 9 [], Reap_one, Begin_round, Resume_one,
      Submit_until 8, Kernel_start 4, Kernel_complete 4 2 ''hi'', Reap_one, Kernel_start 5, Kernel_complete 5 3 [],
      Kernel_start 6, Kernel_complete 6 10 [], Reap_one, Reap_one, Begin_round, Resume_one,
      Submit_until 12, Kernel_start 8]"

lemma sample_drain_run:
  "\<exists>s. drain_run sample_drain_events drain_start = Some s \<and> 8 < length (dr_entries s)
    \<and> dr_entries s ! 8 = (Some 1, Req_write 8 2) \<and> 8 \<in> dr_started s"
  by (simp add: sample_drain_events_def drain_start_def may_start_def barrier_def dr_completed_def drain_reap_def
      drain_server_def drain_echo_start_def drain_echo_resume_def drain_accept_def echo_await_def dr_room_def dr_ENTRIES_def echo_co_start_def
      echo_co_resume_def nofail_less_def nofail_def ECANCELED_def Let_def atLeastLessThan_nat_numeral)

theorem drain_server_answers_in_order_witness:
  "\<exists>s w fd n. drain_reachable s \<and> w < 8 \<and> dr_entries s ! w = (Some 0, Req_write fd n) \<and> w \<in> dr_completed s"
proof -
  from sample_drain_run obtain s where s: "drain_run sample_drain_events drain_start = Some s" "8 < length (dr_entries s)"
    "dr_entries s ! 8 = (Some 1, Req_write 8 2)" "8 \<in> dr_started s" by blast
  from drain_run_reachable [OF s(1) drain_reachable.start] have "drain_reachable s" .
  with drain_server_answers_in_order [OF this s(2-4)] show ?thesis by blast
qed

end
