(* ===== verification/MultiTask.thy ===== *)
theory MultiTask
  imports Wrappers IoContextProps "HOL-Library.Multiset"
begin

text \<open>
  The program \<open>examples/test_multi_task.cpp\<close>: the coroutine \<open>multitask\<close> spawns a task for every upper-case
  letter and awaits a task for its lower-case form, on one \<open>io_context\<close> that is then drained. The
  coroutines run in the event loop of \<open>IoContext\<close>, through its argument \<open>resume\<close>. This theory has the
  program, what it assumes of the ring, the invariant, and its preservation by each resumption;
  \<open>MultiTaskProps\<close> has the rounds of the loop and the properties.
\<close>

section \<open>The coroutines\<close>

text \<open>The frames, by number: \<open>multitask\<close> is at its first \<open>co_await\<close> with the letters still to come, or at
  the one for the newline (\<open>None\<close>); \<open>mywrite\<close> has a caller and is suspended at its write, \<open>mywrite_v2\<close>
  was spawned and is not started, or is suspended at its write.\<close>

datatype mt_frame =
    Multitask "char list option"
  | Mywrite char nat
  | Mywrite_v2 char bool

record 'q mt_kern =
  mt_ring :: 'q
  mt_frames :: "nat \<Rightarrow> mt_frame option"
  mt_fresh :: nat

text \<open>The ring and the descriptor, and where the write of a frame and what it writes are stored.\<close>

record mt_args =
  mt_uring :: addr
  mt_fd :: int
  mt_op :: "nat \<Rightarrow> addr"
  mt_buf :: "nat \<Rightarrow> addr"

type_synonym ('p, 'q) mt_context = "('p, 'q mt_kern) io_context"

definition mt_letters :: "char list" where
  "mt_letters = concat (replicate 100 (map char_of [65..<90 :: nat]))"

text \<open>\<open>c - 'A' + 'a'\<close>, and the text of \<open>mywrite_v2\<close> with its colour codes.\<close>

definition lower_case :: "char \<Rightarrow> char" where
  "lower_case c = char_of (of_char c - 65 + (97 :: nat))"

definition red :: "char \<Rightarrow> char list" where
  "red c = [CHR 0x1B, CHR ''['', CHR ''3'', CHR ''1'', CHR ''m''] @ [c] @ [CHR 0x1B, CHR ''['', CHR ''0'', CHR ''m'']"

lemma mt_letters_length: "length mt_letters = 2500"
  by (simp add: mt_letters_def length_concat sum_list_replicate)

definition mt_alloc :: "mt_frame \<Rightarrow> ('p, 'q) mt_context \<Rightarrow> nat \<times> ('p, 'q) mt_context" where
  "mt_alloc f c = (mt_fresh (kern c),
     c\<lparr>kern := (kern c)\<lparr>mt_frames := (mt_frames (kern c))(mt_fresh (kern c) \<mapsto> f), mt_fresh := mt_fresh (kern c) + 1\<rparr>\<rparr>)"

definition mt_set :: "nat \<Rightarrow> mt_frame option \<Rightarrow> ('p, 'q) mt_context \<Rightarrow> ('p, 'q) mt_context" where
  "mt_set n f c = c\<lparr>kern := (kern c)\<lparr>mt_frames := (mt_frames (kern c))(n := f)\<rparr>\<rparr>"

text \<open>The end of a coroutine that awaited its write: the operation goes with the frame.\<close>

definition mt_finish :: "mt_args \<Rightarrow> nat \<Rightarrow> ('p, 'q) mt_context \<Rightarrow> ('p, 'q) mt_context result" where
  "mt_finish A n c = and_then (await_resume (mt_op A n) c)
     (\<lambda>res. Inr (mt_set n None (c\<lparr>uds := (uds c)(mt_op A n := None)\<rparr>)))"

text \<open>\<open>co_await async_write\<close> of \<open>bytes\<close> bytes in frame \<open>n\<close>: whether it suspends; if not, the coroutine ends.\<close>

definition mt_write :: "'p prep_fns \<Rightarrow> ('q \<Rightarrow> addr \<times> 'q) \<Rightarrow> mt_args \<Rightarrow> nat \<Rightarrow> size_t \<Rightarrow> ('p, 'q) mt_context
    \<Rightarrow> (bool \<times> ('p, 'q) mt_context) result" where
  "mt_write P get_sqe A n bytes c =
     (let get = (\<lambda>k. let (e, q) = get_sqe (mt_ring k) in (e, k\<lparr>mt_ring := q\<rparr>));
          c1 = async_write P get (mt_uring A) (mt_fd A) (mt_buf A n) bytes 0 (mt_op A n) c
      in and_then (await_ready (mt_op A n) c1) (\<lambda>ready.
           if ready then and_then (mt_finish A n c1) (\<lambda>c2. Inr (False, c2))
           else and_then (await_suspend (Coro n) (mt_op A n) c1) (\<lambda>c2. Inr (True, c2))))"

text \<open>\<open>co_await mywrite(...)\<close> in \<open>multitask\<close>, which is frame \<open>p\<close>: the task is made and started.\<close>

definition mt_call :: "'p prep_fns \<Rightarrow> ('q \<Rightarrow> addr \<times> 'q) \<Rightarrow> mt_args \<Rightarrow> nat \<Rightarrow> char \<Rightarrow> char list option
    \<Rightarrow> ('p, 'q) mt_context \<Rightarrow> (bool \<times> ('p, 'q) mt_context) result" where
  "mt_call P get_sqe A p x point c =
     (let (m, c1) = mt_alloc (Mywrite x p) c
      in mt_write P get_sqe A m 1 (mt_set p (Some (Multitask point)) c1))"

text \<open>\<open>multitask\<close> from the head of its loop; when a write did not suspend, it goes on at once.\<close>

fun mt_go :: "'p prep_fns \<Rightarrow> ('q \<Rightarrow> addr \<times> 'q) \<Rightarrow> mt_args \<Rightarrow> nat \<Rightarrow> char list \<Rightarrow> ('p, 'q) mt_context
    \<Rightarrow> ('p, 'q) mt_context result" where
  "mt_go P get_sqe A p [] c =
     and_then (mt_call P get_sqe A p (CHR 0x0A) None c) (\<lambda>(suspended, c1).
       if suspended then Inr c1 else Inr (mt_set p None (stop c1)))"
| "mt_go P get_sqe A p (x # xs) c =
     (let (v, c1) = mt_alloc (Mywrite_v2 x False) c
      in and_then (mt_call P get_sqe A p (lower_case x) (Some xs) (co_spawn (Coro v) c1)) (\<lambda>(suspended, c2).
           if suspended then Inr c2 else mt_go P get_sqe A p xs c2))"

text \<open>Resuming a frame. The end of \<open>mywrite\<close> resumes its caller.\<close>

definition mt_resume_multitask :: "'p prep_fns \<Rightarrow> ('q \<Rightarrow> addr \<times> 'q) \<Rightarrow> mt_args \<Rightarrow> nat \<Rightarrow> ('p, 'q) mt_context
    \<Rightarrow> ('p, 'q) mt_context result" where
  "mt_resume_multitask P get_sqe A p c = (case mt_frames (kern c) p of
     Some (Multitask (Some xs)) \<Rightarrow> mt_go P get_sqe A p xs c
   | Some (Multitask None) \<Rightarrow> Inr (mt_set p None (stop c))
   | _ \<Rightarrow> Inl Dangling)"

definition mt_resume :: "'p prep_fns \<Rightarrow> ('q \<Rightarrow> addr \<times> 'q) \<Rightarrow> mt_args \<Rightarrow> handle \<Rightarrow> ('p, 'q) mt_context
    \<Rightarrow> ('p, 'q) mt_context result" where
  "mt_resume P get_sqe A h c = (case h of
     Coro n \<Rightarrow> (case mt_frames (kern c) n of
         Some (Mywrite x p) \<Rightarrow> and_then (mt_finish A n c) (mt_resume_multitask P get_sqe A p)
       | Some (Mywrite_v2 x True) \<Rightarrow> mt_finish A n c
       | Some (Mywrite_v2 x False) \<Rightarrow>
           and_then (mt_write P get_sqe A n (of_nat (length (red x))) (mt_set n (Some (Mywrite_v2 x True)) c))
             (\<lambda>(suspended, c1). Inr c1)
       | _ \<Rightarrow> mt_resume_multitask P get_sqe A n c)
   | _ \<Rightarrow> Inl Null_deref)"

section \<open>main\<close>

text \<open>\<open>drain\<close>: its loop runs until nothing is pending or in flight.\<close>

partial_function (option) drain :: "('p, 'k) loop_env \<Rightarrow> bool \<Rightarrow> ('p, 'k) io_context
    \<Rightarrow> ('p, 'k) io_context result option" where
  "drain env conflict c =
     (if drained c then Some (Inr c)
      else case run_once env conflict False c of
        Inl e \<Rightarrow> Some (Inl e)
      | Inr c' \<Rightarrow> drain env conflict c')"

definition mt_start :: "'q \<Rightarrow> char list \<Rightarrow> (addr \<Rightarrow> 'p sqe) \<Rightarrow> (addr \<Rightarrow> cqe) \<Rightarrow> ('p, 'q) mt_context" where
  "mt_start q letters entries completions = co_spawn (Coro 0)
     \<lparr>sq = entries, cq = completions, uds = (\<lambda>_. None),
      kern = \<lparr>mt_ring = q, mt_frames = [0 \<mapsto> Multitask (Some letters)], mt_fresh = 1\<rparr>,
      operations = [], inflight = 0, stop_flag = False, switch_spsc = fifo_new 64 Null_handle\<rparr>"

definition mt_main :: "('p, 'q mt_kern) loop_env \<Rightarrow> ('p, 'q) mt_context \<Rightarrow> ('p, 'q) mt_context result option" where
  "mt_main env c = Option.bind (run env False c) (\<lambda>r. case r of
     Inl e \<Rightarrow> Some (Inl e)
   | Inr c1 \<Rightarrow> drain env False c1)"

section \<open>What is assumed of the ring\<close>

text \<open>Of the state of the ring: the entries taken and not submitted, the \<open>user_data\<close> of the operations in the
  kernel, the completions to be reaped, and the \<open>user_data\<close> of all entries submitted so far, in order.\<close>

record 'q ring_view =
  vw_queued :: "'q \<Rightarrow> addr list"
  vw_flight :: "'q \<Rightarrow> addr multiset"
  vw_ready :: "'q \<Rightarrow> addr list"
  vw_sent :: "'q \<Rightarrow> addr list"

abbreviation queued_data :: "'q ring_view \<Rightarrow> ('p, 'q) mt_context \<Rightarrow> addr list" where
  "queued_data V c \<equiv> map (\<lambda>e. sqe_user_data (sq c e)) (vw_queued V (mt_ring (kern c)))"

text \<open>There are \<open>entries\<close> submission entries.\<close>

definition supplies_entries :: "nat \<Rightarrow> ('q \<Rightarrow> addr \<times> 'q) \<Rightarrow> 'q ring_view \<Rightarrow> bool" where
  "supplies_entries entries get_sqe V \<longleftrightarrow> (\<forall>q. length (vw_queued V q) < entries \<longrightarrow>
     (\<exists>e q'. get_sqe q = (e, q') \<and> e \<noteq> null \<and> e \<notin> set (vw_queued V q) \<and> vw_queued V q' = vw_queued V q @ [e]
       \<and> vw_flight V q' = vw_flight V q \<and> vw_ready V q' = vw_ready V q \<and> vw_sent V q' = vw_sent V q))"

text \<open>Submitting takes all queued entries; each operation completes once, nothing is cancelled, and while
  there is an operation that is not complete one completion is there after the submission.\<close>

definition submits_all :: "'q ring_view \<Rightarrow> ('p, 'q mt_kern) loop_env \<Rightarrow> bool" where
  "submits_all V env \<longleftrightarrow> (\<forall>c. \<exists>q' cq' new. let q = mt_ring (kern c) in
     submit env c = (int (length (vw_queued V q)), c\<lparr>cq := cq', kern := (kern c)\<lparr>mt_ring := q'\<rparr>\<rparr>)
     \<and> vw_queued V q' = [] \<and> vw_sent V q' = vw_sent V q @ queued_data V c \<and> vw_ready V q' = vw_ready V q @ new
     \<and> (\<forall>a \<in> set (vw_ready V q). cq' a = cq c a) \<and> (\<forall>a \<in> set new. a \<noteq> null \<and> cqe_res (cq' a) \<noteq> - ECANCELED)
     \<and> mset (map (\<lambda>a. cqe_user_data (cq' a)) new) + vw_flight V q' = vw_flight V q + mset (queued_data V c)
     \<and> (vw_flight V q + mset (queued_data V c) \<noteq> {#} \<longrightarrow> vw_ready V q' \<noteq> []))"

definition reaps_ready :: "'q ring_view \<Rightarrow> ('p, 'q mt_kern) loop_env \<Rightarrow> bool" where
  "reaps_ready V env \<longleftrightarrow> (\<forall>c. peek env c = vw_ready V (mt_ring (kern c)))
     \<and> (\<forall>d c. \<exists>q'. let q = mt_ring (kern c) in advance env d c = c\<lparr>kern := (kern c)\<lparr>mt_ring := q'\<rparr>\<rparr>
          \<and> vw_ready V q' = drop (unat d) (vw_ready V q) \<and> vw_queued V q' = vw_queued V q
          \<and> vw_flight V q' = vw_flight V q \<and> vw_sent V q' = vw_sent V q)"

section \<open>The invariant\<close>

text \<open>The frames are numbered in the order they are made: letter \<open>i\<close> has \<open>mywrite_v2\<close> in frame
  \<open>up i\<close> and \<open>mywrite\<close> in frame \<open>low i\<close>, and the newline comes in \<open>up\<close> of the number of letters.\<close>

definition up :: "nat \<Rightarrow> nat" where "up i = 2 * i + 1"
definition low :: "nat \<Rightarrow> nat" where "low i = 2 * i + 2"

lemma up_low [simp]: "up i = up j \<longleftrightarrow> i = j" "low i = low j \<longleftrightarrow> i = j" "up i \<noteq> low j" "low j \<noteq> up i"
  "up i \<noteq> 0" "low i \<noteq> 0" "0 \<noteq> up i" "0 \<noteq> low i"
  unfolding up_def low_def by presburger+

text \<open>Where \<open>multitask\<close> is: not waiting (about to take the next letter), awaiting the task of the last
  letter, awaiting the newline, or ended.\<close>

datatype mt_phase = Between | Letter | Newline | Over

definition current :: "char list \<Rightarrow> nat \<Rightarrow> mt_phase \<Rightarrow> nat option" where
  "current letters k ph = (case ph of Letter \<Rightarrow> Some (low (k - 1)) | Newline \<Rightarrow> Some (up (length letters)) | _ \<Rightarrow> None)"

text \<open>\<open>k\<close> letters have been taken, \<open>s\<close> of the spawned tasks were started and \<open>U\<close> of them are not complete.\<close>

definition outstanding :: "char list \<Rightarrow> nat \<Rightarrow> mt_phase \<Rightarrow> nat set \<Rightarrow> nat set" where
  "outstanding letters k ph U = up ` U \<union> set_option (current letters k ph)"

definition ok_bounds :: "char list \<Rightarrow> nat \<Rightarrow> mt_phase \<Rightarrow> nat \<Rightarrow> nat set \<Rightarrow> bool" where
  "ok_bounds letters k ph s U \<longleftrightarrow> k \<le> length letters \<and> s \<le> k \<and> U \<subseteq> {..<s}
     \<and> (ph \<in> {Newline, Over} \<longrightarrow> k = length letters) \<and> (ph = Letter \<longrightarrow> 0 < k)"

definition ok_frames :: "char list \<Rightarrow> nat \<Rightarrow> mt_phase \<Rightarrow> nat \<Rightarrow> nat set \<Rightarrow> (nat \<Rightarrow> mt_frame option) \<Rightarrow> bool" where
  "ok_frames letters k ph s U fr \<longleftrightarrow>
     fr 0 = (case ph of Newline \<Rightarrow> Some (Multitask None) | Over \<Rightarrow> None | _ \<Rightarrow> Some (Multitask (Some (drop k letters))))
     \<and> (\<forall>i. s \<le> i \<and> i < k \<longrightarrow> fr (up i) = Some (Mywrite_v2 (letters ! i) False))
     \<and> (\<forall>i \<in> U. fr (up i) = Some (Mywrite_v2 (letters ! i) True))
     \<and> (ph = Letter \<longrightarrow> fr (low (k - 1)) = Some (Mywrite (lower_case (letters ! (k - 1))) 0))
     \<and> (ph = Newline \<longrightarrow> fr (up (length letters)) = Some (Mywrite (CHR 0x0A) 0))
     \<and> (\<forall>n. fr n \<noteq> None \<longrightarrow> n = 0 \<or> n \<in> outstanding letters k ph U \<or> (\<exists>i. s \<le> i \<and> i < k \<and> n = up i))"

text \<open>The order of the entries: the lower-case letters one after the other, and the upper-case ones.\<close>

definition is_low :: "char list \<Rightarrow> nat \<Rightarrow> bool" where
  "is_low letters n \<longleftrightarrow> even n \<or> n = up (length letters)"

definition low_order :: "char list \<Rightarrow> nat \<Rightarrow> mt_phase \<Rightarrow> nat list" where
  "low_order letters k ph = map low [0..<k] @ (if ph \<in> {Newline, Over} then [up (length letters)] else [])"

definition ok_log :: "(nat \<Rightarrow> addr) \<Rightarrow> char list \<Rightarrow> nat \<Rightarrow> mt_phase \<Rightarrow> nat \<Rightarrow> addr list \<Rightarrow> bool" where
  "ok_log op letters k ph s log \<longleftrightarrow> (\<exists>ns. log = map op ns
     \<and> filter (is_low letters) ns = low_order letters k ph \<and> filter (\<lambda>n. \<not> is_low letters n) ns = map up [0..<s])"

definition ok_uds :: "mt_args \<Rightarrow> nat set \<Rightarrow> (addr \<Rightarrow> async_user_data option) \<Rightarrow> bool" where
  "ok_uds A ns ud \<longleftrightarrow> (\<forall>n \<in> ns. \<exists>e. e \<noteq> null
     \<and> ud (mt_op A n) = Some \<lparr>ud_uring = mt_uring A, ud_sqe = e, ud_cqe = null, ud_h = Coro n\<rparr>)"

text \<open>The operations of the frames \<open>ns\<close> are queued, in the kernel, or among the completions being reaped, whose
  \<open>user_data\<close> are \<open>R\<close>.\<close>

definition ok_ops :: "'q ring_view \<Rightarrow> mt_args \<Rightarrow> nat set \<Rightarrow> addr multiset \<Rightarrow> ('p, 'q) mt_context \<Rightarrow> bool" where
  "ok_ops V A ns R c \<longleftrightarrow> ok_uds A ns (uds c)
     \<and> mset (queued_data V c) + vw_flight V (mt_ring (kern c)) + R = image_mset (mt_op A) (mset_set ns)"

definition mt_ok :: "'q ring_view \<Rightarrow> mt_args \<Rightarrow> char list \<Rightarrow> nat \<Rightarrow> mt_phase \<Rightarrow> nat \<Rightarrow> nat set \<Rightarrow> addr multiset
    \<Rightarrow> ('p, 'q) mt_context \<Rightarrow> bool" where
  "mt_ok V A letters k ph s U R c \<longleftrightarrow>
     ok_bounds letters k ph s U \<and> ok_frames letters k ph s U (mt_frames (kern c))
     \<and> mt_fresh (kern c) = (if ph \<in> {Newline, Over} then low k else up k)
     \<and> operations c = map (\<lambda>i. Coro (up i)) [s..<k]
     \<and> ok_ops V A (outstanding letters k ph U) R c
     \<and> ok_log (mt_op A) letters k ph s (vw_sent V (mt_ring (kern c)) @ queued_data V c)
     \<and> switch_spsc c = fifo_new 64 Null_handle \<and> (stop_flag c \<longleftrightarrow> ph = Over)"

text \<open>What resuming leaves alone.\<close>

definition mt_same :: "'q ring_view \<Rightarrow> ('p, 'q) mt_context \<Rightarrow> ('p, 'q) mt_context \<Rightarrow> bool" where
  "mt_same V c c' \<longleftrightarrow> cq c' = cq c \<and> inflight c' = inflight c
     \<and> vw_flight V (mt_ring (kern c')) = vw_flight V (mt_ring (kern c))
     \<and> vw_ready V (mt_ring (kern c')) = vw_ready V (mt_ring (kern c))"

lemma mt_same_trans [trans]: "mt_same V a b \<Longrightarrow> mt_same V b c \<Longrightarrow> mt_same V a c"
  by (simp add: mt_same_def)

lemma outstanding_bound:
  "ok_bounds letters k ph s U \<Longrightarrow> n \<in> outstanding letters k ph U \<Longrightarrow> n \<le> up (length letters)"
  by (auto simp: ok_bounds_def outstanding_def current_def up_def low_def split: mt_phase.splits)

lemma outstanding_finite: "ok_bounds letters k ph s U \<Longrightarrow> finite (outstanding letters k ph U)"
  by (auto simp: ok_bounds_def outstanding_def intro: finite_subset)

text \<open>A new operation is queued.\<close>

lemma mt_write_suspends:
  fixes c :: "('p, 'q) mt_context"
  assumes "supplies_entries entries get_sqe V" and "length (vw_queued V (mt_ring (kern c))) < entries"
  obtains e q' where
    "mt_write P get_sqe A n bytes c = Inr (True, c\<lparr>sq := (sq c)(e := io_uring_sqe_set_data (mt_op A n)
        (prep_write P (mt_fd A) (mt_buf A n) (ucast bytes) 0 (sq c e))),
      uds := (uds c)(mt_op A n \<mapsto> \<lparr>ud_uring = mt_uring A, ud_sqe = e, ud_cqe = null, ud_h = Coro n\<rparr>),
      kern := (kern c)\<lparr>mt_ring := q'\<rparr>\<rparr>)"
    "e \<noteq> null" "e \<notin> set (vw_queued V (mt_ring (kern c)))" "vw_queued V q' = vw_queued V (mt_ring (kern c)) @ [e]"
    "vw_flight V q' = vw_flight V (mt_ring (kern c))" "vw_ready V q' = vw_ready V (mt_ring (kern c))"
    "vw_sent V q' = vw_sent V (mt_ring (kern c))"
proof -
  from assms obtain e q' where e: "get_sqe (mt_ring (kern c)) = (e, q')" "e \<noteq> null" "e \<notin> set (vw_queued V (mt_ring (kern c)))"
    "vw_queued V q' = vw_queued V (mt_ring (kern c)) @ [e]" "vw_flight V q' = vw_flight V (mt_ring (kern c))"
    "vw_ready V q' = vw_ready V (mt_ring (kern c))" "vw_sent V q' = vw_sent V (mt_ring (kern c))"
    unfolding supplies_entries_def by blast
  from e(1,2) show ?thesis
    by (intro that [where e = e and q' = q'] e) (simp_all add: mt_write_def async_write_def aio_defs Let_def)
qed

text \<open>The state after it.\<close>

definition wrote :: "'q ring_view \<Rightarrow> mt_args \<Rightarrow> nat \<Rightarrow> ('p, 'q) mt_context \<Rightarrow> ('p, 'q) mt_context \<Rightarrow> bool" where
  "wrote V A n c c' \<longleftrightarrow> mt_same V c c' \<and> queued_data V c' = queued_data V c @ [mt_op A n]
     \<and> length (vw_queued V (mt_ring (kern c'))) = length (vw_queued V (mt_ring (kern c))) + 1
     \<and> vw_sent V (mt_ring (kern c')) = vw_sent V (mt_ring (kern c))
     \<and> (\<exists>e. e \<noteq> null \<and> uds c' = (uds c)(mt_op A n \<mapsto> \<lparr>ud_uring = mt_uring A, ud_sqe = e, ud_cqe = null, ud_h = Coro n\<rparr>))
     \<and> mt_frames (kern c') = mt_frames (kern c) \<and> mt_fresh (kern c') = mt_fresh (kern c)
     \<and> operations c' = operations c \<and> stop_flag c' = stop_flag c \<and> switch_spsc c' = switch_spsc c"

lemma mt_write_wrote:
  fixes c :: "('p, 'q) mt_context"
  assumes "supplies_entries entries get_sqe V" and "length (vw_queued V (mt_ring (kern c))) < entries"
  obtains c' where "mt_write P get_sqe A n bytes c = Inr (True, c')" "wrote V A n c c'"
proof -
  from mt_write_suspends [OF assms, of P A n bytes] obtain e q' where
    w: "mt_write P get_sqe A n bytes c = Inr (True, c\<lparr>sq := (sq c)(e := io_uring_sqe_set_data (mt_op A n)
        (prep_write P (mt_fd A) (mt_buf A n) (ucast bytes) 0 (sq c e))),
      uds := (uds c)(mt_op A n \<mapsto> \<lparr>ud_uring = mt_uring A, ud_sqe = e, ud_cqe = null, ud_h = Coro n\<rparr>),
      kern := (kern c)\<lparr>mt_ring := q'\<rparr>\<rparr>)" (is "_ = Inr (True, ?c')")
    and e: "e \<noteq> null" "e \<notin> set (vw_queued V (mt_ring (kern c)))" and q': "vw_queued V q' = vw_queued V (mt_ring (kern c)) @ [e]"
      "vw_flight V q' = vw_flight V (mt_ring (kern c))" "vw_ready V q' = vw_ready V (mt_ring (kern c))"
      "vw_sent V q' = vw_sent V (mt_ring (kern c))" .
  have "wrote V A n c ?c'"
    using e q' by (auto simp: wrote_def mt_same_def io_uring_sqe_set_data_def)
  with w that show ?thesis by blast
qed

lemma wrote_ops:
  assumes "wrote V A n c c'" "ok_ops V A ns R c" "finite ns" "n \<notin> ns" "mt_op A n \<notin> mt_op A ` ns"
  shows "ok_ops V A (insert n ns) R c'"
  using assms by (auto simp: wrote_def ok_ops_def ok_uds_def mt_same_def image_iff)

text \<open>The end of a task whose completion was delivered.\<close>

definition completed :: "'q ring_view \<Rightarrow> mt_args \<Rightarrow> nat \<Rightarrow> ('p, 'q) mt_context \<Rightarrow> ('p, 'q) mt_context \<Rightarrow> bool" where
  "completed V A n c c' \<longleftrightarrow> mt_same V c c' \<and> uds c' = (uds c)(mt_op A n := None)
     \<and> mt_frames (kern c') = (mt_frames (kern c))(n := None) \<and> mt_fresh (kern c') = mt_fresh (kern c)
     \<and> mt_ring (kern c') = mt_ring (kern c) \<and> sq c' = sq c
     \<and> operations c' = operations c \<and> stop_flag c' = stop_flag c \<and> switch_spsc c' = switch_spsc c"

lemma mt_finish_completed:
  assumes "ok_uds A ns (uds c)" "n \<in> ns" "q \<noteq> null" "cqe_user_data (cq c q) = mt_op A n"
  obtains c1 c2 where "deliver q c = Inr (Coro n, c1)" "mt_frames (kern c1) = mt_frames (kern c)"
    "mt_finish A n c1 = Inr c2" "completed V A n c c2"
proof -
  from assms(1,2) obtain e where e: "e \<noteq> null"
    "uds c (mt_op A n) = Some \<lparr>ud_uring = mt_uring A, ud_sqe = e, ud_cqe = null, ud_h = Coro n\<rparr>"
    by (auto simp: ok_uds_def)
  let ?c1 = "put_ud (mt_op A n) \<lparr>ud_uring = mt_uring A, ud_sqe = e, ud_cqe = q, ud_h = Coro n\<rparr> c"
  show ?thesis
  proof (rule that [of ?c1])
    show "deliver q c = Inr (Coro n, ?c1)" using e assms by (simp add: aio_defs)
    show "mt_finish A n ?c1 = Inr (mt_set n None (?c1\<lparr>uds := (uds ?c1)(mt_op A n := None)\<rparr>))"
      using e assms by (simp add: aio_defs mt_finish_def)
  qed (simp_all add: completed_def mt_set_def mt_same_def put_ud_def)
qed

lemma completed_ops:
  assumes "completed V A n c c'" "ok_ops V A ns (add_mset (mt_op A n) R) c" "finite ns" "n \<in> ns"
    "\<forall>m \<in> ns. mt_op A m = mt_op A n \<longrightarrow> m = n"
  shows "ok_ops V A (ns - {n}) R c'"
proof -
  have "mset_set ns = add_mset n (mset_set (ns - {n}))"
    using assms(3,4) by (simp add: mset_set.remove)
  with assms show ?thesis
    by (auto simp: completed_def ok_ops_def ok_uds_def mt_same_def)
qed

lemma not_is_low_up: "i < length letters \<Longrightarrow> \<not> is_low letters (up i)"
  by (simp add: is_low_def) (simp add: up_def)

lemma is_low_low [simp]: "is_low letters (low i)" "is_low letters (up (length letters))"
  by (simp_all add: is_low_def) (simp add: low_def)

text \<open>A spawned task is started.\<close>

lemma outstanding_start: "outstanding letters k ph (insert s U) = insert (up s) (outstanding letters k ph U)"
  by (auto simp: outstanding_def)

lemma up_not_outstanding:
  "ok_bounds letters k ph s U \<Longrightarrow> s < k \<Longrightarrow> up s \<notin> outstanding letters k ph U"
  by (auto simp: ok_bounds_def outstanding_def current_def split: mt_phase.splits)

lemma ok_log_start:
  assumes "ok_log op letters k ph s log" "s < k" "k \<le> length letters"
  shows "ok_log op letters k ph (Suc s) (log @ [op (up s)])"
proof -
  from assms(1) obtain ns where "log = map op ns" "filter (is_low letters) ns = low_order letters k ph"
    "filter (\<lambda>n. \<not> is_low letters n) ns = map up [0..<s]" by (auto simp: ok_log_def)
  with assms(2,3) show ?thesis
    unfolding ok_log_def by (intro exI [of _ "ns @ [up s]"]) (simp add: not_is_low_up)
qed

lemma mt_starts_task:
  fixes c :: "('p, 'q) mt_context"
  assumes sup: "supplies_entries entries get_sqe V" "length (vw_queued V (mt_ring (kern c))) < entries"
    and inj: "inj_on (mt_op A) {..up (length letters)}" and ok: "mt_ok V A letters k ph s U R c" and "s < k"
  obtains c' where "mt_resume P get_sqe A (Coro (up s)) (c\<lparr>operations := map (\<lambda>i. Coro (up i)) [Suc s..<k]\<rparr>) = Inr c'"
    "mt_ok V A letters k ph (Suc s) (insert s U) R c'" "mt_same V c c'"
    "length (vw_queued V (mt_ring (kern c'))) = length (vw_queued V (mt_ring (kern c))) + 1"
proof -
  let ?c1 = "mt_set (up s) (Some (Mywrite_v2 (letters ! s) True)) (c\<lparr>operations := map (\<lambda>i. Coro (up i)) [Suc s..<k]\<rparr>)"
  have b: "ok_bounds letters k ph s U" and fr: "ok_frames letters k ph s U (mt_frames (kern c))"
    and ops: "ok_ops V A (outstanding letters k ph U) R c" using ok by (simp_all add: mt_ok_def)
  have "length (vw_queued V (mt_ring (kern ?c1))) < entries" using sup(2) by (simp add: mt_set_def)
  from mt_write_wrote [OF sup(1) this, of P A "up s" "of_nat (length (red (letters ! s)))"] obtain c' where
    w: "mt_write P get_sqe A (up s) (of_nat (length (red (letters ! s)))) ?c1 = Inr (True, c')" "wrote V A (up s) ?c1 c'" .
  have "mt_frames (kern c) (up s) = Some (Mywrite_v2 (letters ! s) False)"
    using fr \<open>s < k\<close> by (simp add: ok_frames_def)
  with w(1) have r: "mt_resume P get_sqe A (Coro (up s)) (c\<lparr>operations := map (\<lambda>i. Coro (up i)) [Suc s..<k]\<rparr>) = Inr c'"
    by (simp add: mt_resume_def)
  have b': "ok_bounds letters k ph (Suc s) (insert s U)" using b \<open>s < k\<close> by (auto simp: ok_bounds_def)
  have out: "up s \<notin> outstanding letters k ph U" by (rule up_not_outstanding [OF b \<open>s < k\<close>])
  have "mt_op A (up s) \<notin> mt_op A ` outstanding letters k ph U"
    using inj out outstanding_bound [OF b] outstanding_bound [OF b', of "up s"]
    by (auto simp: inj_on_def outstanding_start)
  then have ops': "ok_ops V A (outstanding letters k ph (insert s U)) R c'"
    unfolding outstanding_start using ops
    by (intro wrote_ops [OF w(2)]) (auto simp: ok_ops_def mt_set_def out outstanding_finite [OF b])
  have fr': "ok_frames letters k ph (Suc s) (insert s U) (mt_frames (kern c'))"
    using fr w(2) \<open>s < k\<close> b
    by (auto simp: ok_frames_def wrote_def mt_set_def outstanding_start ok_bounds_def le_Suc_eq split: mt_phase.splits)
  have log': "ok_log (mt_op A) letters k ph (Suc s) (vw_sent V (mt_ring (kern c')) @ queued_data V c')"
    using ok_log_start [of "mt_op A" letters k ph s "vw_sent V (mt_ring (kern c)) @ queued_data V c"] ok w(2) \<open>s < k\<close> b
    by (simp add: mt_ok_def wrote_def mt_set_def ok_bounds_def)
  from w(2) ok have "mt_ok V A letters k ph (Suc s) (insert s U) R c'"
    by (simp add: mt_ok_def b' ops' fr' log') (simp add: wrote_def mt_set_def)
  with r w(2) show ?thesis by (intro that [of c']) (simp_all add: wrote_def mt_same_def mt_set_def)
qed

text \<open>\<open>multitask\<close> goes on to its next \<open>co_await\<close>.\<close>

lemma low_not_outstanding:
  "ok_bounds letters k Between s U \<Longrightarrow> low k \<notin> outstanding letters k Between U"
  "ok_bounds letters k Between s U \<Longrightarrow> up (length letters) \<notin> outstanding letters k Between U"
  by (auto simp: ok_bounds_def outstanding_def current_def)

lemma outstanding_letter:
  "outstanding letters (Suc k) Letter U = insert (low k) (outstanding letters k Between U)"
  "outstanding letters k Newline U = insert (up (length letters)) (outstanding letters k Between U)"
  by (auto simp: outstanding_def current_def)

lemma ok_log_low:
  assumes "ok_log op letters k Between s log"
  shows "ok_log op letters (Suc k) Letter s (log @ [op (low k)])"
    and "ok_log op letters k Newline s (log @ [op (up (length letters))])"
proof -
  from assms obtain ns where "log = map op ns" "filter (is_low letters) ns = low_order letters k Between"
    "filter (\<lambda>n. \<not> is_low letters n) ns = map up [0..<s]" by (auto simp: ok_log_def)
  then show "ok_log op letters (Suc k) Letter s (log @ [op (low k)])"
    "ok_log op letters k Newline s (log @ [op (up (length letters))])"
    unfolding ok_log_def
    by (auto intro: exI [of _ "ns @ [low k]"] exI [of _ "ns @ [up (length letters)]"] simp: low_order_def)
qed

lemma fresh_low: "up k + 1 = low k" by (simp add: up_def low_def)

lemma mt_takes_letter:
  fixes c :: "('p, 'q) mt_context"
  assumes sup: "supplies_entries entries get_sqe V" "length (vw_queued V (mt_ring (kern c))) < entries"
    and inj: "inj_on (mt_op A) {..up (length letters)}" and ok: "mt_ok V A letters k Between s U R c" and k: "k < length letters"
  obtains c' where "mt_go P get_sqe A 0 (drop k letters) c = Inr c'" "mt_ok V A letters (Suc k) Letter s U R c'" "mt_same V c c'"
    "length (vw_queued V (mt_ring (kern c'))) = length (vw_queued V (mt_ring (kern c))) + 1"
    "mt_op A (low k) \<in> set (queued_data V c')"
proof -
  let ?c1 = "snd (mt_alloc (Mywrite_v2 (letters ! k) False) c)"
  let ?c2 = "snd (mt_alloc (Mywrite (lower_case (letters ! k)) 0) (co_spawn (Coro (up k)) ?c1))"
  let ?c3 = "mt_set 0 (Some (Multitask (Some (drop (Suc k) letters)))) ?c2"
  have b: "ok_bounds letters k Between s U" and fr: "ok_frames letters k Between s U (mt_frames (kern c))"
    and ops: "ok_ops V A (outstanding letters k Between U) R c" and fresh: "mt_fresh (kern c) = up k"
    and sk: "s \<le> k" using ok by (simp_all add: mt_ok_def ok_bounds_def)
  have "length (vw_queued V (mt_ring (kern ?c3))) < entries" using sup(2) by (simp add: mt_set_def mt_alloc_def co_spawn_def)
  from mt_write_wrote [OF sup(1) this, of P A "low k" 1] obtain c' where
    w: "mt_write P get_sqe A (low k) 1 ?c3 = Inr (True, c')" "wrote V A (low k) ?c3 c'" .
  have r: "mt_go P get_sqe A 0 (drop k letters) c = Inr c'"
    using w(1) fresh Cons_nth_drop_Suc [OF k, symmetric] by (simp add: mt_alloc_def mt_call_def co_spawn_def fresh_low [simplified])
  have c3: "mt_frames (kern ?c3) = (mt_frames (kern c))(up k \<mapsto> Mywrite_v2 (letters ! k) False,
      low k \<mapsto> Mywrite (lower_case (letters ! k)) 0, 0 \<mapsto> Multitask (Some (drop (Suc k) letters)))"
    "mt_fresh (kern ?c3) = low k + 1" "operations ?c3 = operations c @ [Coro (up k)]" "stop_flag ?c3 = stop_flag c"
    "switch_spsc ?c3 = switch_spsc c" "sq ?c3 = sq c" "mt_ring (kern ?c3) = mt_ring (kern c)" "uds ?c3 = uds c" "mt_same V c ?c3"
    using fresh by (simp_all add: mt_alloc_def mt_set_def co_spawn_def fresh_low [simplified] mt_same_def)
  have b': "ok_bounds letters (Suc k) Letter s U" using b k by (auto simp: ok_bounds_def)
  have "mt_op A (low k) \<notin> mt_op A ` outstanding letters k Between U"
    using inj low_not_outstanding(1) [OF b] outstanding_bound [OF b] outstanding_bound [OF b', of "low k"]
    by (auto simp: inj_on_def outstanding_letter)
  then have ops': "ok_ops V A (outstanding letters (Suc k) Letter U) R c'"
    unfolding outstanding_letter using ops
    by (intro wrote_ops [OF w(2)]) (auto simp: ok_ops_def c3 low_not_outstanding(1) [OF b] outstanding_finite [OF b])
  have fr': "ok_frames letters (Suc k) Letter s U (mt_frames (kern c'))"
    using fr w(2) b by (auto simp: ok_frames_def wrote_def c3 outstanding_letter less_Suc_eq ok_bounds_def)
  have log': "ok_log (mt_op A) letters (Suc k) Letter s (vw_sent V (mt_ring (kern c')) @ queued_data V c')"
    using ok_log_low(1) [of "mt_op A" letters k s "vw_sent V (mt_ring (kern c)) @ queued_data V c"] ok w(2)
    by (simp add: mt_ok_def wrote_def c3)
  have "mt_fresh (kern c') = up (Suc k)" using w(2) by (simp add: wrote_def c3) (simp add: up_def low_def)
  with w(2) ok sk have "mt_ok V A letters (Suc k) Letter s U R c'"
    by (simp add: mt_ok_def b' ops' fr' log') (simp add: wrote_def c3)
  with r w(2) show ?thesis
    by (intro that [of c'] mt_same_trans [OF c3(9)]) (simp_all add: wrote_def c3)
qed

lemma mt_takes_newline:
  fixes c :: "('p, 'q) mt_context"
  assumes sup: "supplies_entries entries get_sqe V" "length (vw_queued V (mt_ring (kern c))) < entries"
    and inj: "inj_on (mt_op A) {..up (length letters)}" and ok: "mt_ok V A letters k Between s U R c" and k: "k = length letters"
  obtains c' where "mt_go P get_sqe A 0 [] c = Inr c'" "mt_ok V A letters k Newline s U R c'" "mt_same V c c'"
    "length (vw_queued V (mt_ring (kern c'))) = length (vw_queued V (mt_ring (kern c))) + 1"
    "mt_op A (up (length letters)) \<in> set (queued_data V c')"
proof -
  let ?c3 = "mt_set 0 (Some (Multitask None)) (snd (mt_alloc (Mywrite (CHR 0x0A) 0) c))"
  have b: "ok_bounds letters k Between s U" and fr: "ok_frames letters k Between s U (mt_frames (kern c))"
    and ops: "ok_ops V A (outstanding letters k Between U) R c" and fresh: "mt_fresh (kern c) = up k"
    using ok by (simp_all add: mt_ok_def)
  have "length (vw_queued V (mt_ring (kern ?c3))) < entries" using sup(2) by (simp add: mt_set_def mt_alloc_def)
  from mt_write_wrote [OF sup(1) this, of P A "up k" 1] obtain c' where
    w: "mt_write P get_sqe A (up k) 1 ?c3 = Inr (True, c')" "wrote V A (up k) ?c3 c'" .
  have r: "mt_go P get_sqe A 0 [] c = Inr c'" using w(1) fresh by (simp add: mt_alloc_def mt_call_def)
  have c3: "mt_frames (kern ?c3) = (mt_frames (kern c))(up k \<mapsto> Mywrite (CHR 0x0A) 0, 0 \<mapsto> Multitask None)"
    "mt_fresh (kern ?c3) = low k" "operations ?c3 = operations c" "stop_flag ?c3 = stop_flag c"
    "switch_spsc ?c3 = switch_spsc c" "sq ?c3 = sq c" "mt_ring (kern ?c3) = mt_ring (kern c)" "uds ?c3 = uds c" "mt_same V c ?c3"
    using fresh by (simp_all add: mt_alloc_def mt_set_def fresh_low [simplified] mt_same_def)
  have b': "ok_bounds letters k Newline s U" using b k by (auto simp: ok_bounds_def)
  have out: "up k \<notin> outstanding letters k Between U" using low_not_outstanding(2) [OF b] k by simp
  have "mt_op A (up k) \<notin> mt_op A ` outstanding letters k Between U"
    using inj out outstanding_bound [OF b] outstanding_bound [OF b', of "up k"]
    by (auto simp: inj_on_def outstanding_letter k)
  then have ops': "ok_ops V A (outstanding letters k Newline U) R c'"
    unfolding outstanding_letter using ops out
    by (fold k) (intro wrote_ops [OF w(2)], auto simp: ok_ops_def c3 outstanding_finite [OF b])
  have fr': "ok_frames letters k Newline s U (mt_frames (kern c'))"
    using fr w(2) b k by (auto simp: ok_frames_def wrote_def c3 outstanding_letter ok_bounds_def)
  have log': "ok_log (mt_op A) letters k Newline s (vw_sent V (mt_ring (kern c')) @ queued_data V c')"
    using ok_log_low(2) [of "mt_op A" letters k s "vw_sent V (mt_ring (kern c)) @ queued_data V c"] ok w(2) k
    by (simp add: mt_ok_def wrote_def c3)
  from w(2) ok have "mt_ok V A letters k Newline s U R c'"
    by (simp add: mt_ok_def b' ops' fr' log') (simp add: wrote_def c3)
  with r w(2) show ?thesis
    by (intro that [of c'] mt_same_trans [OF c3(9)]) (simp_all add: wrote_def c3 k)
qed

lemma mt_goes_on:
  fixes c :: "('p, 'q) mt_context"
  assumes sup: "supplies_entries entries get_sqe V" "length (vw_queued V (mt_ring (kern c))) < entries"
    and inj: "inj_on (mt_op A) {..up (length letters)}" and ok: "mt_ok V A letters k Between s U R c"
  obtains c' k' ph' m where "mt_go P get_sqe A 0 (drop k letters) c = Inr c'" "mt_ok V A letters k' ph' s U R c'" "mt_same V c c'"
    "length (vw_queued V (mt_ring (kern c'))) = length (vw_queued V (mt_ring (kern c))) + 1"
    "current letters k' ph' = Some m" "mt_op A m \<in> set (queued_data V c')"
    "ph' = Letter \<and> k' = Suc k \<or> ph' = Newline \<and> k' = k"
proof (cases "k < length letters")
  case True
  from mt_takes_letter [OF sup inj ok True, of P] that [of _ "Suc k" Letter "low k"] show ?thesis
    by (auto simp: current_def)
next
  case False
  then have "k = length letters" using ok by (simp add: mt_ok_def ok_bounds_def)
  from mt_takes_newline [OF sup inj ok this, of P] this that [of _ k Newline "up (length letters)"] show ?thesis
    by (auto simp: current_def)
qed

text \<open>The writes that are not complete: not started, not yet asked for, and outstanding.\<close>

definition left :: "char list \<Rightarrow> nat \<Rightarrow> mt_phase \<Rightarrow> nat \<Rightarrow> nat set \<Rightarrow> nat" where
  "left letters k ph s U = (length letters - s) + (length letters - k) + (if ph \<in> {Newline, Over} then 0 else 1)
     + card (outstanding letters k ph U)"

text \<open>A completion is handled: that of a spawned task, or that of the task \<open>multitask\<close> awaits.\<close>

lemma ok_frames_completed_up:
  assumes "ok_frames letters k ph s U fr" "ok_bounds letters k ph s U" "i \<in> U"
  shows "ok_frames letters k ph s (U - {i}) (fr(up i := None))"
  using assms by (auto simp: ok_frames_def ok_bounds_def outstanding_def current_def split: mt_phase.splits)

lemma outstanding_remove:
  assumes "ok_bounds letters k ph s U"
  shows "i \<in> U \<Longrightarrow> outstanding letters k ph (U - {i}) = outstanding letters k ph U - {up i}"
    and "current letters k ph = Some m \<Longrightarrow> outstanding letters k Between U = outstanding letters k ph U - {m}"
    and "current letters k ph = Some m \<Longrightarrow> outstanding letters k Over U = outstanding letters k ph U - {m}"
  using assms by (auto simp: outstanding_def current_def ok_bounds_def split: mt_phase.splits)

lemma mt_resume_up:
  assumes "mt_frames (kern c) (up i) = Some (Mywrite_v2 x True)"
  shows "mt_resume P get_sqe A (Coro (up i)) c = mt_finish A (up i) c"
  using assms by (simp add: mt_resume_def)

lemma mt_resume_current:
  assumes "mt_frames (kern c) m = Some (Mywrite x 0)"
  shows "mt_resume P get_sqe A (Coro m) c = and_then (mt_finish A m c) (mt_resume_multitask P get_sqe A 0)"
  using assms by (simp add: mt_resume_def)

lemma ok_log_between: "ok_log op letters k Letter s log \<Longrightarrow> ok_log op letters k Between s log"
  "ok_log op letters k Newline s log \<Longrightarrow> ok_log op letters k Over s log"
  by (simp_all add: ok_log_def low_order_def)

text \<open>A completion names an outstanding task, which ends.\<close>

lemma mt_reaped:
  fixes c :: "('p, 'q) mt_context"
  assumes inj: "inj_on (mt_op A) {..up (length letters)}"
    and ok: "mt_ok V A letters k ph s U (add_mset (cqe_user_data (cq c q)) R) c" and q: "q \<noteq> null"
  obtains n c1 c2 where "deliver q c = Inr (Coro n, c1)" "mt_frames (kern c1) = mt_frames (kern c)" "mt_finish A n c1 = Inr c2"
    "completed V A n c c2" "ok_ops V A (outstanding letters k ph U - {n}) R c2" "n \<in> outstanding letters k ph U"
    "card (outstanding letters k ph U - {n}) < card (outstanding letters k ph U)"
    "cqe_user_data (cq c q) = mt_op A n"
proof -
  let ?O = "outstanding letters k ph U"
  have b: "ok_bounds letters k ph s U" and ops: "ok_ops V A ?O (add_mset (cqe_user_data (cq c q)) R) c"
    using ok by (simp_all add: mt_ok_def)
  have fin: "finite ?O" by (rule outstanding_finite [OF b])
  have "cqe_user_data (cq c q) \<in># mset (queued_data V c) + vw_flight V (mt_ring (kern c)) + add_mset (cqe_user_data (cq c q)) R"
    by simp
  then have "cqe_user_data (cq c q) \<in># image_mset (mt_op A) (mset_set ?O)"
    using ops unfolding ok_ops_def by metis
  then obtain n where n: "n \<in> ?O" "cqe_user_data (cq c q) = mt_op A n" using fin by auto
  have uds: "ok_uds A ?O (uds c)" using ops by (simp add: ok_ops_def)
  obtain c1 c2 where d: "deliver q c = Inr (Coro n, c1)" "mt_frames (kern c1) = mt_frames (kern c)" "mt_finish A n c1 = Inr c2"
    "completed V A n c c2" by (rule mt_finish_completed [OF uds n(1) q n(2), of V])
  have one: "\<forall>m \<in> ?O. mt_op A m = mt_op A n \<longrightarrow> m = n"
    using inj outstanding_bound [OF b] n(1) by (auto simp: inj_on_def)
  have "ok_ops V A (?O - {n}) R c2" by (rule completed_ops [OF d(4) _ fin n(1) one]) (use ops n(2) in simp)
  with d n card_Diff1_less [OF fin n(1)] that show ?thesis by blast
qed

text \<open>What handling it does to the state.\<close>

definition handled :: "'q ring_view \<Rightarrow> mt_args \<Rightarrow> char list \<Rightarrow> addr \<Rightarrow> nat \<Rightarrow> mt_phase \<Rightarrow> ('p, 'q) mt_context
    \<Rightarrow> nat \<Rightarrow> mt_phase \<Rightarrow> ('p, 'q) mt_context \<Rightarrow> bool" where
  "handled V A letters data k ph c k' ph' c' \<longleftrightarrow> mt_same V c c' \<and> ph' \<noteq> Between
     \<and> ((\<exists>n. current letters k ph = Some n \<and> data = mt_op A n)
          \<and> length (vw_queued V (mt_ring (kern c'))) \<le> length (vw_queued V (mt_ring (kern c))) + 1 \<and> k' \<le> k + 1
          \<and> (ph' = Over \<longrightarrow> length (vw_queued V (mt_ring (kern c'))) = length (vw_queued V (mt_ring (kern c))))
          \<and> (\<forall>m. current letters k' ph' = Some m \<longrightarrow> mt_op A m \<in> set (queued_data V c'))
        \<or> length (vw_queued V (mt_ring (kern c'))) = length (vw_queued V (mt_ring (kern c))) \<and> k' = k \<and> ph' = ph)"

lemma mt_completes_up:
  fixes c :: "('p, 'q) mt_context"
  assumes ok: "mt_ok V A letters k ph s U (add_mset (cqe_user_data (cq c q)) R) c" and ph: "ph \<noteq> Between"
    and c1: "mt_frames (kern c1) = mt_frames (kern c)" and f: "mt_finish A n c1 = Inr c2" and cd: "completed V A n c c2"
    and ops: "ok_ops V A (outstanding letters k ph U - {n}) R c2"
    and less: "card (outstanding letters k ph U - {n}) < card (outstanding letters k ph U)" and n: "i \<in> U" "n = up i"
  shows "mt_resume P get_sqe A (Coro n) c1 = Inr c2" "mt_ok V A letters k ph s (U - {i}) R c2"
    "left letters k ph s (U - {i}) < left letters k ph s U" "handled V A letters data k ph c k ph c2"
proof -
  have b: "ok_bounds letters k ph s U" and fr: "ok_frames letters k ph s U (mt_frames (kern c))"
    using ok by (simp_all add: mt_ok_def)
  have o: "outstanding letters k ph (U - {i}) = outstanding letters k ph U - {n}" using outstanding_remove(1) [OF b n(1)] n(2) by simp
  show "mt_resume P get_sqe A (Coro n) c1 = Inr c2" using fr n c1 f by (simp add: ok_frames_def mt_resume_up)
  show "mt_ok V A letters k ph s (U - {i}) R c2"
    using ok cd ops o b ok_frames_completed_up [OF fr b n(1)] n by (auto simp: mt_ok_def completed_def ok_bounds_def)
  show "left letters k ph s (U - {i}) < left letters k ph s U" using less by (simp add: left_def o)
  show "handled V A letters data k ph c k ph c2" using cd ph by (simp add: handled_def completed_def)
qed

lemma mt_completes_letter:
  fixes c :: "('p, 'q) mt_context"
  assumes sup: "supplies_entries entries get_sqe V" "length (vw_queued V (mt_ring (kern c))) < entries"
    and inj: "inj_on (mt_op A) {..up (length letters)}"
    and ok: "mt_ok V A letters k Letter s U (add_mset (cqe_user_data (cq c q)) R) c"
    and c1: "mt_frames (kern c1) = mt_frames (kern c)" and f: "mt_finish A n c1 = Inr c2" and cd: "completed V A n c c2"
    and ops: "ok_ops V A (outstanding letters k Letter U - {n}) R c2"
    and less: "card (outstanding letters k Letter U - {n}) < card (outstanding letters k Letter U)"
    and n: "current letters k Letter = Some n" "data = mt_op A n"
  obtains c' k' ph' where "mt_resume P get_sqe A (Coro n) c1 = Inr c'" "mt_ok V A letters k' ph' s U R c'"
    "left letters k' ph' s U < left letters k Letter s U" "handled V A letters data k Letter c k' ph' c'"
proof -
  have b: "ok_bounds letters k Letter s U" and fr: "ok_frames letters k Letter s U (mt_frames (kern c))"
    using ok by (simp_all add: mt_ok_def)
  have nl: "n = low (k - 1)" "0 < k" using n b by (simp_all add: current_def ok_bounds_def)
  have o: "outstanding letters k Between U = outstanding letters k Letter U - {n}" by (rule outstanding_remove(2) [OF b n(1)])
  have "ok_frames letters k Between s U ((mt_frames (kern c))(n := None))"
    using fr nl b by (auto simp: ok_frames_def outstanding_def current_def ok_bounds_def)
  with ok cd ops o b have ok2: "mt_ok V A letters k Between s U R c2"
    by (auto simp: mt_ok_def completed_def ok_bounds_def intro: ok_log_between)
  have len: "length (vw_queued V (mt_ring (kern c2))) < entries" using sup(2) cd by (simp add: completed_def)
  obtain c' k' ph' m where go: "mt_go P get_sqe A 0 (drop k letters) c2 = Inr c'" "mt_ok V A letters k' ph' s U R c'"
    "mt_same V c2 c'" "length (vw_queued V (mt_ring (kern c'))) = length (vw_queued V (mt_ring (kern c2))) + 1"
    "current letters k' ph' = Some m" "mt_op A m \<in> set (queued_data V c')"
    "ph' = Letter \<and> k' = Suc k \<or> ph' = Newline \<and> k' = k"
    by (rule mt_goes_on [OF sup(1) len inj ok2, of P])
  have "mt_frames (kern c2) 0 = Some (Multitask (Some (drop k letters)))"
    using fr cd nl by (simp add: ok_frames_def completed_def)
  with go(1) f c1 fr nl have r: "mt_resume P get_sqe A (Coro n) c1 = Inr c'"
    by (simp add: ok_frames_def mt_resume_current mt_resume_multitask_def)
  have "k' \<le> length letters" using go(2) by (simp add: mt_ok_def ok_bounds_def)
  moreover have "card (outstanding letters k' ph' U) \<le> card (outstanding letters k Letter U)"
  proof -
    from go(7) obtain x where "outstanding letters k' ph' U = insert x (outstanding letters k Letter U - {n})"
      using outstanding_letter [of letters k U] o by blast
    then have "card (outstanding letters k' ph' U) \<le> Suc (card (outstanding letters k Letter U - {n}))"
      by (simp add: card_insert_le_m1 card_insert_if outstanding_finite [OF b])
    with less show ?thesis by linarith
  qed
  ultimately have l: "left letters k' ph' s U < left letters k Letter s U" using go(7) by (auto simp: left_def)
  have "mt_same V c c'" using cd go(3) by (auto simp: completed_def intro: mt_same_trans)
  then have "handled V A letters data k Letter c k' ph' c'"
    using go(4-7) n cd by (auto simp: handled_def completed_def)
  with r go(2) l that show ?thesis by blast
qed

lemma mt_completes_newline:
  fixes c :: "('p, 'q) mt_context"
  assumes ok: "mt_ok V A letters k Newline s U (add_mset (cqe_user_data (cq c q)) R) c"
    and c1: "mt_frames (kern c1) = mt_frames (kern c)" and f: "mt_finish A n c1 = Inr c2" and cd: "completed V A n c c2"
    and ops: "ok_ops V A (outstanding letters k Newline U - {n}) R c2"
    and less: "card (outstanding letters k Newline U - {n}) < card (outstanding letters k Newline U)"
    and n: "current letters k Newline = Some n" "data = mt_op A n"
  defines "c' \<equiv> mt_set 0 None (stop c2)"
  shows "mt_resume P get_sqe A (Coro n) c1 = Inr c'" "mt_ok V A letters k Over s U R c'"
    "left letters k Over s U < left letters k Newline s U" "handled V A letters data k Newline c k Over c'"
proof -
  have b: "ok_bounds letters k Newline s U" and fr: "ok_frames letters k Newline s U (mt_frames (kern c))"
    using ok by (simp_all add: mt_ok_def)
  have nl: "n = up (length letters)" using n by (simp add: current_def)
  have o: "outstanding letters k Over U = outstanding letters k Newline U - {n}" by (rule outstanding_remove(3) [OF b n(1)])
  have "mt_frames (kern c2) 0 = Some (Multitask None)" using fr cd nl by (simp add: ok_frames_def completed_def)
  with f c1 fr nl show "mt_resume P get_sqe A (Coro n) c1 = Inr c'"
    by (simp add: c'_def ok_frames_def mt_resume_current mt_resume_multitask_def)
  have "ok_frames letters k Over s U ((mt_frames (kern c))(n := None, 0 := None))"
    using fr nl b by (auto simp: ok_frames_def outstanding_def current_def ok_bounds_def)
  with ok cd ops o b show "mt_ok V A letters k Over s U R c'"
    by (auto simp: c'_def mt_ok_def completed_def ok_bounds_def mt_set_def stop_def ok_ops_def intro: ok_log_between)
  show "left letters k Over s U < left letters k Newline s U" using less by (simp add: left_def o)
  show "handled V A letters data k Newline c k Over c'"
    using cd n by (auto simp: c'_def handled_def completed_def mt_same_def mt_set_def stop_def current_def)
qed

lemma mt_completes:
  fixes c :: "('p, 'q) mt_context"
  assumes sup: "supplies_entries entries get_sqe V" "length (vw_queued V (mt_ring (kern c))) < entries"
    and inj: "inj_on (mt_op A) {..up (length letters)}"
    and ok: "mt_ok V A letters k ph s U (add_mset (cqe_user_data (cq c q)) R) c" and q: "q \<noteq> null" and ph: "ph \<noteq> Between"
  obtains n c1 c' k' ph' U' where "deliver q c = Inr (Coro n, c1)" "mt_resume P get_sqe A (Coro n) c1 = Inr c'"
    "mt_ok V A letters k' ph' s U' R c'" "left letters k' ph' s U' < left letters k ph s U"
    "handled V A letters (cqe_user_data (cq c q)) k ph c k' ph' c'"
proof -
  obtain n c1 c2 where d: "deliver q c = Inr (Coro n, c1)" and c2: "mt_frames (kern c1) = mt_frames (kern c)" "mt_finish A n c1 = Inr c2"
    "completed V A n c c2" "ok_ops V A (outstanding letters k ph U - {n}) R c2"
    and n: "n \<in> outstanding letters k ph U" and less: "card (outstanding letters k ph U - {n}) < card (outstanding letters k ph U)"
    and data: "cqe_user_data (cq c q) = mt_op A n"
    by (rule mt_reaped [OF inj ok q])
  from n consider (up) i where "i \<in> U" "n = up i" | (letter) "ph = Letter" "current letters k ph = Some n"
    | (newline) "ph = Newline" "current letters k ph = Some n"
    by (auto simp: outstanding_def current_def split: mt_phase.splits)
  then show ?thesis
  proof cases
    case up
    from mt_completes_up [OF ok ph c2 less up] d show ?thesis by (intro that [of n c1 c2 k ph "U - {i}"])
  next
    case letter
    note t = letter(1)
    obtain c' k' ph' where "mt_resume P get_sqe A (Coro n) c1 = Inr c'" "mt_ok V A letters k' ph' s U R c'"
      "left letters k' ph' s U < left letters k Letter s U" "handled V A letters (cqe_user_data (cq c q)) k Letter c k' ph' c'"
      by (rule mt_completes_letter [OF sup inj ok [unfolded t] c2(1-3) c2(4) [unfolded t] less [unfolded t] letter(2) [unfolded t] data])
    with d t show ?thesis by (intro that [of n c1 c' k' ph' U]) simp_all
  next
    case newline
    note t = newline(1)
    from mt_completes_newline [OF ok [unfolded t] c2(1-3) c2(4) [unfolded t] less [unfolded t] newline(2) [unfolded t] data] d t
    show ?thesis by (intro that [of n c1 "mt_set 0 None (stop c2)" k Over U]) simp_all
  qed
qed

end
