(* ===== verification/MultiTaskProps.thy ===== *)
theory MultiTaskProps
  imports MultiTask
begin

text \<open>
  Rounds of the event loop over the coroutines of \<open>MultiTask\<close>, and the whole program: it ends, it has
  written everything, and the awaited writes keep their order.
\<close>

section \<open>One round of the event loop\<close>

definition mt_env :: "'p prep_fns \<Rightarrow> ('q \<Rightarrow> addr \<times> 'q) \<Rightarrow> mt_args \<Rightarrow> ('p, 'q mt_kern) loop_env \<Rightarrow> bool" where
  "mt_env P get_sqe A env \<longleftrightarrow> resume env = mt_resume P get_sqe A"

text \<open>The batch starts the spawned tasks.\<close>

lemma left_start:
  assumes "ok_bounds letters k ph s U" "s < k"
  shows "left letters k ph (Suc s) (insert s U) = left letters k ph s U"
proof -
  have "length letters - s = Suc (length letters - Suc s)" using assms by (auto simp: ok_bounds_def)
  then show ?thesis
    using outstanding_finite [OF assms(1)] up_not_outstanding [OF assms] by (simp add: left_def outstanding_start)
qed

lemma mt_batch:
  fixes c :: "('p, 'q) mt_context"
  assumes env: "mt_env P get_sqe A env" and sup: "supplies_entries entries get_sqe V" and inj: "inj_on (mt_op A) {..up (length letters)}"
  shows "mt_ok V A letters k ph s U R c \<Longrightarrow> n = k - s \<Longrightarrow> length (vw_queued V (mt_ring (kern c))) + n \<le> entries \<Longrightarrow>
    \<exists>c' U'. resume_some env n c = Inr c' \<and> mt_ok V A letters k ph k U' R c' \<and> mt_same V c c'
      \<and> length (vw_queued V (mt_ring (kern c'))) = length (vw_queued V (mt_ring (kern c))) + n
      \<and> left letters k ph k U' = left letters k ph s U"
proof (induction n arbitrary: c s U)
  case 0
  then have "s = k" by (simp add: mt_ok_def ok_bounds_def)
  with 0 show ?case by (auto simp: mt_same_def)
next
  case (Suc n)
  then have sk: "s < k" by simp
  have len: "length (vw_queued V (mt_ring (kern c))) < entries" using Suc.prems(3) by simp
  obtain c1 where c1: "mt_resume P get_sqe A (Coro (up s)) (c\<lparr>operations := map (\<lambda>i. Coro (up i)) [Suc s..<k]\<rparr>) = Inr c1"
    "mt_ok V A letters k ph (Suc s) (insert s U) R c1" "mt_same V c c1"
    "length (vw_queued V (mt_ring (kern c1))) = length (vw_queued V (mt_ring (kern c))) + 1"
    by (rule mt_starts_task [OF sup len inj Suc.prems(1) sk, of P])
  have "operations c = Coro (up s) # map (\<lambda>i. Coro (up i)) [Suc s..<k]"
    using Suc.prems(1) sk by (simp add: mt_ok_def upt_conv_Cons)
  then have step: "resume_some env (Suc n) c = resume_some env n c1"
    using c1(1) env by (simp add: mt_env_def)
  have "n = k - Suc s" "length (vw_queued V (mt_ring (kern c1))) + n \<le> entries"
    using Suc.prems(2,3) c1(4) by simp_all
  from Suc.IH [OF c1(2) this] obtain c' U' where "resume_some env n c1 = Inr c'" "mt_ok V A letters k ph k U' R c'"
    "mt_same V c1 c'" "length (vw_queued V (mt_ring (kern c'))) = length (vw_queued V (mt_ring (kern c1))) + n"
    "left letters k ph k U' = left letters k ph (Suc s) (insert s U)" by blast
  moreover have "left letters k ph (Suc s) (insert s U) = left letters k ph s U"
    using left_start [OF _ sk, of letters ph U] Suc.prems(1) by (simp add: mt_ok_def)
  ultimately show ?case using step c1(4) mt_same_trans [OF c1(3)] by auto
qed

text \<open>An operation that is still queued is not among the completions.\<close>

lemma queued_not_reaped:
  assumes ok: "mt_ok V A letters k ph s U R c" and inj: "inj_on (mt_op A) {..up (length letters)}"
    and a: "a \<in> set (queued_data V c)"
  shows "a \<notin># R"
proof
  assume "a \<in># R"
  have b: "ok_bounds letters k ph s U" using ok by (simp add: mt_ok_def)
  have "inj_on (mt_op A) (outstanding letters k ph U)"
    using inj outstanding_bound [OF b] by (auto simp: inj_on_def)
  then have "mset (queued_data V c) + vw_flight V (mt_ring (kern c)) + R = mset_set (mt_op A ` outstanding letters k ph U)"
    using ok by (simp add: mt_ok_def ok_ops_def image_mset_mset_set)
  then have "count (mset (queued_data V c) + vw_flight V (mt_ring (kern c)) + R) a \<le> 1"
    by (simp only: count_mset_set') simp
  moreover have "0 < count (mset (queued_data V c)) a" using a by (simp only: count_greater_zero_iff set_mset_mset)
  moreover have "0 < count R a" using \<open>a \<in># R\<close> by simp
  ultimately show False by (simp only: count_union)
qed

definition awaited :: "mt_args \<Rightarrow> char list \<Rightarrow> nat \<Rightarrow> mt_phase \<Rightarrow> addr multiset \<Rightarrow> bool" where
  "awaited A letters k ph R \<longleftrightarrow> (\<exists>n. current letters k ph = Some n \<and> mt_op A n \<in># R)"

text \<open>Where \<open>multitask\<close> is after the completions: at the next point if its task was among them.\<close>

definition moved_on :: "bool \<Rightarrow> 'q ring_view \<Rightarrow> nat \<Rightarrow> mt_phase \<Rightarrow> ('p, 'q) mt_context \<Rightarrow> nat \<Rightarrow> mt_phase \<Rightarrow> ('p, 'q) mt_context \<Rightarrow> bool" where
  "moved_on aw V k ph c k' ph' c' \<longleftrightarrow>
     (let len = length (vw_queued V (mt_ring (kern c))); len' = length (vw_queued V (mt_ring (kern c')))
      in if aw then len' \<le> len + 1 \<and> k' \<le> k + 1 \<and> (ph' = Over \<longrightarrow> len' = len) else len' = len \<and> k' = k \<and> ph' = ph)"

lemma mt_reaps:
  fixes c :: "('p, 'q) mt_context"
  assumes env: "mt_env P get_sqe A env" and sup: "supplies_entries entries get_sqe V" and inj: "inj_on (mt_op A) {..up (length letters)}"
  shows "mt_ok V A letters k ph s U (mset (map (\<lambda>a. cqe_user_data (cq c a)) qs)) c \<Longrightarrow> ph \<noteq> Between \<Longrightarrow>
    \<forall>a \<in> set qs. a \<noteq> null \<and> cqe_res (cq c a) \<noteq> - ECANCELED \<Longrightarrow>
    length (vw_queued V (mt_ring (kern c))) + (if awaited A letters k ph (mset (map (\<lambda>a. cqe_user_data (cq c a)) qs)) then 1 else 0) < entries \<Longrightarrow>
    \<exists>c' k' ph' U'. reap env qs d c = Inr (d + of_nat (length qs), c') \<and> mt_ok V A letters k' ph' s U' {#} c' \<and> ph' \<noteq> Between
      \<and> mt_same V c c' \<and> left letters k' ph' s U' + length qs \<le> left letters k ph s U
      \<and> moved_on (awaited A letters k ph (mset (map (\<lambda>a. cqe_user_data (cq c a)) qs))) V k ph c k' ph' c'"
proof (induction qs arbitrary: c d k ph U)
  case Nil
  then show ?case by (auto simp: mt_same_def moved_on_def awaited_def)
next
  case (Cons q qs)
  let ?R = "mset (map (\<lambda>a. cqe_user_data (cq c a)) qs)" and ?x = "cqe_user_data (cq c q)"
  let ?aw = "awaited A letters k ph (add_mset ?x ?R)"
  have len: "length (vw_queued V (mt_ring (kern c))) < entries" using Cons.prems(4) by simp
  have ok: "mt_ok V A letters k ph s U (add_mset ?x ?R) c" and q: "q \<noteq> null" using Cons.prems(1,3) by simp_all
  obtain n c1 c2 k2 ph2 U2 where d: "deliver q c = Inr (Coro n, c1)" "mt_resume P get_sqe A (Coro n) c1 = Inr c2"
    and ok2: "mt_ok V A letters k2 ph2 s U2 ?R c2" and l2: "left letters k2 ph2 s U2 < left letters k ph s U"
    and h: "handled V A letters ?x k ph c k2 ph2 c2"
    by (rule mt_completes [OF sup len inj ok q Cons.prems(2), of P])
  have cq: "cq c2 = cq c" and same: "mt_same V c c2" and ph2: "ph2 \<noteq> Between" using h by (auto simp: handled_def mt_same_def)
  have step: "reap env (q # qs) d c = reap env qs (d + 1) c2"
    using d env Cons.prems(3) by (simp add: mt_env_def)
  let ?aw2 = "awaited A letters k2 ph2 ?R"
  have cases: "\<not> ?aw2 \<and> ?aw \<and> length (vw_queued V (mt_ring (kern c2))) \<le> length (vw_queued V (mt_ring (kern c))) + 1 \<and> k2 \<le> k + 1
      \<and> (ph2 = Over \<longrightarrow> length (vw_queued V (mt_ring (kern c2))) = length (vw_queued V (mt_ring (kern c))))
    \<or> (?aw2 \<longrightarrow> ?aw) \<and> length (vw_queued V (mt_ring (kern c2))) = length (vw_queued V (mt_ring (kern c))) \<and> k2 = k \<and> ph2 = ph"
  proof -
    have "\<forall>m. current letters k2 ph2 = Some m \<longrightarrow> mt_op A m \<in> set (queued_data V c2) \<Longrightarrow> \<not> ?aw2"
      using queued_not_reaped [OF ok2 inj] unfolding awaited_def by blast
    moreover have "\<exists>n. current letters k ph = Some n \<and> ?x = mt_op A n \<Longrightarrow> ?aw" by (auto simp: awaited_def)
    moreover have "?aw2 \<and> k2 = k \<and> ph2 = ph \<Longrightarrow> ?aw" by (auto simp: awaited_def)
    ultimately show ?thesis using h unfolding handled_def by blast
  qed
  have "length (vw_queued V (mt_ring (kern c2))) + (if ?aw2 then 1 else 0) < entries"
    using cases Cons.prems(4) by (auto split: if_splits)
  with Cons.IH [of k2 ph2 U2 c2 "d + 1"] ok2 ph2 Cons.prems(3) cq obtain c' k' ph' U' where
    r: "reap env qs (d + 1) c2 = Inr (d + 1 + of_nat (length qs), c')" "mt_ok V A letters k' ph' s U' {#} c'" "ph' \<noteq> Between"
    "mt_same V c2 c'" "left letters k' ph' s U' + length qs \<le> left letters k2 ph2 s U2" "moved_on ?aw2 V k2 ph2 c2 k' ph' c'"
    by auto
  have "moved_on ?aw V k ph c k' ph' c'"
    using r(6) cases by (auto simp: moved_on_def Let_def split: if_splits)
  moreover have "reap env (q # qs) d c = Inr (d + of_nat (length (q # qs)), c')" using r(1) step by (simp add: add.assoc)
  moreover have "left letters k' ph' s U' + length (q # qs) \<le> left letters k ph s U" using r(5) l2 by simp
  ultimately show ?case
    using r(2,3) mt_same_trans [OF same r(4)]
    by (intro exI [of _ c'] exI [of _ k'] exI [of _ ph'] exI [of _ U'] conjI) simp_all
qed

text \<open>Between two rounds, with \<open>w\<close> writes that are not complete.\<close>

definition mt_between :: "'q ring_view \<Rightarrow> mt_args \<Rightarrow> char list \<Rightarrow> nat \<Rightarrow> ('p, 'q) mt_context \<Rightarrow> bool" where
  "mt_between V A letters w c \<longleftrightarrow> (\<exists>k ph s U. mt_ok V A letters k ph s U {#} c \<and> ph \<noteq> Between
     \<and> vw_ready V (mt_ring (kern c)) = [] \<and> length (vw_queued V (mt_ring (kern c))) \<le> (if ph = Over then 0 else 1)
     \<and> k - s \<le> 2 \<and> inflight c = of_nat (size (vw_flight V (mt_ring (kern c)))) \<and> w = left letters k ph s U)"

lemma mt_submits:
  fixes c :: "('p, 'q) mt_context"
  assumes sub: "submits_all V env" and ok: "mt_ok V A letters k ph s U {#} c" and ready: "vw_ready V (mt_ring (kern c)) = []"
    and infl: "inflight c = of_nat (size (vw_flight V (mt_ring (kern c))))"
  obtains n c1 qs where "submit env c = (n, c1)" "mt_ok V A letters k ph s U (mset (map (\<lambda>a. cqe_user_data (cq c1 a)) qs)) c1"
    "vw_queued V (mt_ring (kern c1)) = []" "vw_ready V (mt_ring (kern c1)) = qs"
    "\<forall>a \<in> set qs. a \<noteq> null \<and> cqe_res (cq c1 a) \<noteq> - ECANCELED"
    "inflight c1 + of_int n = of_nat (size (vw_flight V (mt_ring (kern c1))) + length qs)"
    "size (vw_flight V (mt_ring (kern c1))) + length qs = card (outstanding letters k ph U)"
    "outstanding letters k ph U \<noteq> {} \<longrightarrow> qs \<noteq> []"
proof -
  let ?q = "mt_ring (kern c)" and ?O = "outstanding letters k ph U"
  from sub [unfolded submits_all_def, rule_format, of c] obtain q' cq' new where
    c1: "submit env c = (int (length (vw_queued V ?q)), c\<lparr>cq := cq', kern := (kern c)\<lparr>mt_ring := q'\<rparr>\<rparr>)" (is "_ = (_, ?c1)")
    and q': "vw_queued V q' = []" "vw_sent V q' = vw_sent V ?q @ queued_data V c" "vw_ready V q' = new"
    and res: "\<forall>a \<in> set new. a \<noteq> null \<and> cqe_res (cq' a) \<noteq> - ECANCELED"
    and data: "mset (map (\<lambda>a. cqe_user_data (cq' a)) new) + vw_flight V q' = vw_flight V ?q + mset (queued_data V c)"
    and prog: "vw_flight V ?q + mset (queued_data V c) \<noteq> {#} \<longrightarrow> vw_ready V q' \<noteq> []"
    unfolding Let_def ready by auto
  have all: "mset (queued_data V c) + vw_flight V ?q = image_mset (mt_op A) (mset_set ?O)"
    using ok by (simp add: mt_ok_def ok_ops_def)
  have "ok_bounds letters k ph s U" using ok by (simp add: mt_ok_def)
  then have fin: "finite ?O" by (rule outstanding_finite)
  have card: "size (mset (queued_data V c) + vw_flight V ?q) = card ?O" unfolding all by simp
  have sz: "size (vw_flight V q') + length new = size (vw_flight V ?q) + length (vw_queued V ?q)"
    using arg_cong [OF data, of size] by (simp add: add.commute)
  have "vw_flight V q' + mset (map (\<lambda>a. cqe_user_data (cq' a)) new) = image_mset (mt_op A) (mset_set ?O)"
    using data all by (simp add: add.commute)
  with ok q' have ok1: "mt_ok V A letters k ph s U (mset (map (\<lambda>a. cqe_user_data (cq ?c1 a)) new)) ?c1"
    by (simp add: mt_ok_def ok_ops_def)
  show ?thesis
  proof (rule that [OF c1 ok1])
    show "inflight ?c1 + of_int (int (length (vw_queued V ?q))) = of_nat (size (vw_flight V (mt_ring (kern ?c1))) + length new)"
      unfolding infl [simplified] using sz by (simp add: infl flip: of_nat_add)
    show "size (vw_flight V (mt_ring (kern ?c1))) + length new = card ?O" using sz card by simp
    show "?O \<noteq> {} \<longrightarrow> new \<noteq> []"
    proof
      assume "?O \<noteq> {}"
      then have "mset (queued_data V c) + vw_flight V ?q \<noteq> {#}" using fin unfolding all by (simp add: mset_set_empty_iff)
      with prog q'(3) show "new \<noteq> []" by (metis add.commute)
    qed
  qed (use q' res in simp_all)
qed

lemma outstanding_card: "ok_bounds letters k ph s U \<Longrightarrow> card (outstanding letters k ph U) \<le> up (length letters) + 1"
  using card_mono [of "{..up (length letters)}" "outstanding letters k ph U"] outstanding_bound
  by (auto simp: subset_iff)

lemma unat_of_nat_small:
  "n < 2 ^ 64 \<Longrightarrow> unat (of_nat n :: size_t) = n" "n < 2 ^ 32 \<Longrightarrow> unat (of_nat n :: u32) = n"
  by (simp_all add: unat_of_nat take_bit_nat_eq_self)

lemma inflight_words:
  assumes "n < 2 ^ 32" "m \<le> n"
  shows "(of_nat n :: size_t) = 0 \<longleftrightarrow> n = 0" "ucast (of_nat m :: u32) = (of_nat m :: size_t)"
    "(of_nat m :: size_t) \<le> of_nat n" "unat (of_nat m :: u32) = m"
proof -
  have u: "unat (of_nat n :: size_t) = n" "unat (of_nat m :: size_t) = m"
    by (rule unat_of_nat_small, use assms in simp)+
  then show "(of_nat n :: size_t) = 0 \<longleftrightarrow> n = 0" by (metis unat_eq_zero)
  show "(of_nat m :: size_t) \<le> of_nat n" unfolding word_le_nat_alt u by (rule assms(2))
  show "ucast (of_nat m :: u32) = (of_nat m :: size_t)" by (rule ucast_of_nat_u32) (use assms in simp)
  show "unat (of_nat m :: u32) = m" by (rule unat_of_nat_small) (use assms in simp)
qed

text \<open>The completions are reaped and given back.\<close>

lemma mt_reap_and_advance:
  fixes c :: "('p, 'q) mt_context"
  assumes env: "mt_env P get_sqe A env" and sup: "supplies_entries entries get_sqe V" and inj: "inj_on (mt_op A) {..up (length letters)}"
    and rp: "reaps_ready V env" and size: "1 < entries" "length qs < 2 ^ 32"
    and ok: "mt_ok V A letters k ph s U (mset (map (\<lambda>a. cqe_user_data (cq c a)) qs)) c" "ph \<noteq> Between"
    and qs: "qs \<noteq> []" "vw_ready V (mt_ring (kern c)) = qs" "\<forall>a \<in> set qs. a \<noteq> null \<and> cqe_res (cq c a) \<noteq> - ECANCELED"
    and queue: "vw_queued V (mt_ring (kern c)) = []" and ks: "k - s \<le> 1"
  obtains c3 c4 k' ph' U' where "reap env (peek env c) 0 c = Inr (of_nat (length qs), c3)" "inflight c3 = inflight c"
    "advance env (of_nat (length qs)) c3 = c4" "mt_ok V A letters k' ph' s U' {#} c4" "ph' \<noteq> Between"
    "vw_ready V (mt_ring (kern c4)) = []" "vw_flight V (mt_ring (kern c4)) = vw_flight V (mt_ring (kern c))" "inflight c4 = inflight c"
    "length (vw_queued V (mt_ring (kern c4))) \<le> (if ph' = Over then 0 else 1)" "k' - s \<le> 2"
    "left letters k' ph' s U' < left letters k ph s U" "ph = Over \<longrightarrow> stop_flag c4"
proof -
  have len: "length (vw_queued V (mt_ring (kern c))) + (if awaited A letters k ph (mset (map (\<lambda>a. cqe_user_data (cq c a)) qs)) then 1 else 0) < entries"
    using queue size(1) by simp
  from mt_reaps [OF env sup inj ok qs(3) len, of 0] obtain c3 k' ph' U' where
    r: "reap env qs 0 c = Inr (of_nat (length qs), c3)" "mt_ok V A letters k' ph' s U' {#} c3" "ph' \<noteq> Between"
    "mt_same V c c3" "left letters k' ph' s U' + length qs \<le> left letters k ph s U"
    and mv: "moved_on (awaited A letters k ph (mset (map (\<lambda>a. cqe_user_data (cq c a)) qs))) V k ph c k' ph' c3"
    by auto
  have "vw_ready V (mt_ring (kern c3)) = qs" using r(4) qs(2) by (simp add: mt_same_def)
  with rp obtain q' where adv: "advance env (of_nat (length qs)) c3 = c3\<lparr>kern := (kern c3)\<lparr>mt_ring := q'\<rparr>\<rparr>" (is "_ = ?c4")
    "vw_ready V q' = []" "vw_queued V q' = vw_queued V (mt_ring (kern c3))"
    "vw_flight V q' = vw_flight V (mt_ring (kern c3))" "vw_sent V q' = vw_sent V (mt_ring (kern c3))"
    unfolding reaps_ready_def Let_def using inflight_words(4) [OF size(2) le_refl] by (metis drop_all order_refl)
  have pk: "peek env c = qs" using rp qs(2) by (simp add: reaps_ready_def)
  have ok4: "mt_ok V A letters k' ph' s U' {#} ?c4" using r(2) adv by (simp add: mt_ok_def ok_ops_def)
  have queue4: "length (vw_queued V q') \<le> (if ph' = Over then 0 else 1)" and ks4: "k' - s \<le> 2"
    using mv adv(3) queue ks by (auto simp: moved_on_def Let_def split: if_splits)
  have over: "ph = Over \<longrightarrow> stop_flag ?c4"
    using mv r(2) by (auto simp: moved_on_def awaited_def current_def mt_ok_def Let_def)
  have "left letters k' ph' s U' < left letters k ph s U" using r(5) qs(1) by (cases qs) auto
  with that [of c3 ?c4 k' ph' U'] r(1,3,4) pk adv ok4 queue4 ks4 over show ?thesis by (simp add: mt_same_def)
qed

lemma mt_submit_and_reap:
  fixes c :: "('p, 'q) mt_context"
  assumes env: "mt_env P get_sqe A env" and sup: "supplies_entries entries get_sqe V" and inj: "inj_on (mt_op A) {..up (length letters)}"
    and sub: "submits_all V env" and rp: "reaps_ready V env" and size: "1 < entries" "up (length letters) + 1 < 2 ^ 32"
    and ok: "mt_ok V A letters k ph s U {#} c" "ph \<noteq> Between" and ready: "vw_ready V (mt_ring (kern c)) = []"
    and infl: "inflight c = of_nat (size (vw_flight V (mt_ring (kern c))))" and ks: "k - s \<le> 1"
  obtains c' w where "submit_and_reap env False c = Inr c'" "mt_between V A letters w c'" "w \<le> left letters k ph s U"
    "outstanding letters k ph U \<noteq> {} \<longrightarrow> w < left letters k ph s U" "ph = Over \<longrightarrow> stop_flag c'"
proof -
  obtain n c1 qs where c1: "submit env c = (n, c1)" "mt_ok V A letters k ph s U (mset (map (\<lambda>a. cqe_user_data (cq c1 a)) qs)) c1"
    "vw_queued V (mt_ring (kern c1)) = []" "vw_ready V (mt_ring (kern c1)) = qs"
    "\<forall>a \<in> set qs. a \<noteq> null \<and> cqe_res (cq c1 a) \<noteq> - ECANCELED"
    "inflight c1 + of_int n = of_nat (size (vw_flight V (mt_ring (kern c1))) + length qs)"
    and card: "size (vw_flight V (mt_ring (kern c1))) + length qs = card (outstanding letters k ph U)"
    and prog: "outstanding letters k ph U \<noteq> {} \<longrightarrow> qs \<noteq> []"
    by (rule mt_submits [OF sub ok(1) ready infl])
  let ?N = "size (vw_flight V (mt_ring (kern c1))) + length qs"
  let ?c2 = "c1\<lparr>inflight := of_nat ?N\<rparr>"
  have b: "ok_bounds letters k ph s U" using ok(1) by (simp add: mt_ok_def)
  have N: "?N < 2 ^ 32" using outstanding_card [OF b] size(2) unfolding card by linarith
  have ok2: "mt_ok V A letters k ph s U (mset (map (\<lambda>a. cqe_user_data (cq ?c2 a)) qs)) ?c2"
    using c1(2) by (simp add: mt_ok_def ok_ops_def)
  show ?thesis
  proof (cases "?N = 0")
    case True
    have "outstanding letters k ph U = {}" using True card outstanding_finite [OF b] by simp
    moreover have "submit_and_reap env False c = Inr ?c2"
      unfolding submit_and_reap_def c1(1) using c1(6) True by (simp add: Let_def)
    moreover have "mt_between V A letters (left letters k ph s U) ?c2"
      unfolding mt_between_def using ok2 ok(2) c1(3,4) ks True
      by (intro exI [of _ k] exI [of _ ph] exI [of _ s] exI [of _ U]) simp
    moreover have "ph = Over \<longrightarrow> stop_flag ?c2" using ok2 by (simp add: mt_ok_def)
    ultimately show ?thesis using that [of ?c2 "left letters k ph s U"] by simp
  next
    case False
    then have ne: "qs \<noteq> []" using card prog by (metis card.empty)
    have lq: "length qs < 2 ^ 32" using N by simp
    have c2: "vw_ready V (mt_ring (kern ?c2)) = qs" "\<forall>a \<in> set qs. a \<noteq> null \<and> cqe_res (cq ?c2 a) \<noteq> - ECANCELED"
      "vw_queued V (mt_ring (kern ?c2)) = []" using c1(3-5) by simp_all
    obtain c3 c4 k' ph' U' where r: "reap env (peek env ?c2) 0 ?c2 = Inr (of_nat (length qs), c3)" "inflight c3 = inflight ?c2"
      "advance env (of_nat (length qs)) c3 = c4" and bt: "mt_ok V A letters k' ph' s U' {#} c4" "ph' \<noteq> Between"
      "vw_ready V (mt_ring (kern c4)) = []" "vw_flight V (mt_ring (kern c4)) = vw_flight V (mt_ring (kern ?c2))" "inflight c4 = inflight ?c2"
      "length (vw_queued V (mt_ring (kern c4))) \<le> (if ph' = Over then 0 else 1)" "k' - s \<le> 2"
      and l: "left letters k' ph' s U' < left letters k ph s U" and st: "ph = Over \<longrightarrow> stop_flag c4"
      by (rule mt_reap_and_advance [OF env sup inj rp size(1) lq ok2 ok(2) ne c2 ks])
    let ?c4 = "c4\<lparr>inflight := of_nat (size (vw_flight V (mt_ring (kern c1))))\<rparr>"
    have nz: "(of_nat (length qs) :: u32) \<noteq> 0"
      using inflight_words(4) [OF lq le_refl] ne by (metis length_0_conv unat_0)
    have "submit_and_reap env False c = Inr ?c4"
      unfolding submit_and_reap_def c1(1)
      using inflight_words(1-3) [OF N le_add2] False ne r nz c1(6) bt(5)
      by (simp add: Let_def inflight_conflict_workaround_def)
    moreover have "mt_between V A letters (left letters k' ph' s U') ?c4"
      unfolding mt_between_def using bt
      by (intro exI [of _ k'] exI [of _ ph'] exI [of _ s] exI [of _ U']) (simp add: mt_ok_def ok_ops_def)
    ultimately show ?thesis using that [of ?c4 "left letters k' ph' s U'"] l st by simp
  qed
qed

text \<open>What is assumed, in one: the coroutines run in \<open>env\<close>, and the ring serves them.\<close>

definition mt_serves :: "'p prep_fns \<Rightarrow> ('q \<Rightarrow> addr \<times> 'q) \<Rightarrow> mt_args \<Rightarrow> char list \<Rightarrow> nat \<Rightarrow> 'q ring_view
    \<Rightarrow> ('p, 'q mt_kern) loop_env \<Rightarrow> bool" where
  "mt_serves P get_sqe A letters entries V env \<longleftrightarrow> mt_env P get_sqe A env \<and> supplies_entries entries get_sqe V
     \<and> submits_all V env \<and> reaps_ready V env \<and> inj_on (mt_op A) {..up (length letters)}
     \<and> 2 < entries \<and> up (length letters) + 1 < 2 ^ 32"

lemma empty_switch: "switch_spsc c = fifo_new 64 Null_handle \<Longrightarrow> run_once_prepare c = c"
  by (simp add: run_once_prepare_def fifo_pop_empty [OF fifo_new_invar fifo_new_list] fifo_static_assert_def)

lemma mt_round:
  fixes c :: "('p, 'q) mt_context"
  assumes sv: "mt_serves P get_sqe A letters entries V env" and bt: "mt_between V A letters w c"
  obtains c' w' where "run_once env False False c = Inr c'" "mt_between V A letters w' c'" "w \<noteq> 0 \<longrightarrow> w' < w"
    "stop_flag c \<longrightarrow> stop_flag c'"
proof -
  from sv have env: "mt_env P get_sqe A env" and sup: "supplies_entries entries get_sqe V" and sub: "submits_all V env"
    and rp: "reaps_ready V env" and inj: "inj_on (mt_op A) {..up (length letters)}"
    and size: "2 < entries" "up (length letters) + 1 < 2 ^ 32" by (simp_all add: mt_serves_def)
  from bt obtain k ph s U where ok: "mt_ok V A letters k ph s U {#} c" "ph \<noteq> Between"
    and rd: "vw_ready V (mt_ring (kern c)) = []" and len0: "length (vw_queued V (mt_ring (kern c))) \<le> (if ph = Over then 0 else 1)"
    and ks: "k - s \<le> 2" and infl: "inflight c = of_nat (size (vw_flight V (mt_ring (kern c))))" and w: "w = left letters k ph s U"
    unfolding mt_between_def by blast
  from len0 have len: "length (vw_queued V (mt_ring (kern c))) \<le> 1" by (simp split: if_splits)
  have "length (vw_queued V (mt_ring (kern c))) + (k - s) \<le> entries" using len ks size(1) by linarith
  from mt_batch [OF env sup inj ok(1) refl this] obtain c1 U1 where c1: "resume_some env (k - s) c = Inr c1"
    "mt_ok V A letters k ph k U1 {#} c1" "mt_same V c c1" "left letters k ph k U1 = w" using w by blast
  have rd1: "vw_ready V (mt_ring (kern c1)) = []" and infl1: "inflight c1 = of_nat (size (vw_flight V (mt_ring (kern c1))))"
    using c1(3) rd infl by (simp_all add: mt_same_def)
  have kk: "k - k \<le> 1" and e1: "1 < entries" using size(1) by simp_all
  obtain c' w' where c': "submit_and_reap env False c1 = Inr c'" "mt_between V A letters w' c'" "w' \<le> left letters k ph k U1"
    "outstanding letters k ph U1 \<noteq> {} \<longrightarrow> w' < left letters k ph k U1" "ph = Over \<longrightarrow> stop_flag c'"
    by (rule mt_submit_and_reap [OF env sup inj sub rp e1 size(2) c1(2) ok(2) rd1 infl1 kk])
  have "take_batch c = k - s" "run_once_prepare c = c" using ok(1) ks by (simp_all add: mt_ok_def take_batch_def empty_switch)
  with c1(1) c'(1) have "run_once env False False c = Inr c'" by (simp add: run_once_def)
  moreover have "w \<noteq> 0 \<longrightarrow> w' < w"
  proof (cases "outstanding letters k ph U1 = {}")
    case True
    then have "ph = Over" using ok(2) by (cases ph) (simp_all add: outstanding_def current_def)
    with True c1(2,4) show ?thesis by (simp add: left_def mt_ok_def ok_bounds_def)
  qed (use c'(4) c1(4) in simp)
  moreover have "stop_flag c \<longrightarrow> stop_flag c'" using ok(1) c'(5) by (simp add: mt_ok_def)
  ultimately show ?thesis using that c'(2) by blast
qed

text \<open>Nothing is left to do once the context has stopped and is drained.\<close>

lemma mt_between_cases:
  assumes "mt_between V A letters w c" "up (length letters) + 1 < 2 ^ 32"
  shows "w = 0 \<Longrightarrow> stopped c" "w = 0 \<Longrightarrow> drained c"
    and "drained c \<Longrightarrow> stop_flag c \<Longrightarrow> mt_frames (kern c) = (\<lambda>_. None) \<and> vw_flight V (mt_ring (kern c)) = {#}
      \<and> ok_log (mt_op A) letters (length letters) Over (length letters) (vw_sent V (mt_ring (kern c)))"
proof -
  from assms(1) obtain k ph s U where ok: "mt_ok V A letters k ph s U {#} c" "ph \<noteq> Between"
    and len: "length (vw_queued V (mt_ring (kern c))) \<le> (if ph = Over then 0 else 1)"
    and infl: "inflight c = of_nat (size (vw_flight V (mt_ring (kern c))))" and w: "w = left letters k ph s U"
    unfolding mt_between_def by blast
  have b: "ok_bounds letters k ph s U" using ok by (simp add: mt_ok_def)
  have all: "mset (queued_data V c) + vw_flight V (mt_ring (kern c)) = image_mset (mt_op A) (mset_set (outstanding letters k ph U))"
    using ok(1) by (simp add: mt_ok_def ok_ops_def)
  have "size (vw_flight V (mt_ring (kern c))) \<le> card (outstanding letters k ph U)"
    using arg_cong [OF all, of size] by simp
  then have "size (vw_flight V (mt_ring (kern c))) < 2 ^ 32" using outstanding_card [OF b] assms(2) by linarith
  then have "size (vw_flight V (mt_ring (kern c))) < 2 ^ 64" by simp
  then have zero: "inflight c = 0 \<longleftrightarrow> vw_flight V (mt_ring (kern c)) = {#}"
    unfolding infl by (metis unat_of_nat_small(1) unat_eq_zero size_eq_0_iff_empty)
  {
    assume "w = 0"
    then have "outstanding letters k ph U = {}" "length letters = s" "length letters = k"
      using b w outstanding_finite [OF b] by (auto simp: left_def ok_bounds_def)
    moreover from this(1) have "ph = Over" using ok(2) by (cases ph) (simp_all add: outstanding_def current_def)
    moreover have "vw_flight V (mt_ring (kern c)) = {#}" using all calculation(1) by simp
    ultimately have "stopped c \<and> drained c" using ok(1) zero by (simp add: mt_ok_def io_defs)
  }
  then show "w = 0 \<Longrightarrow> stopped c" "w = 0 \<Longrightarrow> drained c" by blast+
  assume dr: "drained c" and st: "stop_flag c"
  have over: "ph = Over" using st ok(1) by (simp add: mt_ok_def)
  then have k: "k = length letters" using b by (simp add: ok_bounds_def)
  have fl: "vw_flight V (mt_ring (kern c)) = {#}" and sk: "s = k"
    using dr zero ok(1) by (auto simp: io_defs mt_ok_def ok_bounds_def)
  have q: "vw_queued V (mt_ring (kern c)) = []" using len over by simp
  then have "outstanding letters k ph U = {}"
    using all fl outstanding_finite [OF b] by (simp add: mset_set_empty_iff)
  then have "mt_frames (kern c) n = None" for n
    using ok(1) over sk by (auto simp: mt_ok_def ok_frames_def)
  with fl q ok(1) over k sk show "mt_frames (kern c) = (\<lambda>_. None) \<and> vw_flight V (mt_ring (kern c)) = {#}
      \<and> ok_log (mt_op A) letters (length letters) Over (length letters) (vw_sent V (mt_ring (kern c)))"
    by (auto simp: mt_ok_def)
qed

section \<open>The whole program\<close>

lemma mt_run_loop:
  fixes c :: "('p, 'q) mt_context"
  assumes sv: "mt_serves P get_sqe A letters entries V env"
  shows "mt_between V A letters w c \<Longrightarrow> \<exists>c' w'. run_loop env False c = Some (Inr c') \<and> mt_between V A letters w' c' \<and> stopped c'"
proof (induction w arbitrary: c rule: less_induct)
  case (less w)
  have size: "up (length letters) + 1 < 2 ^ 32" using sv by (simp add: mt_serves_def)
  show ?case
  proof (cases "stopped c")
    case True
    then have "run_loop env False c = Some (Inr c)" by (subst run_loop.simps) (simp add: running_def)
    with True less.prems show ?thesis by blast
  next
    case False
    with mt_between_cases(1) [OF less.prems size] have "w \<noteq> 0" by blast
    obtain c1 w1 where c1: "run_once env False False c = Inr c1" "mt_between V A letters w1 c1" "w \<noteq> 0 \<longrightarrow> w1 < w"
      by (rule mt_round [OF sv less.prems])
    have "run_loop env False c = run_loop env False c1"
      using False c1(1) by (subst run_loop.simps) (simp add: running_def)
    with less.IH [OF _ c1(2)] c1(3) \<open>w \<noteq> 0\<close> show ?thesis by simp
  qed
qed

lemma mt_drain:
  fixes c :: "('p, 'q) mt_context"
  assumes sv: "mt_serves P get_sqe A letters entries V env"
  shows "mt_between V A letters w c \<Longrightarrow> stop_flag c \<Longrightarrow>
    \<exists>c' w'. drain env False c = Some (Inr c') \<and> mt_between V A letters w' c' \<and> drained c' \<and> stop_flag c'"
proof (induction w arbitrary: c rule: less_induct)
  case (less w)
  have size: "up (length letters) + 1 < 2 ^ 32" using sv by (simp add: mt_serves_def)
  show ?case
  proof (cases "drained c")
    case True
    then have "drain env False c = Some (Inr c)" by (subst drain.simps) simp
    with True less.prems show ?thesis by blast
  next
    case False
    with mt_between_cases(2) [OF less.prems(1) size] have "w \<noteq> 0" by blast
    obtain c1 w1 where c1: "run_once env False False c = Inr c1" "mt_between V A letters w1 c1" "w \<noteq> 0 \<longrightarrow> w1 < w"
      "stop_flag c \<longrightarrow> stop_flag c1"
      by (rule mt_round [OF sv less.prems(1)])
    have "drain env False c = drain env False c1"
      using False c1(1) by (subst drain.simps) simp
    with less.IH [OF _ c1(2)] c1(3,4) \<open>w \<noteq> 0\<close> less.prems(2) show ?thesis by simp
  qed
qed

definition ring_empty :: "'q ring_view \<Rightarrow> 'q \<Rightarrow> bool" where
  "ring_empty V q \<longleftrightarrow> vw_queued V q = [] \<and> vw_flight V q = {#} \<and> vw_ready V q = [] \<and> vw_sent V q = []"

text \<open>The first round runs \<open>multitask\<close> to its first \<open>co_await\<close>.\<close>

lemma mt_first_round:
  fixes entries_at :: "addr \<Rightarrow> 'p sqe"
  assumes sv: "mt_serves P get_sqe A letters entries V env" and e: "ring_empty V q"
  obtains c' w where "run_once env False False (mt_start q letters entries_at completions) = Inr c'" "mt_between V A letters w c'"
proof -
  from sv have env: "mt_env P get_sqe A env" and sup: "supplies_entries entries get_sqe V" and sub: "submits_all V env"
    and rp: "reaps_ready V env" and inj: "inj_on (mt_op A) {..up (length letters)}"
    and size: "2 < entries" "up (length letters) + 1 < 2 ^ 32" by (simp_all add: mt_serves_def)
  let ?c = "mt_start q letters entries_at completions"
  let ?idle = "?c\<lparr>operations := []\<rparr>"
  have ok0: "mt_ok V A letters 0 Between 0 {} {#} ?idle"
    using e by (simp add: mt_ok_def mt_start_def co_spawn_def ok_bounds_def ok_frames_def ok_ops_def ok_uds_def ok_log_def
        outstanding_def current_def low_order_def ring_empty_def up_def)
  have len0: "length (vw_queued V (mt_ring (kern ?idle))) < entries" using e size(1) by (simp add: ring_empty_def mt_start_def co_spawn_def)
  obtain c1 k ph m where c1: "mt_go P get_sqe A 0 (drop 0 letters) ?idle = Inr c1" "mt_ok V A letters k ph 0 {} {#} c1" "mt_same V ?idle c1"
    and at: "ph = Letter \<and> k = Suc 0 \<or> ph = Newline \<and> k = 0"
    by (rule mt_goes_on [OF sup len0 inj ok0, of P])
  have ph: "ph \<noteq> Between" and k: "k - 0 \<le> 1" and e1: "1 < entries" using at size(1) by auto
  have rd1: "vw_ready V (mt_ring (kern c1)) = []" and infl1: "inflight c1 = of_nat (size (vw_flight V (mt_ring (kern c1))))"
    using c1(3) e by (simp_all add: mt_same_def mt_start_def co_spawn_def ring_empty_def)
  obtain c' w where c': "submit_and_reap env False c1 = Inr c'" "mt_between V A letters w c'"
    by (rule mt_submit_and_reap [OF env sup inj sub rp e1 size(2) c1(2) ph rd1 infl1 k])
  have "mt_resume P get_sqe A (Coro 0) ?idle = Inr c1"
    using c1(1) by (simp add: mt_start_def co_spawn_def mt_resume_def mt_resume_multitask_def)
  then have "resume_handle env (Coro 0) ?idle = Inr c1" using env by (simp add: mt_env_def)
  moreover have "operations ?c = [Coro 0]" by (simp add: mt_start_def co_spawn_def)
  ultimately have "resume_some env (Suc 0) ?c = Inr c1" by (simp only: resume_some.simps list.case and_then.simps)
  moreover have "take_batch ?c = Suc 0" by (simp add: mt_start_def co_spawn_def take_batch_def)
  moreover have "run_once_prepare ?c = ?c" by (rule empty_switch) (simp add: mt_start_def co_spawn_def)
  ultimately have "run_once env False False ?c = Inr c'" using c'(1) by (simp add: run_once_def)
  with c'(2) that show ?thesis by blast
qed


text \<open>A ring that completes one operation at a time: the number of queued entries, the operations in the
  kernel, the completions, and what was submitted.\<close>

record sample_ring =
  sr_queued :: nat
  sr_flight :: "addr list"
  sr_ready :: "addr list"
  sr_sent :: "addr list"

definition sample_ring_view :: "sample_ring ring_view" where
  "sample_ring_view = \<lparr>vw_queued = (\<lambda>q. map (\<lambda>i. of_nat (i + 1)) [0..<sr_queued q]), vw_flight = (\<lambda>q. mset (sr_flight q)),
     vw_ready = sr_ready, vw_sent = sr_sent\<rparr>"

definition sample_get_sqe :: "sample_ring \<Rightarrow> addr \<times> sample_ring" where
  "sample_get_sqe q = (of_nat (sr_queued q + 1), q\<lparr>sr_queued := sr_queued q + 1\<rparr>)"

definition sample_mt_args :: mt_args where
  "sample_mt_args = \<lparr>mt_uring = 8, mt_fd = 1, mt_op = of_nat, mt_buf = of_nat\<rparr>"

definition sample_mt_submit :: "(string \<times> nat, sample_ring) mt_context \<Rightarrow> int \<times> (string \<times> nat, sample_ring) mt_context" where
  "sample_mt_submit c =
     (let q = mt_ring (kern c); data = queued_data sample_ring_view c; ops = sr_flight q @ data;
          q1 = q\<lparr>sr_queued := 0, sr_sent := sr_sent q @ data\<rparr>
      in (int (sr_queued q),
          if sr_ready q = [] \<and> ops \<noteq> []
          then c\<lparr>cq := (cq c)(1 := \<lparr>cqe_user_data = hd ops, cqe_res = 1, cqe_flags = 0\<rparr>),
                 kern := (kern c)\<lparr>mt_ring := q1\<lparr>sr_flight := tl ops, sr_ready := [1]\<rparr>\<rparr>\<rparr>
          else c\<lparr>cq := cq c, kern := (kern c)\<lparr>mt_ring := q1\<lparr>sr_flight := ops\<rparr>\<rparr>\<rparr>))"

definition sample_mt_env :: "(string \<times> nat, sample_ring mt_kern) loop_env" where
  "sample_mt_env = \<lparr>resume = mt_resume sample_preps sample_get_sqe sample_mt_args, submit = sample_mt_submit,
     peek = (\<lambda>c. sr_ready (mt_ring (kern c))),
     advance = (\<lambda>d c. c\<lparr>kern := (kern c)\<lparr>mt_ring := (mt_ring (kern c))\<lparr>sr_ready := drop (unat d) (sr_ready (mt_ring (kern c)))\<rparr>\<rparr>\<rparr>)\<rparr>"

lemma sample_supplies: "supplies_entries 256 sample_get_sqe sample_ring_view"
proof -
  have "(of_nat (n + 1) :: addr) \<noteq> null" "(of_nat (n + 1) :: addr) \<notin> (\<lambda>i. of_nat (i + 1)) ` {0..<n}" if "n < 256" for n
  proof -
    have u: "unat (of_nat (i + 1) :: addr) = i + 1" if "i \<le> n" for i
      by (rule unat_of_nat_small) (use that \<open>n < 256\<close> in simp)
    then show "(of_nat (n + 1) :: addr) \<noteq> null" by (metis add_is_0 le_refl one_neq_zero unat_0)
    show "(of_nat (n + 1) :: addr) \<notin> (\<lambda>i. of_nat (i + 1)) ` {0..<n}"
    proof
      assume "(of_nat (n + 1) :: addr) \<in> (\<lambda>i. of_nat (i + 1)) ` {0..<n}"
      then obtain i where "i < n" "(of_nat (n + 1) :: addr) = of_nat (i + 1)" by auto
      then show False using u [of n] u [of i] by (metis add_right_cancel le_refl less_imp_le_nat nat_less_le)
    qed
  qed
  then show ?thesis by (simp add: supplies_entries_def sample_get_sqe_def sample_ring_view_def)
qed

lemma sample_submits: "submits_all sample_ring_view sample_mt_env"
  unfolding submits_all_def
proof
  fix c :: "(string \<times> nat, sample_ring) mt_context"
  let ?q = "mt_ring (kern c)" let ?data = "queued_data sample_ring_view c" let ?ops = "sr_flight ?q @ ?data"
  let ?q1 = "?q\<lparr>sr_queued := 0, sr_sent := sr_sent ?q @ ?data\<rparr>"
  show "\<exists>q' cq' new. let q = ?q in
     submit sample_mt_env c = (int (length (vw_queued sample_ring_view q)), c\<lparr>cq := cq', kern := (kern c)\<lparr>mt_ring := q'\<rparr>\<rparr>)
     \<and> vw_queued sample_ring_view q' = [] \<and> vw_sent sample_ring_view q' = vw_sent sample_ring_view q @ queued_data sample_ring_view c
     \<and> vw_ready sample_ring_view q' = vw_ready sample_ring_view q @ new
     \<and> (\<forall>a \<in> set (vw_ready sample_ring_view q). cq' a = cq c a) \<and> (\<forall>a \<in> set new. a \<noteq> null \<and> cqe_res (cq' a) \<noteq> - ECANCELED)
     \<and> mset (map (\<lambda>a. cqe_user_data (cq' a)) new) + vw_flight sample_ring_view q' = vw_flight sample_ring_view q + mset (queued_data sample_ring_view c)
     \<and> (vw_flight sample_ring_view q + mset (queued_data sample_ring_view c) \<noteq> {#} \<longrightarrow> vw_ready sample_ring_view q' \<noteq> [])"
  proof (cases "sr_ready ?q = [] \<and> ?ops \<noteq> []")
    case True
    then have "mset ?ops = add_mset (hd ?ops) (mset (tl ?ops))" by (metis list.collapse mset.simps(2))
    with True show ?thesis unfolding Let_def
      by (intro exI [of _ "?q1\<lparr>sr_flight := tl ?ops, sr_ready := [1]\<rparr>"] exI [of _ "[1]"]
          exI [of _ "(cq c)(1 := \<lparr>cqe_user_data = hd ?ops, cqe_res = 1, cqe_flags = 0\<rparr>)"])
        (simp add: sample_mt_env_def sample_mt_submit_def sample_ring_view_def ECANCELED_def Let_def)
  next
    case False
    then show ?thesis unfolding Let_def
      by (intro exI [of _ "?q1\<lparr>sr_flight := ?ops\<rparr>"] exI [of _ "[]"] exI [of _ "cq c"])
        (auto simp: sample_mt_env_def sample_mt_submit_def sample_ring_view_def Let_def)
  qed
qed

lemma sample_mt_serves: "mt_serves sample_preps sample_get_sqe sample_mt_args mt_letters 256 sample_ring_view sample_mt_env"
proof -
  have bound: "up (length mt_letters) = 5001" by (simp add: up_def mt_letters_length)
  have "inj_on (mt_op sample_mt_args) {..up (length mt_letters)}"
  proof (rule inj_onI)
    fix i j assume "i \<in> {..up (length mt_letters)}" "j \<in> {..up (length mt_letters)}"
      and eq: "mt_op sample_mt_args i = mt_op sample_mt_args j"
    then have "i < 2 ^ 64" "j < 2 ^ 64" unfolding bound by simp_all
    with eq show "i = j" unfolding sample_mt_args_def by (metis mt_args.select_convs(3) unat_of_nat_small(1))
  qed
  moreover have "reaps_ready sample_ring_view sample_mt_env"
    unfolding reaps_ready_def Let_def
  proof (intro conjI allI)
    fix d :: u32 and c :: "(string \<times> nat, sample_ring) mt_context"
    let ?q = "mt_ring (kern c)"
    show "\<exists>q'. advance sample_mt_env d c = c\<lparr>kern := (kern c)\<lparr>mt_ring := q'\<rparr>\<rparr>
        \<and> vw_ready sample_ring_view q' = drop (unat d) (vw_ready sample_ring_view ?q)
        \<and> vw_queued sample_ring_view q' = vw_queued sample_ring_view ?q
        \<and> vw_flight sample_ring_view q' = vw_flight sample_ring_view ?q \<and> vw_sent sample_ring_view q' = vw_sent sample_ring_view ?q"
      by (rule exI [of _ "?q\<lparr>sr_ready := drop (unat d) (sr_ready ?q)\<rparr>"]) (simp add: sample_mt_env_def sample_ring_view_def)
  qed (simp add: sample_mt_env_def sample_ring_view_def)
  moreover have "mt_env sample_preps sample_get_sqe sample_mt_args sample_mt_env"
    by (simp add: mt_env_def sample_mt_env_def)
  ultimately show ?thesis
    unfolding mt_serves_def bound using sample_supplies sample_submits by simp
qed

definition sample_ring_start :: sample_ring where
  "sample_ring_start = \<lparr>sr_queued = 0, sr_flight = [], sr_ready = [], sr_sent = []\<rparr>"

lemma sample_ring_empty: "ring_empty sample_ring_view sample_ring_start"
  by (simp add: ring_empty_def sample_ring_view_def sample_ring_start_def)


section \<open>While it runs\<close>

lemma mt_rounds:
  fixes c :: "('p, 'q) mt_context"
  assumes "mt_serves P get_sqe A letters entries V env"
  shows "mt_between V A letters w c \<Longrightarrow> \<exists>c' w'. run_rounds env False n c = Inr c' \<and> mt_between V A letters w' c'"
proof (induction n arbitrary: c w)
  case (Suc n)
  obtain c1 w1 where "run_once env False False c = Inr c1" "mt_between V A letters w1 c1"
    by (rule mt_round [OF assms Suc.prems])
  with Suc.IH [of w1 c1] show ?case by simp
qed auto

text \<open>Frame \<open>m\<close> is suspended at the write of its letter.\<close>

definition writes_letter :: "char list \<Rightarrow> (nat \<Rightarrow> mt_frame option) \<Rightarrow> nat \<Rightarrow> bool" where
  "writes_letter letters fr m \<longleftrightarrow>
     (\<exists>i < length letters. m = up i \<and> fr m = Some (Mywrite_v2 (letters ! i) True)
        \<or> m = low i \<and> fr m = Some (Mywrite (lower_case (letters ! i)) 0))
     \<or> m = up (length letters) \<and> fr m = Some (Mywrite (CHR 0x0A) 0)"

lemma outstanding_writes_letter:
  assumes "ok_bounds letters k ph s U" "ok_frames letters k ph s U fr" "m \<in> outstanding letters k ph U"
  shows "writes_letter letters fr m"
proof -
  from assms(3) consider (up) i where "i \<in> U" "m = up i" | (letter) "ph = Letter" "m = low (k - 1)"
    | (newline) "ph = Newline" "m = up (length letters)"
    by (auto simp: outstanding_def current_def split: mt_phase.splits)
  then show ?thesis
  proof cases
    case up
    with assms(1,2) have "fr (up i) = Some (Mywrite_v2 (letters ! i) True)" "i < length letters"
      by (auto simp: ok_frames_def ok_bounds_def)
    with up(2) show ?thesis unfolding writes_letter_def by blast
  next
    case letter
    with assms(1,2) have "fr (low (k - 1)) = Some (Mywrite (lower_case (letters ! (k - 1))) 0)" "k - 1 < length letters"
      by (auto simp: ok_frames_def ok_bounds_def)
    with letter(2) show ?thesis unfolding writes_letter_def by blast
  next
    case newline
    with assms(2) show ?thesis by (simp add: ok_frames_def writes_letter_def)
  qed
qed

text \<open>At most one task of the awaited kind is there.\<close>

lemma one_mywrite:
  assumes "ok_frames letters k ph s U fr"
  shows "card {m. \<exists>x p. fr m = Some (Mywrite x p)} \<le> 1"
proof -
  have "{m. \<exists>x p. fr m = Some (Mywrite x p)} \<subseteq> set_option (current letters k ph)"
  proof
    fix m assume "m \<in> {m. \<exists>x p. fr m = Some (Mywrite x p)}"
    then obtain x p where m: "fr m = Some (Mywrite x p)" by blast
    with assms have "m = 0 \<or> m \<in> outstanding letters k ph U \<or> (\<exists>i. s \<le> i \<and> i < k \<and> m = up i)"
      unfolding ok_frames_def by (metis option.distinct(1))
    with assms m show "m \<in> set_option (current letters k ph)"
      by (auto simp: ok_frames_def outstanding_def split: mt_phase.splits)
  qed
  then have "card {m. \<exists>x p. fr m = Some (Mywrite x p)} \<le> card (set_option (current letters k ph))"
    by (rule card_mono [rotated]) simp
  also have "\<dots> \<le> 1" by (cases "current letters k ph") simp_all
  finally show ?thesis .
qed



end
