(* ===== verification/MultishotMain.thy ===== *)
theory MultishotMain
  imports Utils Features
begin

text \<open>
  The program \<open>examples/feature_multishot.cpp\<close>, without coroutines: one multishot accept, and a loop that
  waits for three clients. \<open>waits\<close> are the results of \<open>io_uring_wait_cqe\<close> with the entry each yields;
  after the last of them the call waits for ever.
\<close>

section \<open>The program\<close>

datatype mm_event =
    Warning
  | New_client int
  | Cqe_seen
  | Close_fd int
  | Queue_exit

text \<open>One completion: the warning when no more will come, the client, and the entry given back.\<close>

definition mm_completion :: "uapi \<Rightarrow> cqe \<Rightarrow> (int \<times> mm_event list) result" where
  "mm_completion U e = and_then (snd (nofail_less (cqe_res e) 0)) (\<lambda>client_fd.
     Inr (client_fd, (if cqe_flags e AND IORING_CQE_F_MORE U = 0 then [Warning] else []) @ [New_client client_fd, Cqe_seen]))"

text \<open>The loop. \<open>None\<close>: it waits for ever.\<close>

fun mm_loop :: "uapi \<Rightarrow> (int \<times> cqe) list \<Rightarrow> int list \<Rightarrow> mm_event list \<Rightarrow> (int list \<times> mm_event list) result option" where
  "mm_loop U waits client_fds out =
     (if \<not> length client_fds < 3 then Some (Inr (client_fds, out))
      else case waits of
        [] \<Rightarrow> None
      | (ret, e) # rest \<Rightarrow> (case and_then (snd (nofail_less ret 0)) (\<lambda>_. mm_completion U e) of
            Inl err \<Rightarrow> Some (Inl err)
          | Inr (client_fd, evs) \<Rightarrow> mm_loop U rest (client_fds @ [client_fd]) (out @ evs)))"

declare mm_loop.simps [simp del]

text \<open>\<open>n\<close> is the result of the only \<open>io_uring_submit\<close>. At the end the clients are closed, then the two
  guards run in the reverse order of their construction.\<close>

definition multishot_main :: "uapi \<Rightarrow> int \<Rightarrow> int \<Rightarrow> (int \<times> cqe) list \<Rightarrow> mm_event list result option" where
  "multishot_main U server_fd n waits =
     (if n \<noteq> 1 then Some (Inl Assertion_failed)
      else map_option (\<lambda>r. and_then r (\<lambda>(client_fds, out).
             Inr (out @ map Close_fd client_fds @ [Queue_exit, Close_fd server_fd]))) (mm_loop U waits [] []))"

section \<open>Property\<close>

definition mm_events :: "uapi \<Rightarrow> cqe \<Rightarrow> mm_event list" where
  "mm_events U e = (if cqe_flags e AND IORING_CQE_F_MORE U = 0 then [Warning] else []) @ [New_client (cqe_res e), Cqe_seen]"

lemma mm_loop_clients:
  assumes "\<forall>(ret, e) \<in> set waits. 0 \<le> ret \<and> 0 \<le> cqe_res e" and "length fds \<le> 3"
  shows "mm_loop U waits fds out =
    (if length waits < 3 - length fds then None
     else Some (Inr (fds @ map (cqe_res \<circ> snd) (take (3 - length fds) waits),
       out @ concat (map (mm_events U \<circ> snd) (take (3 - length fds) waits)))))"
  using assms
proof (induction waits arbitrary: fds out)
  case Nil
  then show ?case by (subst mm_loop.simps) auto
next
  case (Cons w waits)
  obtain ret e where w: "w = (ret, e)" by (cases w)
  show ?case
  proof (cases "length fds = 3")
    case True
    then show ?thesis by (subst mm_loop.simps) simp
  next
    case False
    with Cons.prems have "length fds < 3" "0 \<le> ret" "0 \<le> cqe_res e" using w by auto
    then have "mm_loop U (w # waits) fds out = mm_loop U waits (fds @ [cqe_res e]) (out @ mm_events U e)"
      by (subst mm_loop.simps) (simp add: w mm_completion_def nofail_less_def nofail_def mm_events_def)
    moreover obtain d where "3 - length fds = Suc d" "3 - length (fds @ [cqe_res e]) = d"
      using \<open>length fds < 3\<close> by (intro that [of "2 - length fds"]) simp_all
    ultimately show ?thesis
      using Cons.IH [of "fds @ [cqe_res e]" "out @ mm_events U e"] Cons.prems(1) \<open>length fds < 3\<close> w
      by (cases "length waits < d") simp_all
  qed
qed

text \<open>
  C38. The program accepts exactly three clients: when no call fails, it reports the first three
  completions in order, gives each entry back, closes these three clients in that order, then leaves
  the ring and closes the server; completions after the third are not looked at. With fewer than three
  completions it does not end, also when the kernel has announced that the multishot accept is over: the
  program only warns and waits on.
\<close>

theorem multishot_main_three_clients:
  assumes "\<forall>(ret, e) \<in> set waits. 0 \<le> ret \<and> 0 \<le> cqe_res e"
  shows "multishot_main U server_fd 1 waits =
    (if length waits < 3 then None
     else Some (Inr (concat (map (mm_events U \<circ> snd) (take 3 waits))
       @ map (Close_fd \<circ> cqe_res \<circ> snd) (take 3 waits) @ [Queue_exit, Close_fd server_fd])))"
  using mm_loop_clients [OF assms, of "[]" U "[]"] by (simp add: multishot_main_def)

theorem multishot_main_three_clients_witness:
  "multishot_main linux_uapi 3 1 [(0, \<lparr>cqe_user_data = 0, cqe_res = 5, cqe_flags = 2\<rparr>), (0, \<lparr>cqe_user_data = 0, cqe_res = 6, cqe_flags = 0\<rparr>)] = None
   \<and> multishot_main linux_uapi 3 1 [(0, \<lparr>cqe_user_data = 0, cqe_res = 5, cqe_flags = 2\<rparr>),
        (0, \<lparr>cqe_user_data = 0, cqe_res = 6, cqe_flags = 2\<rparr>), (0, \<lparr>cqe_user_data = 0, cqe_res = 7, cqe_flags = 2\<rparr>)]
      = Some (Inr [New_client 5, Cqe_seen, New_client 6, Cqe_seen, New_client 7, Cqe_seen,
          Close_fd 5, Close_fd 6, Close_fd 7, Queue_exit, Close_fd 3])"
  by (simp add: multishot_main_three_clients mm_events_def linux_uapi_def)

end
