(* ===== verification/SenderServers.thy ===== *)
theory SenderServers
  imports ExecOperation "HOL-Library.Sublist"
begin

text \<open>
  The echo servers written with senders: \<open>echo\<close> and \<open>server\<close> of \<open>experimental/stdexec/examples/echo_sender.cpp\<close>,
  \<open>pong\<close> and \<open>server\<close> of \<open>experimental/stdexec/benchmarks/pong.cpp\<close>.

  A connection is the operation it waits for, its buffer, and what it has printed and requested so far;
  resuming it with the signal of that operation runs the stages up to the next one. The adaptors of
  stdexec have their documented meaning: \<open>then\<close> and \<open>let_value\<close> run for a value and pass on errors and
  stops, \<open>upon_error\<close> turns an error into a value, \<open>repeat_effect_until\<close> starts again until the value
  is true, \<open>repeat_n\<close> as often as it says.
\<close>

section \<open>Connections\<close>

datatype conn_request =
    Async_read int nat
  | Async_write int int
  | Async_close int

datatype conn_point = At_read | At_write | At_close | Ended signal

record conn =
  conn_at :: conn_point
  conn_buf :: "char list"
  conn_printed :: "char list"
  conn_calls :: "conn_request list"

definition conn_call :: "conn_request \<Rightarrow> conn_point \<Rightarrow> conn \<Rightarrow> conn" where
  "conn_call r point c = c\<lparr>conn_at := point, conn_calls := conn_calls c @ [r]\<rparr>"

text \<open>\<open>echo\<close>: each round of \<open>repeat_effect_until\<close> starts with a new buffer.\<close>

definition echo_round :: "int \<Rightarrow> conn \<Rightarrow> conn" where
  "echo_round client_fd c = conn_call (Async_read client_fd 512) At_read (c\<lparr>conn_buf := replicate 512 (CHR 0x00)\<rparr>)"

definition echo_sender :: "int \<Rightarrow> conn" where
  "echo_sender client_fd = echo_round client_fd \<lparr>conn_at = At_read, conn_buf = [], conn_printed = [], conn_calls = []\<rparr>"

text \<open>\<open>bytes\<close> are the contents of the buffer after a read.\<close>

definition echo_sender_resume :: "int \<Rightarrow> signal \<Rightarrow> char list \<Rightarrow> conn \<Rightarrow> conn result" where
  "echo_sender_resume client_fd sig bytes c = (case conn_at c of
     At_read \<Rightarrow> (case sig of
         Set_value read_bytes \<Rightarrow> Inr (conn_call (Async_write client_fd read_bytes) At_write
           (c\<lparr>conn_buf := bytes, conn_printed := conn_printed c @ take (nat read_bytes) bytes\<rparr>))
       | other \<Rightarrow> Inr (c\<lparr>conn_at := Ended other\<rparr>))
   | At_write \<Rightarrow> (case sig of
         Set_value written_bytes \<Rightarrow>
           (if written_bytes = 0 \<or> conn_buf c ! 0 = CHR ''@''
            then Inr (conn_call (Async_close client_fd) At_close (c\<lparr>conn_printed := conn_printed c @ ''Closing client...'' @ [CHR 0x0A]\<rparr>))
            else Inr (echo_round client_fd c))
       | other \<Rightarrow> Inr (c\<lparr>conn_at := Ended other\<rparr>))
   | At_close \<Rightarrow> Inr (c\<lparr>conn_at := Ended sig\<rparr>)
   | Ended e \<Rightarrow> Inl Dangling)"

text \<open>\<open>pong\<close>: one buffer for all rounds, and errors are dropped before the close.\<close>

definition pong :: "int \<Rightarrow> nat \<Rightarrow> conn" where
  "pong client_fd blocksize = conn_call (Async_read client_fd blocksize) At_read
     \<lparr>conn_at = At_read, conn_buf = replicate blocksize (CHR 0x00), conn_printed = [], conn_calls = []\<rparr>"

definition pong_resume :: "int \<Rightarrow> signal \<Rightarrow> char list \<Rightarrow> conn \<Rightarrow> conn result" where
  "pong_resume client_fd sig bytes c =
     (let closing = conn_call (Async_close client_fd) At_close c
      in case conn_at c of
     At_read \<Rightarrow> (case sig of
         Set_value read_bytes \<Rightarrow> Inr (conn_call (Async_write client_fd read_bytes) At_write (c\<lparr>conn_buf := bytes\<rparr>))
       | Set_stopped \<Rightarrow> Inr (c\<lparr>conn_at := Ended Set_stopped\<rparr>)
       | _ \<Rightarrow> Inr closing)
   | At_write \<Rightarrow> (case sig of
         Set_value written_bytes \<Rightarrow>
           (if written_bytes = 0 then Inr closing
            else Inr (conn_call (Async_read client_fd (length (conn_buf c))) At_read c))
       | Set_stopped \<Rightarrow> Inr (c\<lparr>conn_at := Ended Set_stopped\<rparr>)
       | _ \<Rightarrow> Inr closing)
   | At_close \<Rightarrow> Inr (c\<lparr>conn_at := Ended sig\<rparr>)
   | Ended e \<Rightarrow> Inl Dangling)"

text \<open>A run over the signals of its operations, with the contents of the buffer at each.\<close>

fun conn_run :: "(signal \<Rightarrow> char list \<Rightarrow> conn \<Rightarrow> conn result) \<Rightarrow> (signal \<times> char list) list \<Rightarrow> conn \<Rightarrow> conn result" where
  "conn_run step [] c = Inr c"
| "conn_run step ((sig, bytes) # inputs) c = and_then (step sig bytes c) (conn_run step inputs)"

section \<open>Servers\<close>

text \<open>The connections that are spawned for the signals of the accepts, and how the server ended, if it did.
  \<open>server\<close> of \<open>echo_sender.cpp\<close> repeats for ever, that of \<open>pong.cpp\<close> \<open>sessions\<close> times.\<close>

fun echo_server :: "signal list \<Rightarrow> int list \<times> signal option" where
  "echo_server [] = ([], None)"
| "echo_server (Set_value client_fd # accepts) = (let (fds, e) = echo_server accepts in (client_fd # fds, e))"
| "echo_server (other # accepts) = ([], Some other)"

fun pong_server :: "nat \<Rightarrow> signal list \<Rightarrow> int list \<times> signal option" where
  "pong_server 0 accepts = ([], Some (Set_value 0))"
| "pong_server (Suc sessions) [] = ([], None)"
| "pong_server (Suc sessions) (Set_value client_fd # accepts) =
     (let (fds, e) = pong_server sessions accepts in (client_fd # fds, e))"
| "pong_server (Suc sessions) (Set_stopped # accepts) = ([], Some Set_stopped)"
| "pong_server (Suc sessions) (other # accepts) = ([], Some (Set_value 0))"

lemma echo_server_spawns:
  "fst (echo_server accepts) = map (\<lambda>s. case s of Set_value fd \<Rightarrow> fd | _ \<Rightarrow> 0) (takeWhile (\<lambda>s. \<exists>fd. s = Set_value fd) accepts)"
  by (induction accepts rule: echo_server.induct) (auto split: prod.splits)

lemma pong_server_spawns:
  "fst (pong_server sessions accepts) =
   map (\<lambda>s. case s of Set_value fd \<Rightarrow> fd | _ \<Rightarrow> 0) (takeWhile (\<lambda>s. \<exists>fd. s = Set_value fd) (take sessions accepts))"
  by (induction sessions accepts rule: pong_server.induct) (auto split: prod.splits)

section \<open>Lemmas\<close>

text \<open>Requests until the close: reads and writes alternate on the descriptor.\<close>

definition is_close :: "conn_request \<Rightarrow> bool" where
  "is_close r = (case r of Async_close fd \<Rightarrow> True | _ \<Rightarrow> False)"

text \<open>Where the close is: not yet there, the last request, or left out by an ending that \<open>skips\<close> allows.\<close>

fun close_state :: "int \<Rightarrow> (signal \<Rightarrow> bool) \<Rightarrow> conn_point \<Rightarrow> conn_request list \<Rightarrow> bool" where
  "close_state fd skips At_read calls \<longleftrightarrow> (\<forall>r \<in> set calls. \<not> is_close r)"
| "close_state fd skips At_write calls \<longleftrightarrow> (\<forall>r \<in> set calls. \<not> is_close r)"
| "close_state fd skips At_close calls \<longleftrightarrow> (\<exists>rs. calls = rs @ [Async_close fd] \<and> (\<forall>r \<in> set rs. \<not> is_close r))"
| "close_state fd skips (Ended e) calls \<longleftrightarrow> (\<exists>rs. calls = rs @ [Async_close fd] \<and> (\<forall>r \<in> set rs. \<not> is_close r))
     \<or> (\<forall>r \<in> set calls. \<not> is_close r) \<and> skips e"

lemmas conn_defs = echo_round_def conn_call_def is_close_def

lemma echo_sender_step:
  assumes "echo_sender_resume fd sig bytes c = Inr c'" "close_state fd (\<lambda>e. \<forall>v. e \<noteq> Set_value v) (conn_at c) (conn_calls c)"
  shows "close_state fd (\<lambda>e. \<forall>v. e \<noteq> Set_value v) (conn_at c') (conn_calls c')"
  using assms
  by (cases "conn_at c"; cases sig) (auto simp: echo_sender_resume_def conn_defs split: if_splits)

lemma pong_step:
  assumes "pong_resume fd sig bytes c = Inr c'" "close_state fd (\<lambda>e. e = Set_stopped) (conn_at c) (conn_calls c)"
  shows "close_state fd (\<lambda>e. e = Set_stopped) (conn_at c') (conn_calls c')"
  using assms
  by (cases "conn_at c"; cases sig) (auto simp: pong_resume_def conn_defs Let_def split: if_splits)

lemma conn_run_invariant:
  assumes step: "\<And>sig bytes c c'. step sig bytes c = Inr c' \<Longrightarrow> Q c \<Longrightarrow> Q c'"
  shows "conn_run step inputs c = Inr c' \<Longrightarrow> Q c \<Longrightarrow> Q c'"
proof (induction inputs arbitrary: c)
  case (Cons x inputs)
  then obtain c1 where "step (fst x) (snd x) c = Inr c1" "conn_run step inputs c1 = Inr c'" by (cases x) auto
  with Cons.IH Cons.prems(2) step show ?case by blast
qed simp

text \<open>What was read is printed and asked to be written, in order.\<close>

definition read_sizes :: "conn_point \<Rightarrow> signal \<Rightarrow> int list" where
  "read_sizes at sig = (case (at, sig) of (At_read, Set_value n) \<Rightarrow> [n] | _ \<Rightarrow> [])"

definition write_sizes :: "conn_request list \<Rightarrow> int list" where
  "write_sizes calls = concat (map (\<lambda>r. case r of Async_write fd n \<Rightarrow> [n] | _ \<Rightarrow> []) calls)"

lemma echo_sender_writes_what_it_read:
  "echo_sender_resume fd sig bytes c = Inr c' \<Longrightarrow>
   write_sizes (conn_calls c') = write_sizes (conn_calls c) @ read_sizes (conn_at c) sig"
  "pong_resume fd sig bytes c = Inr c' \<Longrightarrow>
   write_sizes (conn_calls c') = write_sizes (conn_calls c) @ read_sizes (conn_at c) sig"
  by (cases "conn_at c"; cases sig;
      auto simp: echo_sender_resume_def pong_resume_def conn_defs write_sizes_def read_sizes_def Let_def split: if_splits)+

section \<open>Property\<close>



end
