(* ===== verification/ThreadPool.thy ===== *)
theory ThreadPool
  imports Prelude "HOL-Library.Multiset"
begin

text \<open>
  The program \<open>experimental/stdexec/examples/thread_pool.cpp\<close>: four users post 10000 requests each to a
  pool of four threads, every request adds its number to a shared counter and then waits for a
  no-op of the ring; at the end the program asserts the value of the counter. The order in which the
  threads of the pool pick requests up and the completions arrive is left open.
\<close>

section \<open>The program\<close>

definition user_number :: nat where "user_number = 4"
definition some_requests :: nat where "some_requests = 10000"

definition user_frequency :: "nat list" where
  "user_frequency = [1..<some_requests + 1]"

text \<open>What each user has still to post, the requests that were spawned and not run, the number of those
  that wait for their no-op, and the counter.\<close>

record pool_state =
  to_post :: "nat list list"
  spawned :: "nat multiset"
  in_nop :: nat
  refcnt :: size_t

definition pool_init :: pool_state where
  "pool_init = \<lparr>to_post = replicate user_number user_frequency, spawned = {#}, in_nop = 0, refcnt = 0\<rparr>"

text \<open>\<open>user_request\<close>: the \<open>int\<close> is converted to \<open>size_t\<close>.\<close>

definition user_request :: "nat \<Rightarrow> pool_state \<Rightarrow> pool_state" where
  "user_request i s = s\<lparr>refcnt := refcnt s + of_nat i\<rparr>"

inductive pool_step :: "pool_state \<Rightarrow> pool_state \<Rightarrow> bool" where
  post: "k < length (to_post s) \<Longrightarrow> to_post s ! k = i # rest \<Longrightarrow>
    pool_step s (s\<lparr>to_post := (to_post s)[k := rest], spawned := add_mset i (spawned s)\<rparr>)"
| request: "i \<in># spawned s \<Longrightarrow>
    pool_step s (user_request i s\<lparr>spawned := spawned s - {#i#}, in_nop := in_nop s + 1\<rparr>)"
| nop_done: "in_nop s = Suc n \<Longrightarrow> pool_step s (s\<lparr>in_nop := n\<rparr>)"

text \<open>The users have been joined, and the scope is empty.\<close>

definition all_done :: "pool_state \<Rightarrow> bool" where
  "all_done s \<longleftrightarrow> (\<forall>is \<in> set (to_post s). is = []) \<and> spawned s = {#} \<and> in_nop s = 0"

text \<open>The value that the program asserts.\<close>

definition expected_refcnt :: size_t where
  "expected_refcnt = fold (\<lambda>i sum. sum + of_nat i) user_frequency 0 * of_nat user_number"

section \<open>Lemmas\<close>

lemma fold_sum: "fold (\<lambda>i sum. sum + of_nat i) is (a :: size_t) = a + of_nat (sum_list is)"
  by (induction "is" arbitrary: a) (simp_all add: add.assoc)

text \<open>The counter, what was spawned and what is still to be posted add up.\<close>

definition total :: "pool_state \<Rightarrow> size_t" where
  "total s = refcnt s + of_nat (sum_mset (spawned s) + sum_list (map sum_list (to_post s)))"

lemma sum_lists_update:
  "k < length xss \<Longrightarrow> xss ! k = i # rest \<Longrightarrow>
   sum_list (map sum_list xss) = i + sum_list (map sum_list (xss[k := rest]))" for xss :: "nat list list"
  by (induction xss arbitrary: k) (auto split: nat.splits simp: nth_Cons')

lemma pool_step_total:
  assumes "pool_step s t" shows "total t = total s"
  using assms
proof cases
  case (post k i rest)
  then show ?thesis using sum_lists_update [of k "to_post s" i rest] by (simp add: total_def)
next
  case (request i)
  then obtain A where "spawned s = add_mset i A" by (metis insert_DiffM)
  with request show ?thesis by (simp add: total_def user_request_def)
qed (simp add: total_def)

text \<open>The requests still to pass their three stages.\<close>

definition work_left :: "pool_state \<Rightarrow> nat" where
  "work_left s = 3 * length (concat (to_post s)) + 2 * size (spawned s) + in_nop s"

lemma length_concat_update:
  "k < length xss \<Longrightarrow> xss ! k = i # rest \<Longrightarrow> length (concat xss) = Suc (length (concat (xss[k := rest])))"
  by (induction xss arbitrary: k) (auto split: nat.splits simp: nth_Cons')

lemma pool_step_work:
  assumes "pool_step s t" shows "work_left s = Suc (work_left t)"
  using assms
proof cases
  case (post k i rest)
  then show ?thesis using length_concat_update [of k "to_post s" i rest] by (simp add: work_left_def)
next
  case (request i)
  then obtain A where "spawned s = add_mset i A" by (metis insert_DiffM)
  with request show ?thesis by (simp add: work_left_def user_request_def)
qed (simp add: work_left_def)

lemma pool_progress: "\<not> all_done s \<Longrightarrow> \<exists>t. pool_step s t"
proof -
  assume "\<not> all_done s"
  then consider (p) "is" where "is \<in> set (to_post s)" "is \<noteq> []" | (r) "spawned s \<noteq> {#}" | (n) "in_nop s \<noteq> 0"
    by (auto simp: all_done_def)
  then show ?thesis
  proof cases
    case p
    then obtain k where "k < length (to_post s)" "to_post s ! k = is" by (metis in_set_conv_nth)
    with p(2) post show ?thesis by (metis neq_Nil_conv)
  next
    case r
    then show ?thesis using request by blast
  next
    case n
    then show ?thesis using nop_done by (metis not0_implies_Suc)
  qed
qed

section \<open>Property\<close>



end
