(* ===== verification/Spec2Isabelle.thy ===== *)
theory Spec2Isabelle
  imports FifoSpsc IntrusiveQueueConc MultiLock IoContextProps ContextEnd LocalContext SystemTypes Sender Sigwait Task SwitchLoop
    Setup EchoCoroutine CatMain ProvidedEcho MultishotServer LinkServer DrainServer MultiTaskProps MultishotMain SenderServers ThreadPool
begin

text \<open>
  A verification development for \<open>io_uring-examples-cpp\<close>: two C++ header libraries over liburing and
  the programs beside them. Paths are relative to \<open>src/\<close>, and \<open>uring_exec/\<close> is
  \<open>experimental/stdexec/include/uring_exec/\<close>.

  \<^bold>\<open>The program.\<close> The coroutine library (\<open>include/\<close>) runs coroutines on an \<open>io_context\<close>: a queue of
  handles to resume, an \<open>io_uring\<close> whose completions name the \<open>user_data\<close> of the operation that
  a coroutine awaits, and a lock-free FIFO through which other threads hand coroutines over. Features
  (linked chains, draining, multishot, provided buffers, \<open>SQPOLL\<close>) are built on its awaitable operation.
  The sender library (\<open>uring_exec/\<close>) is an execution context for senders and receivers: schedulers push
  tasks into intrusive queues, and the run loop of each thread launches them, submits, handles
  completions through the virtual functions of the operations, and turns stop requests into
  cancellations. The operation states start, complete, stop and restart through the same queues.

  \<^bold>\<open>Theories.\<close> The prelude (\<open>Prelude\<close>) names the integer types, the error numbers, the faults
  (\<open>error\<close>, \<open>result\<close>) and holds the lemmas on circular indices and lists. Then, for each component:

  \<^item> \<open>Fifo\<close>: \<open>struct Fifo\<close> (\<open>include/utils.h\<close>), its refinement of a bounded queue, stated by the locale
    \<open>bounded_queue\<close>. \<open>FifoSpsc\<close>: the same code at the grain of its atomic accesses as a step relation.
  \<^item> \<open>IntrusiveQueue\<close>: \<open>intrusive_queue\<close> (\<open>uring_exec/detail.h\<close>) over a heap of \<open>Next\<close> fields, with the
    locale \<open>take_all_queue\<close>. \<open>IntrusiveQueueConc\<close>: its compare-and-exchange loops with any number of
    threads. \<open>MultiLock\<close>: \<open>multi_lock\<close> there. \<open>IntrusiveMap\<close>: \<open>trivial_intrusive_map\<close> and \<open>start_operation\<close>.
  \<^item> \<open>AsyncOp\<close>: \<open>Async_user_data\<close>, \<open>Async_operation\<close> (\<open>include/coroutine.h\<close>). \<open>IoContext\<close> and
    \<open>IoContextProps\<close>: \<open>Io_context\<close> with \<open>run_once\<close> and \<open>run\<close>. \<open>Task\<close>: the coroutine type and who owns
    a frame. \<open>ContextSwitch\<close>: \<open>include/co_context_switch.h\<close>. \<open>Features\<close>: the \<open>include/feature_*.h\<close>.
    \<open>Wrappers\<close>: the functions \<open>async_read\<close> and so on, and the chain of \<open>examples/feature_io_link.cpp\<close>.
  \<^item> \<open>RunLoop\<close>: \<open>uring_exec/io_uring_exec_internal_run.h\<close>, one definition per phase of a step, then the
    step, the runs that end a context and the loop. \<open>RunLoopProps\<close>, \<open>RunLoopEnd\<close>: launching, reaping,
    cancelling and accounting. \<open>ContextEnd\<close>: constructors, destructors and how runs end.
  \<^item> \<open>ExecOperation\<close>: \<open>uring_exec/io_uring_exec_operation.h\<close> and the operation of the scheduler.
    \<open>System\<close>: the run loop over these operations, joined through the locale \<open>signalling\<close>.
    \<open>SystemRuns\<close>: consecutive steps. \<open>SystemTypes\<close>: the completion signatures of the senders, which the
    running system keeps to. \<open>LocalContext\<close>: the thread-local contexts, their count, and the wait of the
    destructor, with any number of threads.
    \<open>Sender\<close>: \<open>uring_exec/io_uring_exec_sender.h\<close>, and \<open>Sigwait\<close> its \<open>async_sigwait\<close>. \<open>Setup\<close>: \<open>uring_exec/underlying_io_uring.h\<close>, the
    parameters of the contexts and of \<open>SQPOLL\<close>. \<open>Utils\<close>: the helpers of the two \<open>utils.h\<close>.
  \<^item> Programs: \<open>Echo\<close> (\<open>examples/echo.cpp\<close>); \<open>EchoCoroutine\<close> (\<open>echo_coroutine.cpp\<close>) with the
    equivalence of the two; \<open>Cat\<close> and \<open>CatMain\<close> (\<open>cat.cpp\<close>), the chunks and the whole program;
    \<open>ProvidedEcho\<close> (\<open>feature_provided_buffers.cpp\<close>) and the pool of buffers;
    \<open>LinkServer\<close> (\<open>feature_io_link.cpp\<close>) and \<open>DrainServer\<close> (\<open>feature_io_drain.cpp\<close>), with a kernel that
    keeps to the rule for draining requests, and the order in which the clients are answered;
    \<open>MultishotServer\<close> (\<open>feature_multishot2.cpp\<close>) and \<open>MultishotMain\<close> (\<open>feature_multishot.cpp\<close>); \<open>MultiTask\<close> and \<open>MultiTaskProps\<close>
    (\<open>test_multi_task.cpp\<close>), the whole program over the event loop; \<open>SwitchLoop\<close>
    (\<open>test_context_switch.cpp\<close>); \<open>ThreadPool\<close> (\<open>experimental/stdexec/examples/thread_pool.cpp\<close>);
    \<open>SenderServers\<close> (\<open>echo_sender.cpp\<close> there, and \<open>benchmarks/pong.cpp\<close>).

  \<^bold>\<open>How code and model correspond.\<close> Integers keep their width (\<open>size_t\<close> is a 64-bit word, and so on);
  results of system calls and of completions are \<open>int\<close>. Objects that are reached through pointers live in
  maps from addresses, a null or destroyed object is the fault \<open>Null_deref\<close> or \<open>Dangling\<close>, a failed assertion
  \<open>Assertion_failed\<close>. liburing, the kernel, the random generator, \<open>std::this_thread::yield\<close> and the bodies
  of coroutines, tasks and receivers are not part of the sources: they are arguments (\<open>env\<close>) with an
  abstract state of their own (\<open>kern\<close>, \<open>io\<close>), and what a theorem assumes of them is a named
  predicate: \<open>appends_only\<close>, \<open>traced\<close>, \<open>keeps_handles\<close>, \<open>keeps_inflight\<close>, \<open>winding_down\<close> for
  the coroutine library, \<open>library_calls_only_io\<close>, \<open>completion_queue\<close>, \<open>sq_supply\<close>, \<open>accounted\<close>, \<open>ring_laws\<close> for the
  sender library, \<open>file_laws\<close> for the system calls of \<open>cat\<close>, \<open>preps_clear_flags\<close> for the entries. Each is instantiated by a concrete environment (\<open>sample_env\<close>) in the witnesses.

  \<^bold>\<open>Loops.\<close> Loops over chains and the run loops are partial functions into \<open>option\<close>, where \<open>None\<close> is a
  loop that does not end. That a loop ends is proved: \<open>make_fifo\<close> and \<open>push_all\<close> on every
  well-formed chain, the launch and cancel loops on the queue they took, the reaping loop for every policy
  that is not a transfer or terminal run, and \<open>run\<close> of the coroutine library once it is stopped. No
  definition uses fuel; \<open>run_rounds n\<close> counts rounds in a statement and is no bound.

  \<^bold>\<open>What the lemmas show.\<close> Queues: nothing is lost, duplicated or reordered, under any interleaving, and
  the atomic accesses linearize. Event loop: batches are resumed in order and nobody starves; every
  completion is handled once. Run loop: tasks are launched once and in order, completions reach their
  operation once and in ring order, cancel requests are handed over without loss when the submission queue
  is full, and the counter of operations in flight stays exact. Operations: one outcome of a start, one
  signal per completion, of a kind that the sender declared. Thread-local contexts: none outlives its root,
  and the destructor waits for exactly the other threads. Frames: destroyed once. Programs: what they print,
  assert or keep of their resources. The remaining theorems pin down where the code
  departs from this: cancelled completions that are not delivered, a counter that wraps around,
  features without the null check, the destructive command and what a terminal run does not reach.

  \<^bold>\<open>Not modelled.\<close> \<open>feature_sqpoll.cpp\<close>, whose coroutines are those of \<open>echo_coroutine.cpp\<close> and whose
  parameters are in \<open>Setup\<close>. The other programs under \<open>examples/\<close> and \<open>experimental/stdexec/\<close> (\<open>examples\<close>,
  \<open>tests\<close>, \<open>benchmarks\<close>), which call the libraries with fixed inputs and print, and are built from the
  combinators of stdexec or the servers modelled here. The type-level code (concepts, environments, tag
  dispatch) and the coroutine transformation belong to the compiler. Thread identifiers are not
  reused. Memory is sequentially consistent in the concurrent theories.
\<close>

end
